(* ===== verification/BC_Prelude.thy ===== *)
theory BC_Prelude
  imports Main "HOL-Library.Word" "HOL-Library.Log_Nat" "HOL-Library.Multiset"
begin

unbundle bit_operations_syntax

text \<open>
  Prelude of the development: the parts of the C++ language and of its standard library that
  every component uses, and the lemma collections the component proofs run on.

  \<^item> \<open>fault\<close> and \<open>result\<close>: how an operation can fail to return. A C++ exception, a failed
    \<open>assert\<close>, a call of \<open>std::terminate\<close> or \<open>abort\<close> and the kinds of undefined behaviour the
    code can run into are values, and so is the end of the fuel of a loop that may not end.
    The build files set no build type and never define \<open>NDEBUG\<close>, so assertions are active.
  \<^item> \<open>std::vector\<close>: \<open>vec_get\<close>, \<open>vec_set\<close> (indexing, undefined behaviour past the end made
    explicit) and \<open>vec_resize\<close>; \<open>std::bit_ceil\<close>; the decrement of a \<open>size_t\<close>.
  \<^item> Strings: \<open>std::views::split\<close> and its inverse.
\<close>

section \<open>Outcomes of an operation\<close>

text \<open>
  \<open>std::error_code\<close>: the code of the program builds error codes in one category only
  (\<open>bc_category\<close>), so the value determines the object.
\<close>

datatype error_code = Error_code (ec_value: int)

datatype fault =
    Thrown error_code  \<comment> \<open>an exception of type std::error_code\<close>
  | Assert_failed      \<comment> \<open>assert(...) failed: abort\<close>
  | Terminated         \<comment> \<open>std::terminate\<close>
  | Aborted            \<comment> \<open>abort()\<close>
  | Out_of_range       \<comment> \<open>element access past the end of a container: undefined behaviour\<close>
  | Dangling           \<comment> \<open>use of an iterator invalidated by a reallocation: undefined behaviour\<close>
  | Out_of_fuel        \<comment> \<open>the model's loop bound was reached\<close>

type_synonym 'a result = "fault + 'a"

text \<open>Sequencing: the second operation runs only when the first one returned.\<close>

fun res_bind :: "'a result \<Rightarrow> ('a \<Rightarrow> 'b result) \<Rightarrow> 'b result" where
  "res_bind (Inl f) k = Inl f"
| "res_bind (Inr x) k = k x"

lemma res_bind_eq_Inr [simp]: "res_bind m k = Inr y \<longleftrightarrow> (\<exists>x. m = Inr x \<and> k x = Inr y)"
  by (cases m) auto

lemma res_bind_eq_Inl: "res_bind m k = Inl f \<longleftrightarrow> m = Inl f \<or> (\<exists>x. m = Inr x \<and> k x = Inl f)"
  by (cases m) auto

lemma case_Inr_iff: "(case m of Inr x \<Rightarrow> P x | Inl f \<Rightarrow> False) \<longleftrightarrow> (\<exists>x. m = Inr x \<and> P x)"
  by (cases m) auto

lemma res_bind_cong [fundef_cong]:
  "m = m' \<Longrightarrow> (\<And>x. m' = Inr x \<Longrightarrow> k x = k' x) \<Longrightarrow> res_bind m k = res_bind m' k'"
  by (cases m') auto

lemma res_bind_assoc: "res_bind (res_bind m f) g = res_bind m (\<lambda>x. res_bind (f x) g)"
  by (cases m) auto

section \<open>Vectors\<close>

definition vec_get :: "'a list \<Rightarrow> nat \<Rightarrow> 'a result" where
  "vec_get xs i = (if i < length xs then Inr (xs ! i) else Inl Out_of_range)"

definition vec_set :: "'a list \<Rightarrow> nat \<Rightarrow> 'a \<Rightarrow> 'a list result" where
  "vec_set xs i x = (if i < length xs then Inr (xs[i := x]) else Inl Out_of_range)"

definition vec_resize :: "nat \<Rightarrow> 'a \<Rightarrow> 'a list \<Rightarrow> 'a list" where
  "vec_resize n x xs = take n xs @ replicate (n - length xs) x"

lemma vec_get_Inr [simp]: "vec_get xs i = Inr x \<longleftrightarrow> i < length xs \<and> x = xs ! i"
  by (auto simp: vec_get_def)

lemma vec_get_Inl [simp]: "vec_get xs i = Inl f \<longleftrightarrow> length xs \<le> i \<and> f = Out_of_range"
  by (auto simp: vec_get_def)

lemma vec_get_in_range: "i < length xs \<Longrightarrow> vec_get xs i = Inr (xs ! i)"
  by simp

lemma vec_set_Inr [simp]: "vec_set xs i x = Inr ys \<longleftrightarrow> i < length xs \<and> ys = xs[i := x]"
  by (auto simp: vec_set_def)

lemma vec_set_in_range: "i < length xs \<Longrightarrow> vec_set xs i x = Inr (xs[i := x])"
  by simp

lemma length_vec_resize [simp]: "length (vec_resize n x xs) = n"
  by (simp add: vec_resize_def)

lemma nth_vec_resize:
  "i < n \<Longrightarrow> vec_resize n x xs ! i = (if i < length xs then xs ! i else x)"
  by (auto simp: vec_resize_def nth_append)

text \<open>\<open>std::bit_ceil\<close>: the smallest power of two that is not smaller than the argument.\<close>

definition bit_ceil :: "nat \<Rightarrow> nat" where
  "bit_ceil n = 2 ^ ceillog2 n"

definition power_of_two :: "nat \<Rightarrow> bool" where
  "power_of_two n \<longleftrightarrow> bit_ceil n = n"

lemma bit_ceil_ge: "n \<le> bit_ceil n"
  by (simp add: bit_ceil_def le_two_power_ceillog2)

lemma bit_ceil_least: "n \<le> 2 ^ k \<Longrightarrow> bit_ceil n \<le> 2 ^ k"
  by (cases "n = 0") (simp_all add: bit_ceil_def ceillog2_le_iff)

lemma bit_ceil_pos [simp]: "0 < bit_ceil n"
  by (simp add: bit_ceil_def)

lemma power_of_two_iff: "power_of_two n \<longleftrightarrow> (\<exists>k. n = 2 ^ k)"
  by (metis bit_ceil_def ceillog2_2_power power_of_two_def)

lemma power_of_two_bit_ceil [simp]: "power_of_two (bit_ceil n)"
  by (auto simp: power_of_two_iff bit_ceil_def)

lemma power_of_two_pos: "power_of_two n \<Longrightarrow> 0 < n"
  by (metis bit_ceil_pos power_of_two_def)

lemma bit_ceil_le_power_of_two: "power_of_two m \<Longrightarrow> n \<le> m \<Longrightarrow> bit_ceil n \<le> m"
  by (auto simp: power_of_two_iff intro: bit_ceil_least)

lemma bit_ceil_gt: "\<not> power_of_two n \<Longrightarrow> n < bit_ceil n"
  using bit_ceil_ge [of n] by (simp add: power_of_two_def)

text \<open>\<open>--n\<close> on a \<open>std::size_t\<close>: 0 wraps around to the largest value.\<close>

definition size_dec :: "nat \<Rightarrow> nat" where
  "size_dec n = (if n = 0 then 2 ^ 64 - 1 else n - 1)"

lemma size_dec_Suc [simp]: "size_dec (Suc n) = n"
  by (simp add: size_dec_def)

section \<open>Strings\<close>

text \<open>
  \<open>std::views::split\<close> of a range on one delimiter character. The view of an empty range has no
  element; any other range has one more element than it has delimiters.
\<close>

fun split_on :: "char \<Rightarrow> string \<Rightarrow> string list" where
  "split_on d [] = [[]]"
| "split_on d (c # cs) =
     (if c = d then [] # split_on d cs
      else case split_on d cs of [] \<Rightarrow> [[c]] | g # gs \<Rightarrow> (c # g) # gs)"

definition views_split :: "char \<Rightarrow> string \<Rightarrow> string list" where
  "views_split d s = (if s = [] then [] else split_on d s)"

text \<open>The inverse: segments with the delimiter between them.\<close>

fun join :: "char \<Rightarrow> string list \<Rightarrow> string" where
  "join d [] = []"
| "join d [g] = g"
| "join d (g # h # gs) = g @ d # join d (h # gs)"

lemma split_on_nonempty [simp]: "split_on d s \<noteq> []"
  by (induction s) (auto split: list.splits)

lemma join_Cons_Cons: "join d ((c # g) # gs) = c # join d (g # gs)"
  by (cases gs) auto

lemma join_split_on [simp]: "join d (split_on d s) = s"
proof (induction s)
  case (Cons c s)
  show ?case
  proof (cases "split_on d s")
    case (Cons g gs)
    then show ?thesis
      using Cons.IH by (auto simp: join_Cons_Cons)
  qed simp
qed simp

lemma split_on_no_delim: "g \<in> set (split_on d s) \<Longrightarrow> d \<notin> set g"
  by (induction s arbitrary: g) (auto split: if_splits list.splits)

lemma split_on_no_occurrence: "d \<notin> set g \<Longrightarrow> split_on d g = [g]"
  by (induction g) auto

lemma split_on_append: "d \<notin> set g \<Longrightarrow> split_on d (g @ d # s) = g # split_on d s"
  by (induction g) auto

lemma split_on_join:
  "gs \<noteq> [] \<Longrightarrow> \<forall>g \<in> set gs. d \<notin> set g \<Longrightarrow> split_on d (join d gs) = gs"
  by (induction d gs rule: join.induct) (auto simp: split_on_no_occurrence split_on_append)

lemma split_on_join_append:
  "gs \<noteq> [] \<Longrightarrow> \<forall>g \<in> set gs. d \<notin> set g \<Longrightarrow> split_on d (join d gs @ d # s) = gs @ split_on d s"
  by (induction d gs rule: join.induct) (auto simp: split_on_append)

lemma join_eq_Nil_iff: "join d gs = [] \<longleftrightarrow> gs = [] \<or> gs = [[]]"
  by (induction d gs rule: join.induct) auto

lemma delim_in_join: "2 \<le> length gs \<Longrightarrow> d \<in> set (join d gs)"
  by (cases "(d, gs)" rule: join.cases) auto

lemma hd_join: "gs \<noteq> [] \<Longrightarrow> hd gs \<noteq> [] \<Longrightarrow> hd (join d gs) = hd (hd gs)"
  by (induction d gs rule: join.induct) auto

lemma last_join: "gs \<noteq> [] \<Longrightarrow> last gs \<noteq> [] \<Longrightarrow> last (join d gs) = last (last gs)"
  by (induction d gs rule: join.induct) (auto simp: join_eq_Nil_iff)

lemma set_join: "set (join d gs) \<subseteq> insert d (\<Union> (set ` set gs))"
  by (induction d gs rule: join.induct) auto

lemma set_split_on: "g \<in> set (split_on d s) \<Longrightarrow> set g \<subseteq> set s"
  by (induction s arbitrary: g) (fastforce split: if_splits list.splits)+


end
