(* ===== verification/BC_Errors.thy ===== *)
theory BC_Errors
  imports BC_Prelude
begin

text \<open>
  \<open>include/bc/utils/error.hpp\<close>: the enumeration \<open>errc\<close> with the numeric values of the Linux
  errno constants it names, the error category with its \<open>message\<close> switch, and
  \<open>trans_error_code\<close>, through which every component turns an \<open>errno\<close> into an error.
\<close>

section \<open>The error codes\<close>

datatype errc =
    operation_not_permitted
  | no_such_file_or_directory
  | interrupted
  | io_error
  | bad_file_descriptor
  | not_enough_memory
  | permission_denied
  | bad_address
  | file_exists
  | not_a_directory
  | invalid_argument
  | too_many_files_open
  | file_too_large
  | no_space_on_device
  | read_only_file_system
  | broken_pipe
  | name_too_long
  | too_many_symbolic_link_levels
  | not_a_socket
  | destination_address_required
  | no_protocol_option
  | operation_not_supported
  | address_in_use
  | address_not_available
  | quota_exceeded
  | epoll_error
  | closed_by_peer
  | invalid_address

primrec errc_value :: "errc \<Rightarrow> int" where
  "errc_value operation_not_permitted = 1"
| "errc_value no_such_file_or_directory = 2"
| "errc_value interrupted = 4"
| "errc_value io_error = 5"
| "errc_value bad_file_descriptor = 9"
| "errc_value not_enough_memory = 12"
| "errc_value permission_denied = 13"
| "errc_value bad_address = 14"
| "errc_value file_exists = 17"
| "errc_value not_a_directory = 20"
| "errc_value invalid_argument = 22"
| "errc_value too_many_files_open = 24"
| "errc_value file_too_large = 27"
| "errc_value no_space_on_device = 28"
| "errc_value read_only_file_system = 30"
| "errc_value broken_pipe = 32"
| "errc_value name_too_long = 36"
| "errc_value too_many_symbolic_link_levels = 40"
| "errc_value not_a_socket = 88"
| "errc_value destination_address_required = 89"
| "errc_value no_protocol_option = 92"
| "errc_value operation_not_supported = 95"
| "errc_value address_in_use = 98"
| "errc_value address_not_available = 99"
| "errc_value quota_exceeded = 122"
| "errc_value epoll_error = 200"
| "errc_value closed_by_peer = 201"
| "errc_value invalid_address = 202"

section \<open>The error category\<close>

definition category_name :: string where
  "category_name = ''bc''"

text \<open>The cases of the switch in \<open>message\<close>, in the order of the source.\<close>

definition message_cases :: "(errc \<times> string) list" where
  "message_cases =
    [(operation_not_permitted, ''operation not permitted''),
     (no_such_file_or_directory, ''no such file or directory''),
     (interrupted, ''interrupted system call''),
     (io_error, ''input/output error''),
     (bad_file_descriptor, ''bad file descriptor''),
     (not_enough_memory, ''cannot allocate memory''),
     (permission_denied, ''permission denied''),
     (bad_address, ''bad address''),
     (file_exists, ''file exists''),
     (not_a_directory, ''not a directory''),
     (invalid_argument, ''invalid argument''),
     (too_many_files_open, ''too many open files''),
     (file_too_large, ''file too large''),
     (no_space_on_device, ''no space left on device''),
     (read_only_file_system, ''read-only file system''),
     (broken_pipe, ''broken pipe''),
     (name_too_long, ''name too long''),
     (too_many_symbolic_link_levels, ''too many levels of symbolic links''),
     (not_a_socket, ''socket operation on non-socket''),
     (destination_address_required, ''destination address required''),
     (no_protocol_option, ''protocol not available''),
     (operation_not_supported, ''operation not supported''),
     (address_in_use, ''address already in use''),
     (address_not_available, ''cannot assign requested address''),
     (quota_exceeded, ''quota exceeded''),
     (epoll_error, ''epoll error''),
     (closed_by_peer, ''closed by peer''),
     (invalid_address, ''invalid address'')]"

text \<open>The switch itself: the first case whose label equals the condition, \<open>abort()\<close> otherwise.\<close>

fun switch_on :: "int \<Rightarrow> (errc \<times> string) list \<Rightarrow> string result" where
  "switch_on condition [] = Inl Aborted"
| "switch_on condition ((label, text) # cases) =
     (if errc_value label = condition then Inr text else switch_on condition cases)"

definition message :: "int \<Rightarrow> string result" where
  "message condition = switch_on condition message_cases"

definition trans_error_code :: "int \<Rightarrow> error_code" where
  "trans_error_code error = Error_code error"

definition error_code_message :: "error_code \<Rightarrow> string result" where
  "error_code_message ec = message (ec_value ec)"

lemma ec_value_trans_error_code [simp]: "ec_value (trans_error_code e) = e"
  by (simp add: trans_error_code_def)

lemma message_cases_complete: "fst ` set message_cases = UNIV"
proof -
  note labels = message_cases_def [THEN arg_cong [where f = "map fst"], simplified]
  have "e \<in> set (map fst message_cases)" for e
    unfolding labels by (cases e) simp_all
  then show ?thesis unfolding set_map by blast
qed

lemma message_cases_distinct:
  "distinct (map snd message_cases)" "distinct (map fst message_cases)"
  "distinct (map (errc_value \<circ> fst) message_cases)"
  by (simp_all add: message_cases_def)

lemma errc_value_inject [simp]: "errc_value a = errc_value b \<longleftrightarrow> a = b"
proof
  assume eq: "errc_value a = errc_value b"
  have "a \<in> fst ` set message_cases" "b \<in> fst ` set message_cases"
    by (simp_all add: message_cases_complete)
  then obtain x y where "x \<in> set message_cases" "y \<in> set message_cases" "a = fst x" "b = fst y"
    by auto
  with eq message_cases_distinct(3) show "a = b"
    by (metis comp_apply distinct_map inj_onD)
qed simp

lemma switch_on_map_of:
  "switch_on (errc_value e) cs = (case map_of cs e of None \<Rightarrow> Inl Aborted | Some m \<Rightarrow> Inr m)"
  by (induction cs) auto

lemma switch_on_Aborted: "switch_on c cs = Inl f \<longleftrightarrow> f = Aborted \<and> c \<notin> errc_value ` fst ` set cs"
  by (induction cs) (auto split: if_splits)

lemma message_case: "(e, m) \<in> set message_cases \<Longrightarrow> message (errc_value e) = Inr m"
  using message_cases_distinct(2)
  by (simp add: message_def switch_on_map_of)

section \<open>Properties\<close>

text \<open>
  Which codes have a message: the switch covers the whole enumeration, so every enumerator
  has one, two enumerators never share one, and any other value, for instance an errno the
  enumeration does not list, ends in \<open>abort()\<close>.
\<close>

theorem message_total_on_errc:
  "(\<exists>m. message (errc_value e) = Inr m)
   \<and> (message (errc_value a) = message (errc_value b) \<longleftrightarrow> a = b)
   \<and> (message c = Inl f \<longleftrightarrow> f = Aborted \<and> c \<notin> range errc_value)"
proof -
  have has: "\<exists>m. (x, m) \<in> set message_cases \<and> message (errc_value x) = Inr m" for x
  proof -
    have "x \<in> fst ` set message_cases" by (simp add: message_cases_complete)
    then obtain m where "(x, m) \<in> set message_cases" by auto
    then show ?thesis using message_case by blast
  qed
  have inj: "a = b" if "message (errc_value a) = message (errc_value b)"
  proof -
    obtain m n where "(a, m) \<in> set message_cases" "(b, n) \<in> set message_cases"
      "message (errc_value a) = Inr m" "message (errc_value b) = Inr n"
      using has by metis
    with that have "inj_on snd (set message_cases)" "(a, m) \<in> set message_cases"
      "(b, m) \<in> set message_cases"
      using message_cases_distinct(1) by (simp_all add: distinct_map)
    then show ?thesis by (metis inj_onD prod.inject snd_conv)
  qed
  from has inj show ?thesis
    by (auto simp: message_def switch_on_Aborted message_cases_complete)
qed

text \<open>
  The error path of a connection reset by its peer ends the process: \<open>ECONNRESET\<close> is errno 104
  on Linux, \<open>read\<close> and \<open>write\<close> pass any errno on through \<open>trans_error_code\<close>, and asking that
  error for its message, as every session loop does, aborts. The same holds of \<open>ECONNREFUSED\<close>
  (111), \<open>ETIMEDOUT\<close> (110), \<open>ENFILE\<close> (23) and \<open>ENOTCONN\<close> (107).
\<close>

theorem unlisted_errno_message_aborts:
  "map (\<lambda>e. error_code_message (trans_error_code e)) [23, 104, 107, 110, 111] =
     [Inl Aborted, Inl Aborted, Inl Aborted, Inl Aborted, Inl Aborted]"
  by (simp add: error_code_message_def message_def message_cases_def)

end
