(* ===== verification/BC_Expected.thy ===== *)
theory BC_Expected
  imports BC_Errors
begin

text \<open>
  \<open>include/bc/utils/detail/detail.hpp\<close>, \<open>overload.hpp\<close> and \<open>expected.hpp\<close>.

  \<open>select\<close> picks the first callable of a list that accepts an argument; \<open>overload\<close> calls it.
  \<open>expected\<close> is a variant of a value and an error whose state query \<open>has_value\<close> goes through
  \<open>overload\<close>, so it is only right when an error does not convert to a value type: the model
  keeps that conversion as an argument and the lemmas say exactly what depends on it.
  The overloads of one member function for the four value categories (\<open>&\<close>, \<open>const &\<close>,
  \<open>&&\<close>, \<open>const &&\<close>) have one body and are one definition here.
\<close>

section \<open>Overload selection\<close>

text \<open>
  \<open>detail::select<T, F, Fs...>()\<close>: the index of the first callable that accepts a \<open>T\<close>, given
  for each callable whether the requirement \<open>f(v)\<close> holds; the number of callables when there is none.
  The source has no clause for an empty pack; its value here is never used.
\<close>

fun select :: "bool list \<Rightarrow> nat" where
  "select [] = 0"
| "select (accepts # Fs) =
     (if accepts then 0
      else if length Fs > 0 then 1 + select Fs
      else 1)"

text \<open>
  \<open>overload::operator()\<close>: a callable is a pair of the test whether it accepts the argument
  and its body. With no match the code executes \<open>throw;\<close> with no exception in flight, which
  is \<open>std::terminate\<close>.
\<close>

definition overload_call :: "(('v \<Rightarrow> bool) \<times> ('v \<Rightarrow> 'r)) list \<Rightarrow> 'v \<Rightarrow> 'r result" where
  "overload_call fs value =
     (let i = select (map (\<lambda>f. fst f value) fs)
      in if i < length fs then Inr (snd (fs ! i) value) else Inl Terminated)"

lemma select_le: "select bs \<le> length bs"
  by (induction bs) auto

lemma select_None: "\<forall>b \<in> set bs. \<not> b \<Longrightarrow> select bs = length bs"
  by (induction bs) auto

lemma select_first: "\<forall>b \<in> set bs. \<not> b \<Longrightarrow> select (bs @ True # cs) = length bs"
  by (induction bs) auto

lemma overload_call_Nil [simp]: "overload_call [] v = Inl Terminated"
  by (simp add: overload_call_def)

lemma overload_call_Cons [simp]:
  "overload_call ((acc, f) # fs) v = (if acc v then Inr (f v) else overload_call fs v)"
  by (cases fs) (auto simp: overload_call_def Let_def)

section \<open>expected\<close>

text \<open>\<open>std::variant<T, E>\<close>: alternative 0 is the value, alternative 1 the error.\<close>

datatype ('t, 'e) expected = Value 't | Error 'e

text \<open>Construction and assignment.\<close>

definition expected_default :: "'t \<Rightarrow> ('t, 'e) expected" where
  "expected_default default_T = Value default_T"

definition expected_of_value :: "'t \<Rightarrow> ('t, 'e) expected" where
  "expected_of_value v = Value v"

definition expected_of_error :: "'e \<Rightarrow> ('t, 'e) expected" where
  "expected_of_error e = Error e"

datatype 'e unexpected = Unexpected (unexpected_error: 'e)

definition expected_of_unexpected :: "'e unexpected \<Rightarrow> ('t, 'e) expected" where
  "expected_of_unexpected u = Error (unexpected_error u)"

text \<open>In place; \<open>make\<close> is the constructor of the value or of the error. And moving, which leaves what their moves leave.\<close>

definition expected_in_place :: "('a \<Rightarrow> 't) \<Rightarrow> 'a \<Rightarrow> ('t, 'e) expected" where
  "expected_in_place make args = Value (make args)"

definition expected_unexpect :: "('a \<Rightarrow> 'e) \<Rightarrow> 'a \<Rightarrow> ('t, 'e) expected" where
  "expected_unexpect make args = Error (make args)"

definition expected_move ::
    "('t \<Rightarrow> 't) \<Rightarrow> ('e \<Rightarrow> 'e) \<Rightarrow> ('t, 'e) expected \<Rightarrow> ('t, 'e) expected \<times> ('t, 'e) expected" where
  "expected_move left_T left_E other =
     (other, case other of Value v \<Rightarrow> Value (left_T v) | Error e \<Rightarrow> Error (left_E e))"

definition expected_assign_value :: "'t \<Rightarrow> ('t, 'e) expected \<Rightarrow> ('t, 'e) expected" where
  "expected_assign_value v x = Value v"

definition expected_assign_error :: "'e \<Rightarrow> ('t, 'e) expected \<Rightarrow> ('t, 'e) expected" where
  "expected_assign_error e x = Error e"

text \<open>
  \<open>has_value\<close> visits the variant with two lambdas, one taking a \<open>T const &\<close> and one taking an
  \<open>E const &\<close>. \<open>e_to_t\<close> says whether an \<open>E\<close> converts implicitly to \<open>T\<close>, \<open>t_to_e\<close> the other way.
  A \<open>select\<close> with no match cannot happen: the alternatives' own types are always accepted.
\<close>

definition accepts_T :: "bool \<Rightarrow> ('t, 'e) expected \<Rightarrow> bool" where
  "accepts_T e_to_t x = (case x of Value _ \<Rightarrow> True | Error _ \<Rightarrow> e_to_t)"

definition accepts_E :: "bool \<Rightarrow> ('t, 'e) expected \<Rightarrow> bool" where
  "accepts_E t_to_e x = (case x of Value _ \<Rightarrow> t_to_e | Error _ \<Rightarrow> True)"

definition has_value_visit :: "bool \<Rightarrow> bool \<Rightarrow> ('t, 'e) expected \<Rightarrow> bool result" where
  "has_value_visit e_to_t t_to_e x =
     overload_call [(accepts_T e_to_t, \<lambda>_. True), (accepts_E t_to_e, \<lambda>_. False)] x"

text \<open>
  For the instances of the program (\<open>T\<close> is \<open>address\<close>, \<open>socket\<close> or \<open>std::size_t\<close>, \<open>E\<close> is
  \<open>std::error_code\<close>, whose conversion to \<open>bool\<close> is explicit) there is no conversion.
\<close>

definition has_value :: "('t, 'e) expected \<Rightarrow> bool" where
  "has_value x = (case has_value_visit False False x of Inr b \<Rightarrow> b | Inl _ \<Rightarrow> False)"

text \<open>
  Access: \<open>operator *\<close>, \<open>value\<close> and \<open>error\<close> assert the state they need. \<open>std::get\<close> on the other
  alternative (an exception, in a \<open>noexcept\<close> operator) is never reached behind the assertion.
\<close>

definition get_T :: "('t, 'e) expected \<Rightarrow> 't result" where
  "get_T x = (case x of Value v \<Rightarrow> Inr v | Error _ \<Rightarrow> Inl Terminated)"

definition get_E :: "('t, 'e) expected \<Rightarrow> 'e result" where
  "get_E x = (case x of Value _ \<Rightarrow> Inl Terminated | Error e \<Rightarrow> Inr e)"

definition expected_deref :: "('t, 'e) expected \<Rightarrow> 't result" where
  "expected_deref x = (if has_value x then get_T x else Inl Assert_failed)"

definition expected_value :: "('t, 'e) expected \<Rightarrow> 't result" where
  "expected_value x = (if has_value x then get_T x else Inl Assert_failed)"

definition expected_error :: "('t, 'e) expected \<Rightarrow> 'e result" where
  "expected_error x = (if \<not> has_value x then get_E x else Inl Assert_failed)"

definition value_or :: "('t, 'e) expected \<Rightarrow> 't \<Rightarrow> 't result" where
  "value_or x v = (if has_value x then expected_deref x else Inr v)"

text \<open>\<open>and_then\<close>: \<open>f\<close> on the value, or the error rewrapped as \<open>U(unexpect, error())\<close>.\<close>

definition and_then ::
    "('t, 'e) expected \<Rightarrow> ('t \<Rightarrow> ('u, 'e) expected result) \<Rightarrow> ('u, 'e) expected result" where
  "and_then x f =
     (if has_value x then res_bind (expected_deref x) f
      else res_bind (expected_error x) (\<lambda>e. Inr (Error e)))"

lemmas expected_access_defs =
  get_T_def get_E_def expected_deref_def expected_value_def expected_error_def value_or_def

lemma has_value_visit_simps [simp]:
  "has_value_visit e_to_t t_to_e (Value v) = Inr True"
  "has_value_visit e_to_t t_to_e (Error e) = Inr e_to_t"
  by (simp_all add: has_value_visit_def accepts_T_def accepts_E_def)

lemma has_value_simps [simp]:
  "has_value (Value v)"
  "\<not> has_value (Error e)"
  by (simp_all add: has_value_def)

lemma expected_access_simps [simp]:
  "expected_deref (Value v) = Inr v" "expected_deref (Error e) = Inl Assert_failed"
  "expected_value (Value v) = Inr v" "expected_value (Error e) = Inl Assert_failed"
  "expected_error (Value v) = Inl Assert_failed" "expected_error (Error e) = Inr e"
  "value_or (Value v) u = Inr v" "value_or (Error e) u = Inr u"
  by (simp_all add: expected_access_defs)

lemma and_then_simps [simp]:
  "and_then (Value v) f = f v"
  "and_then (Error e) f = Inr (Error e)"
  by (simp_all add: and_then_def)

section \<open>The error-or-value contract\<close>

text \<open>
  What the rest of the program relies on when it returns an \<open>expected\<close>: a query, two accessors
  that are defined on complementary states, and a sequencing operation that behaves as a monad
  and stops at the first error.
\<close>

locale fallible =
  fixes succ :: "'t \<Rightarrow> 'x" and err :: "'e \<Rightarrow> 'x"
    and ok :: "'x \<Rightarrow> bool"
    and getv :: "'x \<Rightarrow> 't result" and gete :: "'x \<Rightarrow> 'e result"
  assumes exhaust: "(\<exists>v. x = succ v) \<or> (\<exists>e. x = err e)"
    and ok_succ: "ok (succ v)" and ok_err: "\<not> ok (err e)"
    and getv_succ: "getv (succ v) = Inr v" and gete_err: "gete (err e) = Inr e"
    and getv_err: "getv (err e) = Inl Assert_failed" and gete_succ: "gete (succ v) = Inl Assert_failed"
begin

lemma succ_inject: "succ v = succ w \<longleftrightarrow> v = w"
  by (metis getv_succ sum.inject(2))

lemma succ_neq_err: "succ v \<noteq> err e"
  by (metis ok_err ok_succ)

lemma ok_iff: "ok x \<longleftrightarrow> (\<exists>v. x = succ v)"
  using exhaust [of x] ok_succ ok_err by auto

lemma exactly_one_accessor:
  "(\<exists>v. getv x = Inr v) \<noteq> (\<exists>e. gete x = Inr e)"
  using exhaust [of x] by (auto simp: getv_succ gete_succ getv_err gete_err)

lemma guarded_value: "ok x \<Longrightarrow> \<exists>v. getv x = Inr v \<and> x = succ v"
  by (auto simp: ok_iff getv_succ)

lemma guarded_error: "\<not> ok x \<Longrightarrow> \<exists>e. gete x = Inr e \<and> x = err e"
  using exhaust [of x] by (auto simp: gete_err ok_succ)

end

interpretation exp: fallible Value Error has_value expected_value expected_error
proof
  show "(\<exists>v. x = Value v) \<or> (\<exists>e. x = Error e)" for x :: "('t, 'e) expected"
    by (cases x) auto
qed simp_all

text \<open>
  Every object answers the state query, exactly one of the two accessors returns, and it is
  the one the query announces; \<open>value_or\<close> never fails; \<open>and_then\<close> is the error monad (unit
  laws, associativity), so a chain stops at its first error and reports it.
\<close>

lemma expected_contract:
  fixes x :: "('t, 'e) expected"
  shows "(has_value x \<longleftrightarrow> (\<exists>v. expected_value x = Inr v)) \<and>
    (has_value x \<longleftrightarrow> expected_error x = Inl Assert_failed) \<and>
    (\<exists>v. value_or x d = Inr v) \<and>
    and_then (expected_of_value a) f = f a \<and>
    and_then x (\<lambda>v. Inr (expected_of_value v)) = Inr x \<and>
    res_bind (and_then x f) (\<lambda>y. and_then y g) = and_then x (\<lambda>v. res_bind (f v) (\<lambda>y. and_then y g))"
  by (cases x) (simp_all add: expected_of_value_def)

text \<open>
  The state query is exact if and only if errors do not convert to values: it is a test of
  conversions and not of the variant's index. With a convertible error type every error
  counts as a value.
\<close>

theorem has_value_depends_on_conversion:
  "(\<forall>x :: ('t, 'e) expected. has_value_visit e_to_t t_to_e x = Inr (has_value x)) \<longleftrightarrow> \<not> e_to_t"
proof
  assume all: "\<forall>x :: ('t, 'e) expected. has_value_visit e_to_t t_to_e x = Inr (has_value x)"
  show "\<not> e_to_t" using spec [OF all, of "Error undefined"] by simp
next
  assume "\<not> e_to_t"
  then have "has_value_visit e_to_t t_to_e x = Inr (has_value x)" for x :: "('t, 'e) expected"
    by (cases x) simp_all
  then show "\<forall>x :: ('t, 'e) expected. has_value_visit e_to_t t_to_e x = Inr (has_value x)"
    by blast
qed

end
