(* ===== verification/BC_Address.thy ===== *)
theory BC_Address
  imports BC_Expected "HOL-Library.Char_ord" "HOL-Library.Sublist"
begin

text \<open>
  \<open>include/bc/network/address.hpp\<close>: parsing of dotted-quad IPv4 and hexadecimal IPv6 host names
  into socket addresses (\<open>parse_ipv4\<close>, \<open>parse_ipv6\<close>, \<open>address::from\<close>), the accessors of
  \<open>address\<close> and its printing (\<open>expr\<close>).

  The code reads and writes integers through byte pointers and byte-order functions, so the
  byte order of the host is an argument \<open>en\<close> of the definitions. The decimal and hexadecimal
  conversions of the formatting library are the argument \<open>lib\<close>; what they are documented to
  return is the hypothesis \<open>fmt_ok\<close>. \<open>std::from_chars\<close> and \<open>std::views::split\<close> are modelled.
\<close>

section \<open>Numbers in text: std::from_chars\<close>

definition digit_value :: "nat \<Rightarrow> char \<Rightarrow> nat option" where
  "digit_value base c =
     (let n = of_char c;
          v = (if 48 \<le> n \<and> n \<le> 57 then n - 48
               else if 97 \<le> n \<and> n \<le> 122 then n - 87
               else if 65 \<le> n \<and> n \<le> 90 then n - 55
               else base)
      in if v < base then Some v else None)"

text \<open>The longest prefix of digits, as digit values.\<close>

fun leading_digits :: "nat \<Rightarrow> string \<Rightarrow> nat list" where
  "leading_digits base [] = []"
| "leading_digits base (c # cs) =
     (case digit_value base c of None \<Rightarrow> [] | Some v \<Rightarrow> v # leading_digits base cs)"

definition digits_value :: "nat \<Rightarrow> nat list \<Rightarrow> nat" where
  "digits_value base ds = foldl (\<lambda>a d. a * base + d) 0 ds"

text \<open>
  \<open>None\<close> is an error code (no digit: \<open>invalid_argument\<close>; too large for the target type, which
  holds the values below \<open>limit\<close>: \<open>result_out_of_range\<close>); the target is then left unchanged.
\<close>

definition from_chars :: "nat \<Rightarrow> nat \<Rightarrow> string \<Rightarrow> nat option" where
  "from_chars base limit s =
     (let ds = leading_digits base s; v = digits_value base ds
      in if ds = [] then None else if v < limit then Some v else None)"

section \<open>Bytes in memory\<close>

datatype endian = Little | Big

fun le_bytes :: "nat \<Rightarrow> nat \<Rightarrow> 8 word list" where
  "le_bytes 0 n = []"
| "le_bytes (Suc k) n = of_nat n # le_bytes k (n div 256)"

fun le_value :: "8 word list \<Rightarrow> nat" where
  "le_value [] = 0"
| "le_value (b # bs) = unat b + 256 * le_value bs"

text \<open>The bytes of an integer of \<open>k\<close> bytes at increasing addresses, and the integer they hold.\<close>

definition mem_bytes :: "endian \<Rightarrow> nat \<Rightarrow> nat \<Rightarrow> 8 word list" where
  "mem_bytes en k n = (case en of Little \<Rightarrow> le_bytes k n | Big \<Rightarrow> rev (le_bytes k n))"

definition mem_value :: "endian \<Rightarrow> 8 word list \<Rightarrow> nat" where
  "mem_value en bs = (case en of Little \<Rightarrow> le_value bs | Big \<Rightarrow> le_value (rev bs))"

text \<open>\<open>htonl\<close>, \<open>htons\<close>: the value whose bytes in memory are the argument's, most significant first.\<close>

definition htonl :: "endian \<Rightarrow> 32 word \<Rightarrow> 32 word" where
  "htonl en n = of_nat (mem_value en (mem_bytes Big 4 (unat n)))"

definition htons :: "endian \<Rightarrow> 16 word \<Rightarrow> 16 word" where
  "htons en n = of_nat (mem_value en (mem_bytes Big 2 (unat n)))"

definition ntohs :: "endian \<Rightarrow> 16 word \<Rightarrow> 16 word" where
  "ntohs en n = of_nat (mem_value Big (mem_bytes en 2 (unat n)))"

section \<open>parse_ipv4\<close>

definition is_ipv4_char :: "char \<Rightarrow> bool" where
  "is_ipv4_char c \<longleftrightarrow> CHR ''0'' \<le> c \<and> c \<le> CHR ''9'' \<or> c = CHR ''.''"

text \<open>
  The loop over the segments. \<open>parts\<close> are the bytes of \<open>addr\<close>; \<open>i = 4\<close> returns before the
  write, so \<open>3 - i\<close> never underflows.
\<close>

fun ipv4_segments :: "string list \<Rightarrow> nat \<Rightarrow> 8 word list \<Rightarrow> (nat \<times> 8 word list) option" where
  "ipv4_segments [] i parts = Some (i, parts)"
| "ipv4_segments (segment # segments) i parts =
     (if i = 4 then None
      else case from_chars 10 256 segment of
             None \<Rightarrow> None
           | Some v \<Rightarrow> ipv4_segments segments (i + 1) (parts[3 - i := of_nat v]))"

definition parse_ipv4 :: "endian \<Rightarrow> string \<Rightarrow> 32 word option" where
  "parse_ipv4 en hostname =
     (if \<not> list_all is_ipv4_char hostname then None
      else case ipv4_segments (views_split (CHR ''.'') hostname) 0 (mem_bytes en 4 0) of
             None \<Rightarrow> None
           | Some (i, parts) \<Rightarrow>
               if i \<noteq> 4 then None else Some (of_nat (mem_value en parts)))"

section \<open>parse_ipv6\<close>

definition is_ipv6_char :: "char \<Rightarrow> bool" where
  "is_ipv6_char c \<longleftrightarrow>
     CHR ''0'' \<le> c \<and> c \<le> CHR ''9'' \<or> CHR ''a'' \<le> c \<and> c \<le> CHR ''f'' \<or>
     CHR ''A'' \<le> c \<and> c \<le> CHR ''F'' \<or> c = CHR '':''"

text \<open>
  The first loop fills \<open>addr\<close> from the front (\<open>k\<close> is \<open>addr_it - addr.begin()\<close>) until it is full,
  the segments are used up, or an empty segment says that a tail follows. The result is
  \<open>has_tail\<close>, the segments left, \<open>k\<close> and \<open>addr\<close>.
\<close>

fun ipv6_head ::
    "string list \<Rightarrow> nat \<Rightarrow> 16 word list \<Rightarrow> (bool \<times> string list \<times> nat \<times> 16 word list) option" where
  "ipv6_head [] k addr = Some (False, [], k, addr)"
| "ipv6_head (segment # segments) k addr =
     (if k = 8 then Some (False, segment # segments, k, addr)
      else if segment = [] then Some (True, segments, k, addr)
      else if length segment > 4 then None
      else case from_chars 16 65536 segment of
             None \<Rightarrow> None
           | Some v \<Rightarrow> ipv6_head segments (k + 1) (addr[k := of_nat v]))"

text \<open>The second loop fills \<open>tail\<close> (\<open>t\<close> is \<open>tail_it - tail.begin()\<close>).\<close>

fun ipv6_tail :: "string list \<Rightarrow> nat \<Rightarrow> 16 word list \<Rightarrow> (nat \<times> 16 word list) option" where
  "ipv6_tail [] t tail = Some (t, tail)"
| "ipv6_tail (segment # segments) t tail =
     (if t = 8 then Some (t, tail)
      else if segment = [] then None
      else if length segment > 4 then None
      else case from_chars 16 65536 segment of
             None \<Rightarrow> None
           | Some v \<Rightarrow> ipv6_tail segments (t + 1) (tail[t := of_nat v]))"

text \<open>\<open>std::copy(first, last, out)\<close> into an array, for a range that fits.\<close>

definition copy_at :: "nat \<Rightarrow> 'a list \<Rightarrow> 'a list \<Rightarrow> 'a list" where
  "copy_at p xs ys = take p ys @ xs @ drop (p + length xs) ys"

definition ipv6_strip :: "string \<Rightarrow> string" where
  "ipv6_strip hostname =
     (if prefix ''::'' hostname then drop 1 hostname
      else if suffix ''::'' hostname then take (length hostname - 1) hostname
      else hostname)"

definition parse_ipv6 :: "endian \<Rightarrow> string \<Rightarrow> 16 word list option" where
  "parse_ipv6 en hostname =
     (if \<not> list_all is_ipv6_char hostname then None
      else case ipv6_head (views_split (CHR '':'') (ipv6_strip hostname)) 0 (replicate 8 0) of
             None \<Rightarrow> None
           | Some (has_tail, segments, k, addr) \<Rightarrow>
               if has_tail then
                 (case ipv6_tail segments 0 (replicate 8 0) of
                    None \<Rightarrow> None
                  | Some (t, tail) \<Rightarrow>
                      let visible_count = k + t in
                      if visible_count \<ge> 8 then None
                      else Some (map (htons en)
                             (copy_at (k + (8 - visible_count)) (take t tail) addr)))
               else Some (map (htons en) addr))"

section \<open>address\<close>

datatype ip_domain = IPv4 | IPv6

text \<open>\<open>AF_INET\<close> and \<open>AF_INET6\<close> on Linux.\<close>

primrec domain_value :: "ip_domain \<Rightarrow> nat" where
  "domain_value IPv4 = 2"
| "domain_value IPv6 = 10"

record sockaddr_in =
  sin_family :: nat
  sin_port :: "16 word"
  s_addr :: "32 word"

record sockaddr_in6 =
  sin6_family :: nat
  sin6_port :: "16 word"
  s6_addr16 :: "16 word list"

datatype address = V4 sockaddr_in | V6 sockaddr_in6

definition address_from :: "endian \<Rightarrow> string \<Rightarrow> 16 word \<Rightarrow> (address, error_code) expected" where
  "address_from en hostname port =
     (case parse_ipv4 en hostname of
        Some ipv4 \<Rightarrow>
          Value (V4 \<lparr>sin_family = domain_value IPv4, sin_port = htons en port, s_addr = htonl en ipv4\<rparr>)
      | None \<Rightarrow>
          (case parse_ipv6 en hostname of
             Some ipv6 \<Rightarrow>
               Value (V6 \<lparr>sin6_family = domain_value IPv6, sin6_port = htons en port, s6_addr16 = ipv6\<rparr>)
           | None \<Rightarrow> Error (trans_error_code (errc_value invalid_address))))"

text \<open>The constructor \<open>address(hostname, port)\<close> dereferences the result.\<close>

definition address_ctor :: "endian \<Rightarrow> string \<Rightarrow> 16 word \<Rightarrow> address result" where
  "address_ctor en hostname port = expected_deref (address_from en hostname port)"

text \<open>From a socket address.\<close>

definition address_of_in :: "sockaddr_in \<Rightarrow> address" where
  "address_of_in addr = V4 addr"

definition address_of_in6 :: "sockaddr_in6 \<Rightarrow> address" where
  "address_of_in6 addr = V6 addr"

primrec socklen :: "address \<Rightarrow> nat" where
  "socklen (V4 _) = 16"
| "socklen (V6 _) = 28"

primrec address_domain :: "address \<Rightarrow> ip_domain" where
  "address_domain (V4 _) = IPv4"
| "address_domain (V6 _) = IPv6"

text \<open>Printing. \<open>fmt_d\<close> and \<open>fmt_x\<close> are the library's conversions \<open>{}\<close> and \<open>{:x}\<close> of an integer.\<close>

record fmt_lib =
  fmt_d :: "nat \<Rightarrow> string"
  fmt_x :: "nat \<Rightarrow> string"

primrec address_expr :: "fmt_lib \<Rightarrow> endian \<Rightarrow> address \<Rightarrow> string" where
  "address_expr lib en (V4 sa) =
     (let numbers = mem_bytes en 4 (unat (s_addr sa))
      in fmt_d lib (unat (numbers ! 0)) @ ''.'' @ fmt_d lib (unat (numbers ! 1)) @ ''.'' @
         fmt_d lib (unat (numbers ! 2)) @ ''.'' @ fmt_d lib (unat (numbers ! 3)) @ '':'' @
         fmt_d lib (unat (ntohs en (sin_port sa))))"
| "address_expr lib en (V6 sa) =
     (let numbers = map (ntohs en) (s6_addr16 sa)
      in ''['' @ fmt_x lib (unat (numbers ! 0)) @ '':'' @ fmt_x lib (unat (numbers ! 1)) @ '':'' @
         fmt_x lib (unat (numbers ! 2)) @ '':'' @ fmt_x lib (unat (numbers ! 3)) @ '':'' @
         fmt_x lib (unat (numbers ! 4)) @ '':'' @ fmt_x lib (unat (numbers ! 5)) @ '':'' @
         fmt_x lib (unat (numbers ! 6)) @ '':'' @ fmt_x lib (unat (numbers ! 7)) @ '']:'' @
         fmt_d lib (unat (ntohs en (sin6_port sa))))"

section \<open>Lemmas on numbers in text\<close>

definition is_digit :: "nat \<Rightarrow> char \<Rightarrow> bool" where
  "is_digit base c \<longleftrightarrow> digit_value base c \<noteq> None"

definition all_digits :: "nat \<Rightarrow> string \<Rightarrow> bool" where
  "all_digits base s \<longleftrightarrow> list_all (is_digit base) s"

definition text_value :: "nat \<Rightarrow> string \<Rightarrow> nat" where
  "text_value base s = digits_value base (leading_digits base s)"

lemma all_digits_simps [simp]:
  "all_digits base []"
  "all_digits base (c # s) \<longleftrightarrow> is_digit base c \<and> all_digits base s"
  "all_digits base (s @ t) \<longleftrightarrow> all_digits base s \<and> all_digits base t"
  by (simp_all add: all_digits_def)

lemma length_leading_digits: "all_digits base s \<Longrightarrow> length (leading_digits base s) = length s"
  by (induction s) (auto simp: is_digit_def)

lemma leading_digits_append:
  "all_digits base s \<Longrightarrow> leading_digits base (s @ t) = leading_digits base s @ leading_digits base t"
  by (induction s) (auto simp: is_digit_def)

lemma leading_digits_bound: "d \<in> set (leading_digits base s) \<Longrightarrow> d < base"
  by (induction s arbitrary: d)
    (auto simp: digit_value_def Let_def split: option.splits if_splits)

lemma digits_value_Nil [simp]: "digits_value base [] = 0"
  by (simp add: digits_value_def)

lemma digits_value_snoc [simp]: "digits_value base (ds @ [d]) = digits_value base ds * base + d"
  by (simp add: digits_value_def)

lemma digits_value_bound: "\<forall>d \<in> set ds. d < base \<Longrightarrow> digits_value base ds < base ^ length ds"
proof (induction ds rule: rev_induct)
  case (snoc d ds)
  then have "digits_value base ds + 1 \<le> base ^ length ds" "d < base" by auto
  then have "(digits_value base ds + 1) * base \<le> base ^ length ds * base" by (rule_tac mult_right_mono) auto
  with \<open>d < base\<close> show ?case by (simp add: algebra_simps)
qed simp

lemma text_value_bound: "all_digits base s \<Longrightarrow> text_value base s < base ^ length s"
  using digits_value_bound [of "leading_digits base s" base] leading_digits_bound
  by (auto simp: text_value_def length_leading_digits)

lemma from_chars_digits:
  "all_digits base s \<Longrightarrow>
   from_chars base limit s = (if s = [] then None
     else if text_value base s < limit then Some (text_value base s) else None)"
  using length_leading_digits [of base s]
  by (auto simp: from_chars_def text_value_def Let_def)

lemma is_digit_10: "is_digit 10 c \<longleftrightarrow> CHR ''0'' \<le> c \<and> c \<le> CHR ''9''"
  by (auto simp: is_digit_def digit_value_def less_eq_char_def Let_def)

lemma is_digit_16:
  "is_digit 16 c \<longleftrightarrow>
   CHR ''0'' \<le> c \<and> c \<le> CHR ''9'' \<or> CHR ''a'' \<le> c \<and> c \<le> CHR ''f'' \<or>
   CHR ''A'' \<le> c \<and> c \<le> CHR ''F''"
  by (auto simp: is_digit_def digit_value_def less_eq_char_def Let_def)

lemma is_ipv4_char_iff: "is_ipv4_char c \<longleftrightarrow> is_digit 10 c \<or> c = CHR ''.''"
  by (simp add: is_ipv4_char_def is_digit_10)

lemma is_ipv6_char_iff: "is_ipv6_char c \<longleftrightarrow> is_digit 16 c \<or> c = CHR '':''"
  by (auto simp: is_ipv6_char_def is_digit_16)

lemma is_digit_delims [simp]:
  "\<not> is_digit 10 CHR ''.''" "\<not> is_digit 10 CHR '':''" "\<not> is_digit 16 CHR '':''"
  by (simp_all add: is_digit_def digit_value_def)

lemma all_digits_no_delim:
  "all_digits base s \<Longrightarrow> \<not> is_digit base d \<Longrightarrow> d \<notin> set s"
  by (induction s) auto

section \<open>Lemmas on bytes\<close>

lemma length_le_bytes [simp]: "length (le_bytes k n) = k"
  by (induction k arbitrary: n) auto

lemma length_mem_bytes [simp]: "length (mem_bytes en k n) = k"
  by (cases en) (simp_all add: mem_bytes_def)

lemma le_bytes_numeral [simp]:
  "le_bytes (numeral k) n = of_nat n # le_bytes (pred_numeral k) (n div 256)"
  by (simp only: numeral_eq_Suc [of k] le_bytes.simps)

lemma le_value_le_bytes [simp]: "le_value (le_bytes k n) = n mod 256 ^ k"
proof (induction k arbitrary: n)
  case (Suc k)
  have "n mod 256 + 256 * (n div 256 mod 256 ^ k) = n mod 256 ^ Suc k"
    using mod_mult2_eq [of n 256 "256 ^ k"] by (simp add: mult.commute)
  with Suc show ?case by (simp add: unat_of_nat)
qed simp

lemma le_value_bound: "le_value bs < 256 ^ length bs"
proof (induction bs)
  case (Cons b bs)
  have "unat b < 256" using unsigned_less [of b] by simp
  moreover have "256 * (le_value bs + 1) \<le> 256 * 256 ^ length bs"
    using Cons by (intro mult_left_mono) auto
  ultimately show ?case by simp
qed simp

lemma le_bytes_le_value [simp]: "le_bytes (length bs) (le_value bs) = bs"
proof (induction bs)
  case (Cons b bs)
  have "unat b < 256" using unsigned_less [of b] by simp
  then have "(unat b + 256 * le_value bs) div 256 = le_value bs" by simp
  moreover have "of_nat (unat b + 256 * le_value bs) = b"
  proof (rule unsigned_word_eqI)
    have "(unat b + 256 * le_value bs) mod 2 ^ LENGTH(8) = unat b"
      using \<open>unat b < 256\<close> by simp
    then show "unat (of_nat (unat b + 256 * le_value bs) :: 8 word) = unat b"
      by (simp only: unat_of_nat)
  qed
  ultimately show ?case using Cons by simp
qed simp

lemma mem_value_mem_bytes [simp]: "mem_value en (mem_bytes en k n) = n mod 256 ^ k"
  by (cases en) (simp_all add: mem_value_def mem_bytes_def)

lemma mem_bytes_mem_value: "length bs = k \<Longrightarrow> mem_bytes en k (mem_value en bs) = bs"
proof (cases en)
  case Big
  assume "length bs = k"
  then have "le_bytes k (le_value (rev bs)) = rev bs" using le_bytes_le_value [of "rev bs"] by simp
  with Big show ?thesis by (simp add: mem_value_def mem_bytes_def)
qed (auto simp: mem_value_def mem_bytes_def)

lemma mem_value_bound: "mem_value en bs < 256 ^ length bs"
  using le_value_bound [of bs] le_value_bound [of "rev bs"] by (cases en) (simp_all add: mem_value_def)

text \<open>What the byte-order functions do, seen from memory.\<close>

lemma bytes_htonl: "mem_bytes en 4 (unat (htonl en w)) = mem_bytes Big 4 (unat w)"
  using mem_value_bound [of en "mem_bytes Big 4 (unat w)"]
  by (simp add: htonl_def unat_of_nat mem_bytes_mem_value)

lemma bytes_htons: "mem_bytes en 2 (unat (htons en w)) = mem_bytes Big 2 (unat w)"
  using mem_value_bound [of en "mem_bytes Big 2 (unat w)"]
  by (simp add: htons_def unat_of_nat mem_bytes_mem_value)

lemma ntohs_htons [simp]: "ntohs en (htons en w) = w"
proof -
  have "unat w < 256 ^ 2" using unsigned_less [of w] by simp
  then show ?thesis by (simp add: ntohs_def bytes_htons)
qed

section \<open>The printed form of a number\<close>

text \<open>
  A canonical numeral: digits only, no leading zero, the right value. This is what the
  formatting library documents for \<open>{}\<close> and \<open>{:x}\<close> on an unsigned integer.
\<close>

definition canonical_numeral :: "nat \<Rightarrow> nat \<Rightarrow> string \<Rightarrow> bool" where
  "canonical_numeral base n s \<longleftrightarrow>
     s \<noteq> [] \<and> all_digits base s \<and> text_value base s = n \<and>
     (length s > 1 \<longrightarrow> digit_value base (hd s) \<noteq> Some 0)"

lemma digits_value_Cons: "digits_value base (d # ds) = d * base ^ length ds + digits_value base ds"
proof (induction ds rule: rev_induct)
  case (snoc x ds)
  then show ?case
    using digits_value_snoc [of base "d # ds" x] by (simp add: algebra_simps)
qed (simp add: digits_value_def)

lemma text_value_Cons:
  "is_digit base c \<Longrightarrow> all_digits base s \<Longrightarrow>
   text_value base (c # s) = the (digit_value base c) * base ^ length s + text_value base s"
  by (auto simp: text_value_def is_digit_def digits_value_Cons length_leading_digits)

lemma canonical_numeral_length:
  assumes "canonical_numeral base n s" "2 \<le> base" "n < base ^ k" "0 < k"
  shows "length s \<le> k"
proof (cases "length s > 1")
  case True
  then obtain c t where s: "s = c # t" by (cases s) auto
  with assms True have d: "is_digit base c" "all_digits base t" "digit_value base c \<noteq> Some 0"
    and n: "n = the (digit_value base c) * base ^ length t + text_value base t"
    using text_value_Cons [of base c t] by (auto simp: canonical_numeral_def)
  from d have "1 \<le> the (digit_value base c)" by (cases "digit_value base c") (auto simp: is_digit_def)
  then have "1 * base ^ length t \<le> the (digit_value base c) * base ^ length t"
    by (rule mult_right_mono) simp
  with n assms(3) have "base ^ length t < base ^ k" by linarith
  with assms(2) have "length t < k" by (simp add: power_less_imp_less_exp)
  with s show ?thesis by simp
qed (use assms in auto)

text \<open>The interface of a number printer, and what a reader of \<open>from_chars\<close> gets back from it.\<close>

locale numeral_printer =
  fixes base :: nat and print :: "nat \<Rightarrow> string"
  assumes base_ge: "2 \<le> base" and canonical: "canonical_numeral base n (print n)"
begin

lemma print_digits: "all_digits base (print n)" "print n \<noteq> []" "text_value base (print n) = n"
  using canonical [of n] by (auto simp: canonical_numeral_def)

lemma print_length: "n < base ^ k \<Longrightarrow> 0 < k \<Longrightarrow> length (print n) \<le> k"
  using canonical_numeral_length [OF canonical base_ge] by blast

lemma read_back: "n < limit \<Longrightarrow> from_chars base limit (print n) = Some n"
  by (simp add: from_chars_digits print_digits)

lemma print_no_delim: "\<not> is_digit base d \<Longrightarrow> d \<notin> set (print n)"
  using all_digits_no_delim print_digits(1) by blast

end

text \<open>A reference printer: the digits of the positional representation.\<close>

definition digit_char :: "nat \<Rightarrow> char" where
  "digit_char d = (if d < 10 then char_of (48 + d) else char_of (87 + d))"

fun print_base :: "nat \<Rightarrow> nat \<Rightarrow> string" where
  "print_base base n =
     (if base < 2 \<or> n < base then [digit_char n]
      else print_base base (n div base) @ [digit_char (n mod base)])"

declare print_base.simps [simp del]

lemma digit_value_digit_char: "d < base \<Longrightarrow> base \<le> 36 \<Longrightarrow> digit_value base (digit_char d) = Some d"
  by (simp add: digit_value_def digit_char_def Let_def)

lemma text_value_snoc:
  "all_digits base s \<Longrightarrow> digit_value base c = Some d \<Longrightarrow>
   text_value base (s @ [c]) = text_value base s * base + d"
  by (simp add: text_value_def leading_digits_append)

lemma canonical_print_base:
  "2 \<le> base \<Longrightarrow> base \<le> 36 \<Longrightarrow> canonical_numeral base n (print_base base n)
    \<and> (0 < n \<longrightarrow> digit_value base (hd (print_base base n)) \<noteq> Some 0)"
proof (induction base n rule: print_base.induct)
  case (1 base n)
  show ?case
  proof (cases "n < base")
    case True
    with 1 show ?thesis
      by (subst (1 2) print_base.simps)
        (simp add: canonical_numeral_def digit_value_digit_char text_value_def digits_value_def is_digit_def)
  next
    case False
    with 1 have pos: "0 < n div base" by (simp add: div_greater_zero_iff)
    have small: "n mod base < base" using 1 by simp
    from 1 False pos have IH: "canonical_numeral base (n div base) (print_base base (n div base))"
      "digit_value base (hd (print_base base (n div base))) \<noteq> Some 0" by auto
    have step: "print_base base n = print_base base (n div base) @ [digit_char (n mod base)]"
      using False 1 by (subst print_base.simps) simp
    from IH small 1 show ?thesis
      by (auto simp: canonical_numeral_def step text_value_snoc digit_value_digit_char is_digit_def)
  qed
qed

interpretation dec: numeral_printer 10 "print_base 10"
  by unfold_locales (simp_all add: canonical_print_base)

interpretation hex: numeral_printer 16 "print_base 16"
  by unfold_locales (simp_all add: canonical_print_base)

text \<open>What the code relies on in the formatting library.\<close>

definition fmt_ok :: "fmt_lib \<Rightarrow> bool" where
  "fmt_ok lib \<longleftrightarrow> numeral_printer 10 (fmt_d lib) \<and> numeral_printer 16 (fmt_x lib)"

definition reference_fmt :: fmt_lib where
  "reference_fmt = \<lparr>fmt_d = print_base 10, fmt_x = print_base 16\<rparr>"

lemma fmt_ok_reference: "fmt_ok reference_fmt"
  by (simp add: fmt_ok_def reference_fmt_def dec.numeral_printer_axioms hex.numeral_printer_axioms)

section \<open>IPv4 host names\<close>

text \<open>The reference grammar: four decimal numbers below 256, leading zeros allowed.\<close>

definition octet_text :: "string \<Rightarrow> bool" where
  "octet_text s \<longleftrightarrow> s \<noteq> [] \<and> all_digits 10 s \<and> text_value 10 s < 256"

lemma from_chars_octet:
  "all_digits 10 s \<Longrightarrow> from_chars 10 256 s = (if octet_text s then Some (text_value 10 s) else None)"
  by (auto simp: from_chars_digits octet_text_def)

lemma ipv4_segments_count:
  "ipv4_segments segs i parts = Some (j, p) \<Longrightarrow> i \<le> 4 \<Longrightarrow> j = i + length segs \<and> j \<le> 4"
  by (induction segs i parts rule: ipv4_segments.induct) (auto split: if_splits option.splits)

lemma ipv4_segments_four:
  "\<forall>s \<in> set segs. all_digits 10 s \<Longrightarrow> length parts = 4 \<Longrightarrow>
   ipv4_segments segs 0 parts = Some (4, p) \<longleftrightarrow>
     (\<exists>a b c d. segs = [a, b, c, d] \<and> list_all octet_text segs \<and>
        p = map (\<lambda>s. of_nat (text_value 10 s)) [d, c, b, a])"
proof
  assume digits: "\<forall>s \<in> set segs. all_digits 10 s" and len: "length parts = 4"
    and run: "ipv4_segments segs 0 parts = Some (4, p)"
  from run have "length segs = 4" using ipv4_segments_count by fastforce
  then obtain a b c d where segs: "segs = [a, b, c, d]"
    by (auto simp: length_Suc_conv eval_nat_numeral)
  obtain w x y z where parts: "parts = [w, x, y, z]"
    using len by (auto simp: length_Suc_conv eval_nat_numeral)
  from run digits show "\<exists>a b c d. segs = [a, b, c, d] \<and> list_all octet_text segs \<and>
        p = map (\<lambda>s. of_nat (text_value 10 s)) [d, c, b, a]"
    by (auto simp: segs parts from_chars_octet split: if_splits)
next
  assume digits: "\<forall>s \<in> set segs. all_digits 10 s" and len: "length parts = 4"
    and "\<exists>a b c d. segs = [a, b, c, d] \<and> list_all octet_text segs \<and>
        p = map (\<lambda>s. of_nat (text_value 10 s)) [d, c, b, a]"
  moreover obtain w x y z where "parts = [w, x, y, z]"
    using len by (auto simp: length_Suc_conv eval_nat_numeral)
  ultimately show "ipv4_segments segs 0 parts = Some (4, p)"
    by (auto simp: from_chars_octet)
qed

lemma ipv4_segments_not_four:
  "ipv4_segments segs 0 parts = Some (i, p) \<Longrightarrow> length segs \<noteq> 4 \<Longrightarrow> i \<noteq> 4"
  using ipv4_segments_count by fastforce

lemma ipv4_chars_segments:
  "list_all is_ipv4_char h \<Longrightarrow> s \<in> set (views_split CHR ''.'' h) \<Longrightarrow> all_digits 10 s"
  using set_split_on [of s "CHR ''.''" h] split_on_no_delim [of s "CHR ''.''" h]
  by (auto simp: views_split_def all_digits_def list_all_iff is_ipv4_char_iff split: if_splits)

text \<open>The bytes of the parsed number, for either byte order: the last segment comes first.\<close>

lemma parse_ipv4_bytes:
  "parse_ipv4 en h = Some w \<longleftrightarrow>
   (\<exists>a b c d. list_all octet_text [a, b, c, d] \<and> h = join CHR ''.'' [a, b, c, d] \<and>
      w = of_nat (mem_value en (map (\<lambda>s. of_nat (text_value 10 s)) [d, c, b, a])))"
  (is "?parse \<longleftrightarrow> ?spec")
proof
  assume ?parse
  then obtain p where chars: "list_all is_ipv4_char h"
    and run: "ipv4_segments (views_split CHR ''.'' h) 0 (mem_bytes en 4 0) = Some (4, p)"
    and w: "w = of_nat (mem_value en p)"
    by (auto simp: parse_ipv4_def split: if_splits option.splits)
  have h: "views_split CHR ''.'' h = split_on CHR ''.'' h"
    using run by (auto simp: views_split_def split: if_splits)
  from run chars obtain a b c d where "split_on CHR ''.'' h = [a, b, c, d]"
    "list_all octet_text [a, b, c, d]" "p = map (\<lambda>s. of_nat (text_value 10 s)) [d, c, b, a]"
    using ipv4_segments_four [of "views_split CHR ''.'' h" "mem_bytes en 4 0" p] ipv4_chars_segments
    by (auto simp: h)
  moreover from this have "h = join CHR ''.'' [a, b, c, d]"
    using join_split_on [of "CHR ''.''" h] by simp
  ultimately show ?spec using w by blast
next
  assume ?spec
  then obtain a b c d where octets: "list_all octet_text [a, b, c, d]"
    and h: "h = join CHR ''.'' [a, b, c, d]"
    and w: "w = of_nat (mem_value en (map (\<lambda>s. of_nat (text_value 10 s)) [d, c, b, a]))"
    by blast
  then have digits: "\<forall>s \<in> set [a, b, c, d]. all_digits 10 s" by (auto simp: octet_text_def)
  then have "\<forall>s \<in> set [a, b, c, d]. CHR ''.'' \<notin> set s"
    using all_digits_no_delim [of 10 _ "CHR ''.''"] by auto
  then have split: "views_split CHR ''.'' h = [a, b, c, d]"
    using split_on_join [of "[a, b, c, d]" "CHR ''.''"] by (simp add: h views_split_def)
  have "list_all is_ipv4_char h"
    using digits by (auto simp: h list_all_iff is_ipv4_char_iff all_digits_def)
  moreover have "ipv4_segments (views_split CHR ''.'' h) 0 (mem_bytes en 4 0)
      = Some (4, map (\<lambda>s. of_nat (text_value 10 s)) [d, c, b, a])"
    using ipv4_segments_four [of "[a, b, c, d]" "mem_bytes en 4 0"] digits octets
    by (simp add: split)
  ultimately show ?parse by (simp add: parse_ipv4_def w)
qed

section \<open>IPv6 host names\<close>

definition group_text :: "string \<Rightarrow> bool" where
  "group_text s \<longleftrightarrow> s \<noteq> [] \<and> all_digits 16 s \<and> length s \<le> 4"

definition group_value :: "string \<Rightarrow> 16 word" where
  "group_value s = of_nat (text_value 16 s)"

lemma from_chars_group:
  assumes "group_text s"
  shows "from_chars 16 65536 s = Some (text_value 16 s)"
proof -
  from assms have "text_value 16 s < 16 ^ length s"
    using text_value_bound by (simp add: group_text_def)
  also have "16 ^ length s \<le> (16 :: nat) ^ 4"
    using assms by (intro power_increasing) (simp_all add: group_text_def)
  finally show ?thesis using assms by (simp add: group_text_def from_chars_digits)
qed

lemma copy_at_Cons:
  "k < length ys \<Longrightarrow> copy_at k (v # vs) ys = copy_at (Suc k) vs (ys[k := v])"
  by (simp add: copy_at_def take_Suc_conv_app_nth)

lemma copy_at_Nil [simp]: "copy_at k [] ys = ys"
  by (simp add: copy_at_def)

lemma ipv6_head_groups:
  "list_all group_text gs \<Longrightarrow> k + length gs \<le> 8 \<Longrightarrow> length addr = 8 \<Longrightarrow>
   ipv6_head (gs @ rest) k addr =
     ipv6_head rest (k + length gs) (copy_at k (map group_value gs) addr)"
proof (induction gs arbitrary: k addr)
  case (Cons g gs)
  then show ?case
    by (simp add: from_chars_group copy_at_Cons group_value_def)
      (simp add: group_text_def)
qed simp

lemma ipv6_tail_groups:
  "list_all group_text gs \<Longrightarrow> t + length gs \<le> 8 \<Longrightarrow> length tail = 8 \<Longrightarrow>
   ipv6_tail (gs @ rest) t tail =
     ipv6_tail rest (t + length gs) (copy_at t (map group_value gs) tail)"
proof (induction gs arbitrary: t tail)
  case (Cons g gs)
  then show ?case
    by (simp add: from_chars_group copy_at_Cons group_value_def)
      (simp add: group_text_def)
qed simp

lemma ipv6_head_inv:
  "ipv6_head segs k addr = Some (has_tail, rest, k', addr') \<Longrightarrow> k \<le> 8 \<Longrightarrow>
   \<forall>s \<in> set segs. all_digits 16 s \<Longrightarrow>
   \<exists>gs. list_all group_text gs \<and> k' = k + length gs \<and> k' \<le> 8 \<and>
     (if has_tail then segs = gs @ [] # rest \<and> k' < 8
      else segs = gs @ rest \<and> (rest = [] \<or> k' = 8))"
proof (induction segs k addr rule: ipv6_head.induct)
  case (2 segment segments k addr)
  show ?case
  proof (cases "k = 8 \<or> segment = []")
    case True
    with 2 show ?thesis by (auto intro!: exI [of _ "[]"] split: if_splits)
  next
    case False
    with 2 obtain v where v: "length segment \<le> 4" "from_chars 16 65536 segment = Some v"
      by (auto split: if_splits option.splits)
    with 2 False obtain gs where gs: "list_all group_text gs" "k' = k + 1 + length gs" "k' \<le> 8"
      "if has_tail then segments = gs @ [] # rest \<and> k' < 8
       else segments = gs @ rest \<and> (rest = [] \<or> k' = 8)"
      by auto
    from False v 2 have "group_text segment" by (auto simp: group_text_def)
    with gs show ?thesis by (intro exI [of _ "segment # gs"]) (auto split: if_splits)
  qed
qed auto

lemma ipv6_tail_inv:
  "ipv6_tail segs t tail = Some (t', tail') \<Longrightarrow> t \<le> 8 \<Longrightarrow> \<forall>s \<in> set segs. all_digits 16 s \<Longrightarrow>
   \<exists>gs rest. list_all group_text gs \<and> t' = t + length gs \<and> t' \<le> 8 \<and> segs = gs @ rest \<and>
     (rest = [] \<or> t' = 8)"
proof (induction segs t tail rule: ipv6_tail.induct)
  case (2 segment segments t tail)
  show ?case
  proof (cases "t = 8")
    case True
    with 2 show ?thesis by (auto intro!: exI [of _ "[]"])
  next
    case False
    with 2 obtain v where v: "segment \<noteq> []" "length segment \<le> 4" "from_chars 16 65536 segment = Some v"
      by (auto split: if_splits option.splits)
    with 2 False obtain gs rest where gs: "list_all group_text gs" "t' = t + 1 + length gs" "t' \<le> 8"
      "segments = gs @ rest" "rest = [] \<or> t' = 8"
      by auto
    from v 2 have "group_text segment" by (auto simp: group_text_def)
    with gs show ?thesis by (intro exI [of _ "segment # gs"] exI [of _ rest]) auto
  qed
qed auto

text \<open>The eight numbers: the head, zeros, the tail.\<close>

definition ipv6_fill :: "string list \<Rightarrow> string list \<Rightarrow> 16 word list" where
  "ipv6_fill xs ys =
     map group_value xs @ replicate (8 - (length xs + length ys)) 0 @ map group_value ys"

lemma copy_at_head:
  "length xs \<le> 8 \<Longrightarrow> copy_at 0 (map group_value xs) (replicate 8 0) = ipv6_fill xs []"
  by (simp add: copy_at_def ipv6_fill_def)

lemma copy_at_tail:
  "length xs + length ys \<le> 8 \<Longrightarrow>
   copy_at (8 - length ys) (map group_value ys) (ipv6_fill xs []) = ipv6_fill xs ys"
  by (simp add: copy_at_def ipv6_fill_def)

lemma length_ipv6_fill: "length xs + length ys \<le> 8 \<Longrightarrow> length (ipv6_fill xs ys) = 8"
  by (simp add: ipv6_fill_def)

text \<open>The result in terms of the segments.\<close>

definition ipv6_segments_to :: "string list \<Rightarrow> 16 word list \<Rightarrow> bool" where
  "ipv6_segments_to segs ns \<longleftrightarrow>
     (\<exists>xs. list_all group_text xs \<and> length xs \<le> 8 \<and>
        ((\<exists>rest. segs = xs @ rest \<and> (rest = [] \<or> length xs = 8) \<and> ns = ipv6_fill xs []) \<or>
         (\<exists>ys. segs = xs @ [] # ys \<and> list_all group_text ys \<and> length xs + length ys \<le> 7 \<and>
               ns = ipv6_fill xs ys)))"

lemma ipv6_chars_segments:
  "list_all is_ipv6_char h \<Longrightarrow> s \<in> set (views_split CHR '':'' (ipv6_strip h)) \<Longrightarrow> all_digits 16 s"
proof -
  assume chars: "list_all is_ipv6_char h" and s: "s \<in> set (views_split CHR '':'' (ipv6_strip h))"
  have "set (ipv6_strip h) \<subseteq> set h"
    by (auto simp: ipv6_strip_def dest: in_set_dropD in_set_takeD)
  with chars s set_split_on [of s "CHR '':''" "ipv6_strip h"]
    split_on_no_delim [of s "CHR '':''" "ipv6_strip h"]
  show ?thesis
    by (auto simp: views_split_def all_digits_def list_all_iff is_ipv6_char_iff split: if_splits)
qed

lemma parse_ipv6_segments:
  assumes chars: "list_all is_ipv6_char h"
  shows "parse_ipv6 en h = Some r \<longleftrightarrow>
    (\<exists>ns. ipv6_segments_to (views_split CHR '':'' (ipv6_strip h)) ns \<and> r = map (htons en) ns)"
    (is "?parse \<longleftrightarrow> ?spec")
proof
  let ?segs = "views_split CHR '':'' (ipv6_strip h)"
  assume ?parse
  then obtain has_tail segs k addr where
    run: "ipv6_head ?segs 0 (replicate 8 0) = Some (has_tail, segs, k, addr)"
    by (auto simp: parse_ipv6_def chars split: option.splits)
  have digits: "\<forall>s \<in> set ?segs. all_digits 16 s" using ipv6_chars_segments [OF chars] by blast
  from ipv6_head_inv [OF run _ digits] obtain xs where xs: "list_all group_text xs" "k = length xs"
    "k \<le> 8" and tail: "if has_tail then ?segs = xs @ [] # segs \<and> k < 8
      else ?segs = xs @ segs \<and> (segs = [] \<or> k = 8)"
    by auto
  have addr: "addr = ipv6_fill xs []"
  proof (cases has_tail)
    case True
    with tail have segs: "?segs = xs @ [] # segs" and "length xs < 8" using xs by auto
    have "ipv6_head (xs @ [] # segs) 0 (replicate 8 0)
        = ipv6_head ([] # segs) (length xs) (copy_at 0 (map group_value xs) (replicate 8 0))"
      using xs by (simp add: ipv6_head_groups)
    with run segs \<open>length xs < 8\<close> show ?thesis using copy_at_head [of xs] by simp
  next
    case False
    with tail have segs: "?segs = xs @ segs" and last: "segs = [] \<or> k = 8" by auto
    have "ipv6_head (xs @ segs) 0 (replicate 8 0)
        = ipv6_head segs (length xs) (copy_at 0 (map group_value xs) (replicate 8 0))"
      using xs by (simp add: ipv6_head_groups)
    with run segs last xs show ?thesis using copy_at_head [of xs] by (cases segs) auto
  qed
  show ?spec
  proof (cases has_tail)
    case False
    with \<open>?parse\<close> run have "r = map (htons en) addr" by (simp add: parse_ipv6_def chars)
    with False xs tail addr show ?thesis unfolding ipv6_segments_to_def by auto
  next
    case True
    with \<open>?parse\<close> run obtain t tl where t: "ipv6_tail segs 0 (replicate 8 0) = Some (t, tl)"
      "k + t < 8" and r: "r = map (htons en) (copy_at (k + (8 - (k + t))) (take t tl) addr)"
      by (auto simp: parse_ipv6_def chars Let_def split: option.splits if_splits)
    from True tail digits have "\<forall>s \<in> set segs. all_digits 16 s" by auto
    from ipv6_tail_inv [OF t(1) _ this] obtain ys rest where ys: "list_all group_text ys"
      "t = length ys" "segs = ys @ rest" "rest = [] \<or> t = 8" by auto
    with t have rest: "rest = []" by auto
    have "ipv6_tail (ys @ []) 0 (replicate 8 0) = Some (t, copy_at 0 (map group_value ys) (replicate 8 0))"
      using ys t by (subst ipv6_tail_groups) simp_all
    with t ys rest have "tl = ipv6_fill ys []" using copy_at_head [of ys] by simp
    then have "take t tl = map group_value ys" using ys by (simp add: ipv6_fill_def)
    moreover have "k + (8 - (k + t)) = 8 - length ys" using t ys by simp
    ultimately have "r = map (htons en) (ipv6_fill xs ys)"
      using r addr xs ys t copy_at_tail [of xs ys] by simp
    moreover have "ipv6_segments_to ?segs (ipv6_fill xs ys)"
      unfolding ipv6_segments_to_def using True tail xs ys rest t
      by (intro exI [of _ xs] conjI disjI2 exI [of _ ys]) auto
    ultimately show ?thesis by blast
  qed
next
  let ?segs = "views_split CHR '':'' (ipv6_strip h)"
  assume ?spec
  then obtain ns xs where r: "r = map (htons en) ns" and xs: "list_all group_text xs" "length xs \<le> 8"
    and cases: "(\<exists>rest. ?segs = xs @ rest \<and> (rest = [] \<or> length xs = 8) \<and> ns = ipv6_fill xs []) \<or>
      (\<exists>ys. ?segs = xs @ [] # ys \<and> list_all group_text ys \<and> length xs + length ys \<le> 7 \<and>
        ns = ipv6_fill xs ys)"
    unfolding ipv6_segments_to_def by blast
  have head: "ipv6_head (xs @ rest) 0 (replicate 8 0) = ipv6_head rest (length xs) (ipv6_fill xs [])" for rest
    using xs copy_at_head [of xs] by (simp add: ipv6_head_groups)
  from cases show ?parse
  proof (elim disjE exE conjE)
    fix rest
    assume segs: "?segs = xs @ rest" and rest: "rest = []" and ns: "ns = ipv6_fill xs []"
    then show ?thesis using head [of rest] by (simp add: parse_ipv6_def chars r)
  next
    fix rest
    assume segs: "?segs = xs @ rest" and full: "length xs = 8" and ns: "ns = ipv6_fill xs []"
    then show ?thesis using head [of rest] by (cases rest) (simp_all add: parse_ipv6_def chars r)
  next
    fix ys
    assume segs: "?segs = xs @ [] # ys" and ys: "list_all group_text ys" "length xs + length ys \<le> 7"
      and ns: "ns = ipv6_fill xs ys"
    have "ipv6_tail (ys @ []) 0 (replicate 8 0) = Some (length ys, ipv6_fill ys [])"
      using ys copy_at_head [of ys] by (subst ipv6_tail_groups) simp_all
    moreover have "take (length ys) (ipv6_fill ys []) = map group_value ys"
      by (simp add: ipv6_fill_def)
    moreover have "length xs + (8 - (length xs + length ys)) = 8 - length ys" using ys by simp
    ultimately show ?thesis
      using segs ys ns head [of "[] # ys"] copy_at_tail [of xs ys]
      by (simp add: parse_ipv6_def chars r Let_def)
  qed
qed

lemma parse_ipv6_bad_char: "\<not> list_all is_ipv6_char h \<Longrightarrow> parse_ipv6 en h = None"
  by (simp add: parse_ipv6_def)

text \<open>Host names built from groups.\<close>

lemma group_text_nonempty: "group_text s \<Longrightarrow> s \<noteq> []"
  by (simp add: group_text_def)

lemma group_text_no_colon: "list_all group_text gs \<Longrightarrow> \<forall>s \<in> set gs. CHR '':'' \<notin> set s"
  using all_digits_no_delim [of 16 _ "CHR '':''"] by (auto simp: list_all_iff group_text_def)

lemma join_groups:
  assumes "list_all group_text gs" "gs \<noteq> []"
  shows "join CHR '':'' gs \<noteq> []" "hd (join CHR '':'' gs) \<noteq> CHR '':''"
    "last (join CHR '':'' gs) \<noteq> CHR '':''"
proof -
  have h: "hd gs \<in> set gs" "last gs \<in> set gs" using assms(2) by simp_all
  then have ne: "hd gs \<noteq> []" "last gs \<noteq> []" using assms(1) by (auto simp: list_all_iff group_text_nonempty)
  then show "join CHR '':'' gs \<noteq> []" using assms(2) by (auto simp: join_eq_Nil_iff)
  have no: "CHR '':'' \<notin> set (hd gs)" "CHR '':'' \<notin> set (last gs)"
    using group_text_no_colon [OF assms(1)] h by blast+
  with ne show "hd (join CHR '':'' gs) \<noteq> CHR '':''" "last (join CHR '':'' gs) \<noteq> CHR '':''"
    using assms(2) hd_in_set last_in_set by (metis hd_join, metis last_join)
qed

lemma join_groups_chars: "list_all group_text gs \<Longrightarrow> list_all is_ipv6_char (join CHR '':'' gs)"
  using set_join [of "CHR '':''" gs]
  by (fastforce simp: list_all_iff group_text_def all_digits_def is_ipv6_char_iff)

lemma ipv6_strip_id:
  "h = [] \<or> hd h \<noteq> CHR '':'' \<Longrightarrow> h = [] \<or> last h \<noteq> CHR '':'' \<Longrightarrow> ipv6_strip h = h"
  by (auto simp: ipv6_strip_def prefix_def suffix_def)

lemma ipv6_strip_tail:
  "h \<noteq> [] \<Longrightarrow> hd h \<noteq> CHR '':'' \<Longrightarrow> ipv6_strip (h @ ''::'') = h @ '':''"
  by (cases h) (auto simp: ipv6_strip_def prefix_def suffix_def)

lemma split_groups:
  "list_all group_text gs \<Longrightarrow> gs \<noteq> [] \<Longrightarrow> split_on CHR '':'' (join CHR '':'' gs) = gs"
  by (simp add: split_on_join group_text_no_colon)

lemma split_groups_append:
  "list_all group_text gs \<Longrightarrow> gs \<noteq> [] \<Longrightarrow>
   split_on CHR '':'' (join CHR '':'' gs @ CHR '':'' # s) = gs @ split_on CHR '':'' s"
  by (simp add: split_on_join_append group_text_no_colon)

text \<open>The compressed form: what the split of the stripped host name is.\<close>

lemma split_compressed:
  assumes "list_all group_text xs" "list_all group_text ys" "xs \<noteq> [] \<or> ys \<noteq> []"
  shows "views_split CHR '':'' (ipv6_strip (join CHR '':'' xs @ ''::'' @ join CHR '':'' ys)) = xs @ [] # ys"
proof (cases "xs = []")
  case True
  with assms have "ipv6_strip (join CHR '':'' xs @ ''::'' @ join CHR '':'' ys) = CHR '':'' # join CHR '':'' ys"
    by (simp add: ipv6_strip_def prefix_def)
  with True assms show ?thesis by (simp add: views_split_def split_groups)
next
  case xs: False
  note x = join_groups [OF assms(1) xs]
  show ?thesis
  proof (cases "ys = []")
    case True
    with x xs assms(1) show ?thesis
      by (simp add: ipv6_strip_tail views_split_def split_groups_append)
  next
    case False
    have "ipv6_strip (join CHR '':'' xs @ ''::'' @ join CHR '':'' ys) = join CHR '':'' xs @ ''::'' @ join CHR '':'' ys"
      using x join_groups [OF assms(2) False] by (intro ipv6_strip_id) (auto simp: hd_append)
    with x xs assms False show ?thesis
      by (simp add: views_split_def split_groups_append split_groups)
  qed
qed

section \<open>Printing what was parsed\<close>

lemma octet_word: "octet_text s \<Longrightarrow> unat (of_nat (text_value 10 s) :: 8 word) = text_value 10 s"
  by (simp add: octet_text_def unat_of_nat)

lemma printed_octets:
  assumes "w = of_nat (mem_value en bs)" "length bs = 4"
  shows "mem_bytes en 4 (unat (htonl en w)) = (case en of Little \<Rightarrow> rev bs | Big \<Rightarrow> bs)"
proof -
  have "mem_value en bs < 256 ^ 4" using mem_value_bound [of en bs] assms(2) by simp
  then have "unat w = mem_value en bs" by (simp add: assms(1) unat_of_nat)
  then have "mem_bytes Big 4 (unat w) = (case en of Little \<Rightarrow> rev bs | Big \<Rightarrow> bs)"
    using mem_bytes_mem_value [of bs 4 en] assms(2) by (cases en) (auto simp: mem_bytes_def)
  then show ?thesis by (simp add: bytes_htonl)
qed

lemma fmt_ok_printers:
  "fmt_ok lib \<Longrightarrow> numeral_printer 10 (fmt_d lib)" "fmt_ok lib \<Longrightarrow> numeral_printer 16 (fmt_x lib)"
  by (simp_all add: fmt_ok_def)

lemma octet_text_print:
  "fmt_ok lib \<Longrightarrow> n < 256 \<Longrightarrow> octet_text (fmt_d lib n)"
  "fmt_ok lib \<Longrightarrow> text_value 10 (fmt_d lib n) = n"
  by (simp_all add: octet_text_def numeral_printer.print_digits [OF fmt_ok_printers(1)])

lemma group_text_print:
  fixes w :: "16 word"
  assumes "fmt_ok lib"
  shows "group_text (fmt_x lib (unat w))" "group_value (fmt_x lib (unat w)) = w"
proof -
  note printer = fmt_ok_printers(2) [OF assms]
  have "unat w < 16 ^ 4" using unsigned_less [of w] by simp
  from numeral_printer.print_length [OF printer this]
  show "group_text (fmt_x lib (unat w))" "group_value (fmt_x lib (unat w)) = w"
    by (simp_all add: group_text_def group_value_def numeral_printer.print_digits [OF printer])
qed

lemma length_8_cases:
  assumes "length xs = 8"
  obtains a b c d e f g h where "xs = [a, b, c, d, e, f, g, h]"
  using assms by (auto simp: length_Suc_conv eval_nat_numeral)

lemma parse_ipv6_length: "parse_ipv6 en h = Some r \<Longrightarrow> length r = 8"
proof -
  assume parse: "parse_ipv6 en h = Some r"
  then have "list_all is_ipv6_char h" using parse_ipv6_bad_char by (cases "list_all is_ipv6_char h") auto
  with parse show ?thesis
    by (auto simp: parse_ipv6_segments ipv6_segments_to_def length_ipv6_fill)
qed

lemma parse_ipv6_full:
  assumes "list_all group_text gs" "length gs = 8"
  shows "parse_ipv6 en (join CHR '':'' gs) = Some (map (htons en) (map group_value gs))"
proof -
  have ne: "gs \<noteq> []" using assms(2) by auto
  note j = join_groups [OF assms(1) ne]
  have "views_split CHR '':'' (ipv6_strip (join CHR '':'' gs)) = gs"
    using j assms(1) ne by (simp add: ipv6_strip_id views_split_def split_groups)
  moreover have "ipv6_segments_to gs (ipv6_fill gs [])"
    using assms unfolding ipv6_segments_to_def by (intro exI [of _ gs]) simp
  moreover have "ipv6_fill gs [] = map group_value gs" using assms(2) by (simp add: ipv6_fill_def)
  ultimately show ?thesis
    using parse_ipv6_segments [OF join_groups_chars [OF assms(1)]] by auto
qed

text \<open>Evaluation of closed instances.\<close>

lemmas address_eval =
  group_text_def group_value_def octet_text_def text_value_def digit_value_def digits_value_def
  is_digit_def htons_def ntohs_def htonl_def mem_bytes_def mem_value_def

lemma zeros_6: "replicate 6 0 = [0, 0, 0, 0, 0, 0]"
  by (simp add: numeral_eq_Suc)

section \<open>Properties\<close>

text \<open>
  C21. On a little-endian host \<open>parse_ipv4\<close> accepts exactly the dotted quads: four decimal numbers
  below 256 (leading zeros allowed) separated by single dots, nothing before, between or after.
  The result is the number whose most significant byte is the first segment.
\<close>

theorem parse_ipv4_iff:
  "parse_ipv4 Little h = Some w \<longleftrightarrow>
   (\<exists>a b c d. octet_text a \<and> octet_text b \<and> octet_text c \<and> octet_text d \<and>
      h = a @ ''.'' @ b @ ''.'' @ c @ ''.'' @ d \<and>
      w = of_nat (((text_value 10 a * 256 + text_value 10 b) * 256 + text_value 10 c) * 256
            + text_value 10 d))"
  unfolding parse_ipv4_bytes
  by (simp add: mem_value_def octet_word algebra_simps cong: conj_cong)

text \<open>
  C22. \<open>parse_ipv6\<close> on the two textual forms of an IPv6 address: eight groups of one to four
  hexadecimal digits separated by colons, and the compressed form, where \<open>::\<close> (at the start, in the
  middle or at the end, with at least one group beside it) stands for the missing zero groups.
\<close>

theorem parse_ipv6_forms:
  assumes "list_all group_text xs" "list_all group_text ys"
  shows "(length xs = 8 \<longrightarrow>
            parse_ipv6 en (join CHR '':'' xs) = Some (map (htons en) (map group_value xs))) \<and>
         (1 \<le> length xs + length ys \<and> length xs + length ys \<le> 7 \<longrightarrow>
            parse_ipv6 en (join CHR '':'' xs @ ''::'' @ join CHR '':'' ys) =
              Some (map (htons en) (map group_value xs @
                replicate (8 - (length xs + length ys)) 0 @ map group_value ys)))"
proof (intro conjI impI)
  assume n: "1 \<le> length xs + length ys \<and> length xs + length ys \<le> 7"
  then have "xs \<noteq> [] \<or> ys \<noteq> []" by auto
  note split = split_compressed [OF assms this]
  have chars: "list_all is_ipv6_char (join CHR '':'' xs @ ''::'' @ join CHR '':'' ys)"
    using join_groups_chars [OF assms(1)] join_groups_chars [OF assms(2)]
    by (simp add: is_ipv6_char_def)
  have "ipv6_segments_to (xs @ [] # ys) (ipv6_fill xs ys)"
    using assms n unfolding ipv6_segments_to_def by (intro exI [of _ xs]) auto
  then have "parse_ipv6 en (join CHR '':'' xs @ ''::'' @ join CHR '':'' ys)
      = Some (map (htons en) (ipv6_fill xs ys))"
    unfolding parse_ipv6_segments [OF chars] split by blast
  then show "parse_ipv6 en (join CHR '':'' xs @ ''::'' @ join CHR '':'' ys) =
      Some (map (htons en) (map group_value xs @
        replicate (8 - (length xs + length ys)) 0 @ map group_value ys))"
    by (simp only: ipv6_fill_def)
qed (simp add: parse_ipv6_full assms)

theorem parse_ipv6_forms_witness:
  "parse_ipv6 Little ''fe80::1'' = Some [33022, 0, 0, 0, 0, 0, 0, 256]"
proof -
  have "list_all group_text [''fe80'']" "list_all group_text [''1'']"
    by (simp_all add: address_eval)
  from parse_ipv6_forms [OF this, of Little] show ?thesis
    by (simp add: zeros_6) (simp add: address_eval)
qed

text \<open>
  Where \<open>parse_ipv6\<close> departs from the textual forms of an IPv6 address. The unspecified address
  \<open>::\<close> is rejected. The empty host name is accepted and denotes it. Fewer than eight groups without
  any \<open>::\<close> are accepted and filled up with zeros. After eight groups everything that follows a colon
  is ignored, as long as its characters are hexadecimal digits or colons and it does not end in \<open>::\<close>.
\<close>

lemma parse_ipv6_departures:
  assumes gs: "list_all group_text gs" "1 \<le> length gs" "length gs \<le> 8"
    and junk: "list_all is_ipv6_char junk" "\<not> suffix ''::'' (CHR '':'' # junk)"
  shows "parse_ipv6 en ''::'' = None \<and>
    parse_ipv6 en [] = Some (map (htons en) (replicate 8 0)) \<and>
    parse_ipv6 en (join CHR '':'' gs) =
      Some (map (htons en) (map group_value gs @ replicate (8 - length gs) 0)) \<and>
    (length gs = 8 \<longrightarrow>
      parse_ipv6 en (join CHR '':'' gs @ '':'' @ junk) = parse_ipv6 en (join CHR '':'' gs))"
proof (intro conjI impI)
  have ne: "gs \<noteq> []" using gs(2) by auto
  note j = join_groups [OF gs(1) ne]
  have all: "ipv6_segments_to (gs @ rest) (ipv6_fill gs [])" if "rest = [] \<or> length gs = 8" for rest
    using gs that unfolding ipv6_segments_to_def by (intro exI [of _ gs]) auto
  show "parse_ipv6 en ''::'' = None"
    by (simp add: parse_ipv6_def is_ipv6_char_def ipv6_strip_def views_split_def)
  show "parse_ipv6 en [] = Some (map (htons en) (replicate 8 0))"
    by (simp add: parse_ipv6_def ipv6_strip_def views_split_def)
  have short: "parse_ipv6 en (join CHR '':'' gs) = Some (map (htons en) (ipv6_fill gs []))"
    using parse_ipv6_segments [OF join_groups_chars [OF gs(1)]] all [of "[]"] j gs(1) ne
    by (auto simp: ipv6_strip_id views_split_def split_groups)
  then show "parse_ipv6 en (join CHR '':'' gs) =
      Some (map (htons en) (map group_value gs @ replicate (8 - length gs) 0))"
    by (simp only: ipv6_fill_def) simp
  assume eight: "length gs = 8"
  let ?h = "join CHR '':'' gs @ '':'' @ junk"
  have "\<not> suffix ''::'' ?h"
  proof
    assume "suffix ''::'' ?h"
    with junk(2) obtain xs where "''::'' = xs @ CHR '':'' # junk" "suffix xs (join CHR '':'' gs)"
      by (auto simp: suffix_append)
    with junk(2) j show False by (cases xs; cases "tl xs") (auto simp: suffix_def)
  qed
  moreover have "\<not> prefix ''::'' ?h" using j by (cases "join CHR '':'' gs") (auto simp: prefix_def)
  ultimately have "views_split CHR '':'' (ipv6_strip ?h) = gs @ split_on CHR '':'' junk"
    using gs(1) ne by (simp add: ipv6_strip_def views_split_def split_groups_append)
  moreover have "list_all is_ipv6_char ?h"
    using join_groups_chars [OF gs(1)] junk(1) by (simp add: is_ipv6_char_def)
  ultimately show "parse_ipv6 en ?h = parse_ipv6 en (join CHR '':'' gs)"
    using parse_ipv6_segments all [of "split_on CHR '':'' junk"] eight short by metis
qed

lemma parse_ipv6_departures_witness:
  "parse_ipv6 Little ''1:2:3:4:5:6:7:8:9:zz'' = None \<and>
   parse_ipv6 Little ''1:2:3:4:5:6:7:8:9::a'' = parse_ipv6 Little ''1:2:3:4:5:6:7:8''"
proof -
  have "list_all group_text [''1'', ''2'', ''3'', ''4'', ''5'', ''6'', ''7'', ''8'']"
    "list_all is_ipv6_char ''9::a''" "\<not> suffix ''::'' (CHR '':'' # ''9::a'')"
    by (simp_all add: address_eval is_ipv6_char_def less_eq_char_def suffix_def)
  from parse_ipv6_departures [OF this(1) _ _ this(2,3), of Little] show ?thesis
    by (simp add: parse_ipv6_bad_char is_ipv6_char_def less_eq_char_def)
qed

text \<open>
  C23. Round trip of an address on a little-endian host: printing an address that \<open>address::from\<close> built
  gives a host name, in square brackets for IPv6, followed by a colon and the port; and that host
  name, parsed again with the same port, is the same address.
\<close>

theorem address_print_parse:
  assumes lib: "fmt_ok lib" and built: "address_from Little h p = Value a"
  shows "\<exists>host. address_from Little host p = Value a \<and>
    address_expr lib Little a =
      (case a of V4 _ \<Rightarrow> host | V6 _ \<Rightarrow> ''['' @ host @ '']'') @ '':'' @ fmt_d lib (unat p)"
proof (cases "parse_ipv4 Little h")
  case (Some w)
  then obtain b c d e where octets: "list_all octet_text [b, c, d, e]"
    and w: "w = of_nat (mem_value Little (map (\<lambda>s. of_nat (text_value 10 s)) [e, d, c, b]))"
    unfolding parse_ipv4_bytes by blast
  let ?host = "join CHR ''.'' (map (\<lambda>s. fmt_d lib (text_value 10 s)) [b, c, d, e])"
  have "parse_ipv4 Little ?host = Some w"
    unfolding parse_ipv4_bytes
    using octets octet_text_print [OF lib]
    by (intro exI [of _ "fmt_d lib (text_value 10 _)"] conjI) (simp_all add: w octet_text_def)
  then have "address_from Little ?host p = Value a"
    using built Some by (simp add: address_from_def)
  moreover have "address_expr lib Little a = ?host @ '':'' @ fmt_d lib (unat p)"
    using built Some octets printed_octets [OF w] by (auto simp: address_from_def octet_word)
  moreover have "\<exists>sa. a = V4 sa" using built Some by (auto simp: address_from_def)
  ultimately show ?thesis by auto
next
  case None
  with built obtain r where r: "parse_ipv6 Little h = Some r"
    and a: "a = V6 \<lparr>sin6_family = domain_value IPv6, sin6_port = htons Little p, s6_addr16 = r\<rparr>"
    by (auto simp: address_from_def split: option.splits)
  have len: "length r = 8" using r by (rule parse_ipv6_length)
  let ?gs = "map (\<lambda>w. fmt_x lib (unat (ntohs Little w))) r"
  let ?host = "join CHR '':'' ?gs"
  have "CHR '':'' \<in> set ?host" using len by (intro delim_in_join) simp
  then have no4: "parse_ipv4 Little ?host = None"
    by (auto simp: parse_ipv4_def list_all_iff is_ipv4_char_def less_eq_char_def)
  have "list_all group_text ?gs" using group_text_print(1) [OF lib] by (auto simp: list_all_iff)
  then have "parse_ipv6 Little ?host = Some (map (htons Little) (map group_value ?gs))"
    using len by (intro parse_ipv6_full) simp_all
  also have "map (htons Little) (map group_value ?gs) = r"
  proof -
    from r have "list_all is_ipv6_char h" using parse_ipv6_bad_char by (cases "list_all is_ipv6_char h") auto
    with r obtain ns where "r = map (htons Little) ns" by (auto simp: parse_ipv6_segments)
    then show ?thesis by (simp add: group_text_print(2) [OF lib])
  qed
  finally have "address_from Little ?host p = Value a" by (simp add: address_from_def no4 a)
  moreover from len obtain b c d e f g i j where "r = [b, c, d, e, f, g, i, j]" by (rule length_8_cases)
  then have "address_expr lib Little a = ''['' @ ?host @ '']:'' @ fmt_d lib (unat p)"
    by (simp add: a)
  ultimately show ?thesis by (auto simp: a)
qed

theorem address_print_parse_witness:
  "\<exists>a host. address_from Little ''010.0.0.255'' 80 = Value a \<and> address_from Little host 80 = Value a \<and>
     address_expr reference_fmt Little a = host @ '':80''"
proof -
  have "list_all octet_text [''010'', ''0'', ''0'', ''255'']" by (simp add: address_eval)
  then have "\<exists>w. parse_ipv4 Little (join CHR ''.'' [''010'', ''0'', ''0'', ''255'']) = Some w"
    unfolding parse_ipv4_bytes by blast
  then obtain sa where a: "address_from Little ''010.0.0.255'' 80 = Value (V4 sa)"
    by (auto simp: address_from_def)
  have "fmt_d reference_fmt 80 = ''80''"
    by (simp add: reference_fmt_def print_base.simps digit_char_def char_of_def bit_Suc_0_iff)
  then show ?thesis using a address_print_parse [OF fmt_ok_reference a] by auto
qed

text \<open>
  The byte order the parser assumes. \<open>parse_ipv4\<close> stores the segments through a byte pointer into
  the integer it later passes to \<open>htonl\<close>: on a little-endian host the printed address has the
  segments in their order, on a big-endian host in the reverse order, so there the socket address
  of \<open>127.0.0.1\<close> is 1.0.0.127.
\<close>

theorem ipv4_printed_octets:
  assumes "octet_text a" "octet_text b" "octet_text c" "octet_text d"
  shows "\<exists>addr. address_from en (join CHR ''.'' [a, b, c, d]) p = Value addr \<and>
    address_expr lib en addr =
      join CHR ''.'' (map (\<lambda>s. fmt_d lib (text_value 10 s))
        (case en of Little \<Rightarrow> [a, b, c, d] | Big \<Rightarrow> [d, c, b, a])) @ '':'' @ fmt_d lib (unat p)"
proof -
  let ?w = "of_nat (mem_value en (map (\<lambda>s. of_nat (text_value 10 s)) [d, c, b, a]))"
  have "parse_ipv4 en (join CHR ''.'' [a, b, c, d]) = Some ?w"
    unfolding parse_ipv4_bytes using assms
    by (intro exI [of _ a] exI [of _ b] exI [of _ c] exI [of _ d]) simp
  moreover have "mem_bytes en 4 (unat (htonl en ?w)) =
      (case en of Little \<Rightarrow> rev (map (\<lambda>s. of_nat (text_value 10 s)) [d, c, b, a])
       | Big \<Rightarrow> map (\<lambda>s. of_nat (text_value 10 s)) [d, c, b, a])"
    by (rule printed_octets) simp_all
  ultimately show ?thesis
    using assms by (cases en) (simp_all add: address_from_def octet_word)
qed

theorem ipv4_printed_octets_witness:
  "\<exists>addr. address_from Big ''127.0.0.1'' 80 = Value addr \<and>
    address_expr reference_fmt Big addr = ''1.0.0.127:80''"
proof -
  have "octet_text ''127''" "octet_text ''0''" "octet_text ''0''" "octet_text ''1''"
    by (simp_all add: address_eval)
  from ipv4_printed_octets [OF this, of Big 80 reference_fmt] show ?thesis
    by (simp add: address_eval reference_fmt_def print_base.simps digit_char_def char_of_def
        bit_Suc_0_iff)
qed

text \<open>
  What \<open>address::from\<close> returns. An IPv4 address results exactly for a dotted quad; the family field,
  \<open>domain()\<close>, \<open>socklen()\<close> and the port agree with the kind of the address; a host name that is no
  dotted quad and has any character besides hexadecimal digits and colons gives the error
  \<open>invalid address\<close>, and constructing an address from it fails an assertion.
\<close>

theorem address_from_outcome:
  "(\<exists>sa. address_from Little h p = Value (V4 sa)) =
     (\<exists>a b c d. list_all octet_text [a, b, c, d] \<and> h = join CHR ''.'' [a, b, c, d]) \<and>
   (\<forall>sa. address_from en h p = Value (V4 sa) \<longrightarrow>
      sin_family sa = domain_value (address_domain (V4 sa)) \<and> socklen (V4 sa) = 16 \<and>
      ntohs en (sin_port sa) = p) \<and>
   (\<forall>sa. address_from en h p = Value (V6 sa) \<longrightarrow>
      sin6_family sa = domain_value (address_domain (V6 sa)) \<and> socklen (V6 sa) = 28 \<and>
      ntohs en (sin6_port sa) = p \<and> length (s6_addr16 sa) = 8) \<and>
   (parse_ipv4 en h = None \<and> (\<exists>c \<in> set h. \<not> is_ipv6_char c) \<longrightarrow>
      address_from en h p = Error (trans_error_code 202) \<and>
      error_code_message (trans_error_code 202) = Inr ''invalid address'' \<and>
      address_ctor en h p = Inl Assert_failed)"
proof (intro conjI allI impI)
  show "(\<exists>sa. address_from Little h p = Value (V4 sa)) =
     (\<exists>a b c d. list_all octet_text [a, b, c, d] \<and> h = join CHR ''.'' [a, b, c, d])"
  proof -
    have "(\<exists>sa. address_from Little h p = Value (V4 sa)) = (\<exists>w. parse_ipv4 Little h = Some w)"
      by (auto simp: address_from_def split: option.splits)
    then show ?thesis unfolding parse_ipv4_bytes by blast
  qed
next
  assume "parse_ipv4 en h = None \<and> (\<exists>c \<in> set h. \<not> is_ipv6_char c)"
  then have "parse_ipv4 en h = None" "parse_ipv6 en h = None"
    by (auto simp: list_all_iff intro: parse_ipv6_bad_char)
  then show "address_from en h p = Error (trans_error_code 202)"
    "address_ctor en h p = Inl Assert_failed"
    by (simp_all add: address_from_def address_ctor_def)
  show "error_code_message (trans_error_code 202) = Inr ''invalid address''"
    by (simp add: error_code_message_def message_def message_cases_def)
qed (auto simp: address_from_def parse_ipv6_length split: option.splits)

theorem address_from_outcome_witness:
  "address_ctor Little ''localhost'' 80 = Inl Assert_failed"
proof -
  have "parse_ipv4 Little ''localhost'' = None \<and> (\<exists>c \<in> set ''localhost''. \<not> is_ipv6_char c)"
    by (simp add: parse_ipv4_def is_ipv4_char_def is_ipv6_char_def less_eq_char_def)
  then show ?thesis using address_from_outcome [of "''localhost''" 80 Little] by blast
qed

end
