(* ===== verification/BC_World.thy ===== *)
theory BC_World
  imports BC_Expected
begin

text \<open>
  What the asynchronous part of the program runs on and does not define itself: the kernel
  (\<open>epoll\<close>, the steady clock, sleeping) and the bodies of the coroutines.

  \<^item> \<open>'w\<close> is the state of everything outside the scheduler: kernel, coroutine frames, sockets,
    application data. Nothing is assumed of it.
  \<^item> \<open>'w sys\<close> collects the calls the code makes to the outside, each a function of that state.
  \<^item> \<open>'w co\<close> is what a resumed coroutine (or a called proxy) does until it gives control
    back: steps on the outside state, whose result may decide how to go on, calls of the
    scheduler's interface, or the end of the process. A coroutine that runs for ever without suspending has no such tree.
\<close>

section \<open>Events\<close>

type_synonym event = "32 word"

definition ev_NONE :: event where "ev_NONE = 0"
definition ev_READ :: event where "ev_READ = 0x001"
definition ev_WRITE :: event where "ev_WRITE = 0x004"
definition ev_ERROR :: event where "ev_ERROR = 0x008"
definition ev_HANGUP :: event where "ev_HANGUP = 0x010"
definition ev_RDHANGUP :: event where "ev_RDHANGUP = 0x2000"

lemmas event_defs =
  ev_NONE_def ev_READ_def ev_WRITE_def ev_ERROR_def ev_HANGUP_def ev_RDHANGUP_def

section \<open>Coroutines\<close>

text \<open>
  \<open>descriptor_node::next\<close>: a coroutine handle or a callable that returns whether it is done.
  Handles, callables and the places that \<open>event &\<close> references refer to are numbers.
\<close>

datatype next_t = Handle nat | Proxy nat

datatype ending = By_abort | By_assert | By_terminate

datatype 'w co =
    Stop bool                                     \<comment> \<open>suspended or finished; the callable's result\<close>
  | Effect "'w \<Rightarrow> 'w" "'w \<Rightarrow> 'w co"               \<comment> \<open>a step outside; the rest sees the state before it\<close>
  | Post_timer int nat "'w co"                    \<comment> \<open>\<open>post_coro(tp, coro)\<close>\<close>
  | Post_descriptor int event nat next_t "'w co"  \<comment> \<open>\<open>post_coro(fd, e, re, coro or proxy)\<close>\<close>
  | Unsubscribe int "'w co"                       \<comment> \<open>\<open>unsubscribe(fd)\<close>\<close>
  | Die ending                                    \<comment> \<open>the process ends\<close>

text \<open>
  A coroutine whose outside steps are all in \<open>E\<close> and which posts on descriptors of \<open>P\<close> and
  unsubscribes descriptors of \<open>U\<close> only.
\<close>

primrec co_within :: "('w \<Rightarrow> 'w) set \<Rightarrow> int set \<Rightarrow> int set \<Rightarrow> 'w co \<Rightarrow> bool" where
  "co_within E P U (Stop b) = True"
| "co_within E P U (Effect g k) = (g \<in> E \<and> (\<forall>w. co_within E P U (k w)))"
| "co_within E P U (Post_timer tp h c) = co_within E P U c"
| "co_within E P U (Post_descriptor fd e re nx c) = (fd \<in> P \<and> co_within E P U c)"
| "co_within E P U (Unsubscribe fd c) = (fd \<in> U \<and> co_within E P U c)"
| "co_within E P U (Die d) = True"

lemma co_within_UNIV [simp]: "co_within UNIV UNIV UNIV c"
  by (induction c) auto

section \<open>The outside\<close>

datatype ctl = CTL_ADD | CTL_DEL | CTL_MOD

record epoll_event =
  ee_events :: event
  ee_fd :: int

text \<open>
  System calls return an \<open>errno\<close>, 0 for success, or \<open>Inl errno\<close> where they have a result.
  Times are in nanoseconds, the timeout of \<open>epoll_wait\<close> in milliseconds. \<open>sys_store\<close> is an
  assignment through an \<open>event &\<close>; \<open>sys_resume\<close> and \<open>sys_call\<close> are the bodies behind a handle
  and behind a callable, \<open>sys_done\<close> is \<open>coroutine_handle::done\<close>.
\<close>

record 'w sys =
  sys_epoll_create :: "'w \<Rightarrow> (int + int) \<times> 'w"
  sys_close :: "int \<Rightarrow> 'w \<Rightarrow> int \<times> 'w"
  sys_epoll_ctl :: "int \<Rightarrow> ctl \<Rightarrow> int \<Rightarrow> event \<Rightarrow> 'w \<Rightarrow> int \<times> 'w"
  sys_epoll_wait :: "int \<Rightarrow> nat \<Rightarrow> int \<Rightarrow> 'w \<Rightarrow> (int + epoll_event list) \<times> 'w"
  sys_now :: "'w \<Rightarrow> int \<times> 'w"
  sys_sleep :: "int \<Rightarrow> 'w \<Rightarrow> 'w"
  sys_store :: "nat \<Rightarrow> event \<Rightarrow> 'w \<Rightarrow> 'w"
  sys_resume :: "nat \<Rightarrow> 'w co"
  sys_call :: "nat \<Rightarrow> 'w co"
  sys_done :: "nat \<Rightarrow> 'w \<Rightarrow> bool"

section \<open>A concrete outside\<close>

text \<open>
  An instance for closed examples: a kernel with one epoll instance that behaves as documented,
  a clock that only sleeping and waiting advance, a script of the batches \<open>epoll_wait\<close> returns,
  and a log of the handles and callables that ran.
\<close>

record ref_world =
  rw_interest :: "int \<Rightarrow> event option"
  rw_clock :: int
  rw_script :: "epoll_event list list"
  rw_stores :: "(nat \<times> event) list"
  rw_log :: "nat list"

definition ref_start :: ref_world where
  "ref_start = \<lparr>rw_interest = (\<lambda>_. None), rw_clock = 0, rw_script = [], rw_stores = [], rw_log = []\<rparr>"

fun ref_epoll_ctl :: "int \<Rightarrow> ctl \<Rightarrow> int \<Rightarrow> event \<Rightarrow> ref_world \<Rightarrow> int \<times> ref_world" where
  "ref_epoll_ctl ep CTL_ADD fd e w =
     (case rw_interest w fd of
        Some _ \<Rightarrow> (17, w) | None \<Rightarrow> (0, w\<lparr>rw_interest := (rw_interest w)(fd := Some e)\<rparr>))"
| "ref_epoll_ctl ep CTL_MOD fd e w =
     (case rw_interest w fd of
        None \<Rightarrow> (2, w) | Some _ \<Rightarrow> (0, w\<lparr>rw_interest := (rw_interest w)(fd := Some e)\<rparr>))"
| "ref_epoll_ctl ep CTL_DEL fd e w =
     (case rw_interest w fd of
        None \<Rightarrow> (2, w) | Some _ \<Rightarrow> (0, w\<lparr>rw_interest := (rw_interest w)(fd := None)\<rparr>))"

definition ref_epoll_wait ::
    "int \<Rightarrow> nat \<Rightarrow> int \<Rightarrow> ref_world \<Rightarrow> (int + epoll_event list) \<times> ref_world" where
  "ref_epoll_wait ep maxevents timeout w =
     (if maxevents = 0 then (Inl 22, w)
      else case rw_script w of
        [] \<Rightarrow> (Inr [], w\<lparr>rw_clock := rw_clock w + timeout * 1000000\<rparr>)
      | batch # rest \<Rightarrow> (Inr (take maxevents batch), w\<lparr>rw_script := rest\<rparr>))"

definition ref_log :: "nat \<Rightarrow> ref_world \<Rightarrow> ref_world" where
  "ref_log h w = w\<lparr>rw_log := rw_log w @ [h]\<rparr>"

definition ref_sys :: "(nat \<Rightarrow> ref_world co) \<Rightarrow> (nat \<Rightarrow> ref_world co) \<Rightarrow> ref_world sys" where
  "ref_sys bodies calls =
     \<lparr>sys_epoll_create = (\<lambda>w. (Inr 3, w)), sys_close = (\<lambda>fd w. (0, w)),
      sys_epoll_ctl = ref_epoll_ctl, sys_epoll_wait = ref_epoll_wait,
      sys_now = (\<lambda>w. (rw_clock w, w)),
      sys_sleep = (\<lambda>ns w. w\<lparr>rw_clock := rw_clock w + max 0 ns\<rparr>),
      sys_store = (\<lambda>r e w. w\<lparr>rw_stores := (r, e) # rw_stores w\<rparr>),
      sys_resume = (\<lambda>h. Effect (ref_log h) (\<lambda>_. bodies h)),
      sys_call = calls, sys_done = (\<lambda>h w. False)\<rparr>"

lemma ref_sys_simps [simp]:
  "sys_epoll_create (ref_sys bodies calls) w = (Inr 3, w)"
  "sys_epoll_ctl (ref_sys bodies calls) = ref_epoll_ctl"
  "sys_epoll_wait (ref_sys bodies calls) = ref_epoll_wait"
  "sys_now (ref_sys bodies calls) w = (rw_clock w, w)"
  "sys_sleep (ref_sys bodies calls) ns w = w\<lparr>rw_clock := rw_clock w + max 0 ns\<rparr>"
  "sys_store (ref_sys bodies calls) r e w = w\<lparr>rw_stores := (r, e) # rw_stores w\<rparr>"
  "sys_resume (ref_sys bodies calls) h = Effect (ref_log h) (\<lambda>_. bodies h)"
  "sys_call (ref_sys bodies calls) = calls"
  "sys_done (ref_sys bodies calls) h w = False"
  by (simp_all add: ref_sys_def)

lemma ref_log_simps [simp]:
  "rw_interest (ref_log h w) = rw_interest w" "rw_clock (ref_log h w) = rw_clock w"
  "rw_script (ref_log h w) = rw_script w" "rw_stores (ref_log h w) = rw_stores w"
  "rw_log (ref_log h w) = rw_log w @ [h]"
  by (simp_all add: ref_log_def)

end
