(* ===== verification/BC_Poller.thy ===== *)
theory BC_Poller
  imports BC_World
begin

text \<open>
  The class \<open>poller\<close> of \<open>include/bc/async/scheduler.hpp\<close> and \<open>src/async/scheduler.cpp\<close>: the table
  \<open>focus_\<close> of the events each descriptor is registered for, the buffer \<open>evs_\<close> for
  \<open>epoll_wait\<close>, and the operations \<open>adjust_size_\<close>, \<open>subscribe\<close>, \<open>unsubscribe\<close> and \<open>poll\<close>.

  The lemmas show when an access is in range, what \<open>subscribe\<close> does to the table and to the
  kernel, and that the table mirrors the kernel's interest list.
\<close>

section \<open>State and operations\<close>

record poller =
  epfd :: int
  focus :: "event list"
  evs :: "epoll_event list"

text \<open>Constructor and destructor; a failing \<open>close\<close> is only logged.\<close>

definition poller_ctor :: "'w sys \<Rightarrow> 'w \<Rightarrow> (poller \<times> 'w) result" where
  "poller_ctor sys w =
     (case sys_epoll_create sys w of
        (Inl errno, w1) \<Rightarrow> Inl (Thrown (trans_error_code errno))
      | (Inr fd, w1) \<Rightarrow> Inr (\<lparr>epfd = fd, focus = [], evs = []\<rparr>, w1))"

definition poller_dtor :: "'w sys \<Rightarrow> poller \<Rightarrow> 'w \<Rightarrow> 'w" where
  "poller_dtor sys p w = snd (sys_close sys (epfd p) w)"

definition poller_adjust_size :: "nat \<Rightarrow> poller \<Rightarrow> poller" where
  "poller_adjust_size index p =
     (if length (focus p) > index then p
      else let need = bit_ceil index
           in p\<lparr>focus := vec_resize need ev_NONE (focus p),
                evs := vec_resize need \<lparr>ee_events = ev_NONE, ee_fd = -1\<rparr> (evs p)\<rparr>)"

text \<open>The lambda of \<open>subscribe\<close>; the \<open>op\<close> 0 is \<open>None\<close>.\<close>

definition subscribe_op :: "event \<Rightarrow> event \<Rightarrow> ctl option" where
  "subscribe_op now target =
     (if now = target then None
      else if now \<noteq> 0 then Some (if target \<noteq> 0 then CTL_MOD else CTL_DEL)
      else Some CTL_ADD)"

definition poller_subscribe :: "'w sys \<Rightarrow> int \<Rightarrow> event \<Rightarrow> poller \<times> 'w \<Rightarrow> (poller \<times> 'w) result" where
  "poller_subscribe sys fd e st =
     (if \<not> fd > 0 then Inl Assert_failed
      else let p = poller_adjust_size (nat fd) (fst st); w = snd st in
        res_bind (vec_get (focus p) (nat fd)) (\<lambda>now.
          case subscribe_op now e of
            None \<Rightarrow> res_bind (vec_set (focus p) (nat fd) e) (\<lambda>f. Inr (p\<lparr>focus := f\<rparr>, w))
          | Some op \<Rightarrow>
              let (errno, w1) = sys_epoll_ctl sys (epfd p) op fd e w
              in if errno \<noteq> 0 then Inl (Thrown (trans_error_code errno))
                 else res_bind (vec_set (focus p) (nat fd) e) (\<lambda>f. Inr (p\<lparr>focus := f\<rparr>, w1))))"

definition poller_unsubscribe :: "'w sys \<Rightarrow> int \<Rightarrow> poller \<times> 'w \<Rightarrow> (poller \<times> 'w) result" where
  "poller_unsubscribe sys fd st = poller_subscribe sys fd ev_NONE st"

text \<open>\<open>duration_cast<milliseconds>\<close> of nanoseconds: truncation towards zero.\<close>

definition ms_of_ns :: "int \<Rightarrow> int" where
  "ms_of_ns ns = (if ns \<ge> 0 then ns div 1000000 else - ((- ns) div 1000000))"

text \<open>
  The delivery loop of \<open>poll\<close> over the first events of \<open>evs_\<close>. It holds iterators into that
  vector; a handler that makes \<open>adjust_size_\<close> grow the vector reallocates it (its capacity
  is its size: it only ever grows from one power of two to a larger one), and the next read
  through the iterators is undefined. \<open>n\<close> is the size of the vector when the loop began.
\<close>

fun deliver ::
    "('s \<Rightarrow> poller) \<Rightarrow> (int \<Rightarrow> event \<Rightarrow> 's \<times> 'w \<Rightarrow> ('s \<times> 'w) result) \<Rightarrow>
     epoll_event list \<Rightarrow> nat \<Rightarrow> 's \<times> 'w \<Rightarrow> ('s \<times> 'w) result" where
  "deliver get handler [] n st = Inr st"
| "deliver get handler (ev # rest) n st =
     (if length (evs (get (fst st))) \<noteq> n then Inl Dangling
      else res_bind (handler (ee_fd ev) (ee_events ev) st) (deliver get handler rest n))"

text \<open>
  \<open>poll\<close> works on the poller inside a larger state, given by its selector and its update.
  The kernel writes the ready events over the first elements of the buffer, which keeps its
  size. \<open>EINTR\<close> is 4.
\<close>

definition poll ::
    "'w sys \<Rightarrow> ('s \<Rightarrow> poller) \<Rightarrow> ((poller \<Rightarrow> poller) \<Rightarrow> 's \<Rightarrow> 's) \<Rightarrow>
     (int \<Rightarrow> event \<Rightarrow> 's \<times> 'w \<Rightarrow> ('s \<times> 'w) result) \<Rightarrow> int \<Rightarrow> 's \<times> 'w \<Rightarrow> ('s \<times> 'w) result" where
  "poll sys get upd handler rtime st =
     (let timeout = ms_of_ns rtime; s = fst st; w = snd st in
      if timeout < 0 then Inr st
      else case sys_epoll_wait sys (epfd (get s)) (length (evs (get s))) timeout w of
             (Inl errno, w1) \<Rightarrow>
               if errno = 4 then Inr (s, w1) else Inl (Thrown (trans_error_code errno))
           | (Inr ready, w1) \<Rightarrow>
               let s1 = upd (\<lambda>p. p\<lparr>evs := take (length (evs p)) (ready @ drop (length ready) (evs p))\<rparr>) s
               in deliver get handler (take (length ready) (evs (get s1)))
                    (length (evs (get s1))) (s1, w1))"

section \<open>Tables that grow to the next power of two\<close>

text \<open>The sizes such a table can have.\<close>

definition table_size :: "nat \<Rightarrow> bool" where
  "table_size n \<longleftrightarrow> n = 0 \<or> power_of_two n"

lemma table_size_0 [simp]: "table_size 0"
  by (simp add: table_size_def)

text \<open>
  The contract of \<open>adjust_size_\<close>, which the poller implements for \<open>focus_\<close> and \<open>evs_\<close> and the
  scheduler for \<open>descriptor_nodes_\<close>: grow to \<open>bit_ceil(index)\<close> unless the index is in range,
  keep what is there, fill with a default.
\<close>

locale growing_table =
  fixes inv :: "'s \<Rightarrow> bool" and size :: "'s \<Rightarrow> nat" and get :: "'s \<Rightarrow> nat \<Rightarrow> 'a"
    and dflt :: 'a and adjust :: "nat \<Rightarrow> 's \<Rightarrow> 's"
  assumes inv_adjust: "inv s \<Longrightarrow> inv (adjust i s)"
    and size_adjust: "inv s \<Longrightarrow> size (adjust i s) = (if i < size s then size s else bit_ceil i)"
    and get_adjust: "inv s \<Longrightarrow> j < size (adjust i s) \<Longrightarrow>
      get (adjust i s) j = (if j < size s then get s j else dflt)"
begin

lemma size_grows: "inv s \<Longrightarrow> size s \<le> size (adjust i s)"
  using bit_ceil_ge [of i] by (auto simp: size_adjust)

lemma table_size_adjust: "inv s \<Longrightarrow> table_size (size s) \<Longrightarrow> table_size (size (adjust i s))"
  by (auto simp: size_adjust table_size_def)

lemma in_range_adjust: "inv s \<Longrightarrow> i < size (adjust i s) \<longleftrightarrow> i < size s \<or> \<not> power_of_two i"
  using bit_ceil_gt [of i] by (auto simp: size_adjust power_of_two_def)

lemma adjust_positive: "inv s \<Longrightarrow> 0 < size (adjust i s)"
  by (simp add: size_adjust)

lemma adjust_mono:
  "inv s \<Longrightarrow> n \<le> size s \<Longrightarrow> table_size (size s) \<Longrightarrow>
   (if i < n then n else bit_ceil i) \<le> size (adjust i s)"
  by (auto simp: size_adjust table_size_def bit_ceil_le_power_of_two)

end

text \<open>The two tables of the poller.\<close>

lemma focus_adjust:
  "length (focus (poller_adjust_size i p)) = (if i < length (focus p) then length (focus p) else bit_ceil i)"
  "j < length (focus (poller_adjust_size i p)) \<Longrightarrow>
   focus (poller_adjust_size i p) ! j = (if j < length (focus p) then focus p ! j else ev_NONE)"
  by (auto simp: poller_adjust_size_def Let_def nth_vec_resize)

interpretation focus_table: growing_table
  "\<lambda>_. True" "\<lambda>p. length (focus p)" "\<lambda>p i. focus p ! i" ev_NONE poller_adjust_size
  by unfold_locales (simp_all add: focus_adjust)

definition same_size :: "poller \<Rightarrow> bool" where
  "same_size p \<longleftrightarrow> length (evs p) = length (focus p)"

lemma same_size_adjust: "same_size p \<Longrightarrow> same_size (poller_adjust_size i p)"
  by (simp add: same_size_def poller_adjust_size_def Let_def)

interpretation evs_table: growing_table
  same_size "\<lambda>p. length (evs p)" "\<lambda>p i. evs p ! i" "\<lparr>ee_events = ev_NONE, ee_fd = -1\<rparr>" poller_adjust_size
  by unfold_locales
    (auto simp: same_size_adjust, auto simp: poller_adjust_size_def Let_def nth_vec_resize same_size_def)

lemma epfd_adjust [simp]: "epfd (poller_adjust_size i p) = epfd p"
  by (simp add: poller_adjust_size_def Let_def)

text \<open>The registered events of a descriptor, 0 outside the table.\<close>

definition focus_of :: "poller \<Rightarrow> int \<Rightarrow> event" where
  "focus_of p fd = (if fd > 0 \<and> nat fd < length (focus p) then focus p ! nat fd else 0)"

lemma focus_of_adjust [simp]: "focus_of (poller_adjust_size i p) fd = focus_of p fd"
  using focus_table.size_grows [of p i] focus_table.get_adjust [where s = p and j = "nat fd" and i = i]
  by (auto simp: focus_of_def ev_NONE_def)

section \<open>subscribe\<close>

text \<open>Every way \<open>subscribe\<close> can end.\<close>

lemma poller_subscribe_Inr:
  assumes "poller_subscribe sys fd e (p, w) = Inr (p', w')"
  shows "0 < fd" "nat fd < length (focus (poller_adjust_size (nat fd) p))"
    "p' = (poller_adjust_size (nat fd) p)\<lparr>focus := (focus (poller_adjust_size (nat fd) p))[nat fd := e]\<rparr>"
    "case subscribe_op (focus_of p fd) e of None \<Rightarrow> w' = w
     | Some op \<Rightarrow> sys_epoll_ctl sys (epfd p) op fd e w = (0, w')"
proof -
  let ?p = "poller_adjust_size (nat fd) p"
  from assms have fd: "0 < fd" and range: "nat fd < length (focus ?p)"
    by (auto simp: poller_subscribe_def Let_def split: if_splits)
  then have "focus ?p ! nat fd = focus_of p fd"
    using focus_of_adjust [of "nat fd" p fd] by (simp add: focus_of_def del: focus_of_adjust)
  with assms fd range show "0 < fd" "nat fd < length (focus ?p)"
    "p' = ?p\<lparr>focus := (focus ?p)[nat fd := e]\<rparr>"
    "case subscribe_op (focus_of p fd) e of None \<Rightarrow> w' = w
     | Some op \<Rightarrow> sys_epoll_ctl sys (epfd p) op fd e w = (0, w')"
    by (auto simp: poller_subscribe_def Let_def split: option.splits prod.splits if_splits)
qed

lemma poller_subscribe_focus:
  assumes "poller_subscribe sys fd e (p, w) = Inr (p', w')"
  shows "focus_of p' = (focus_of p)(fd := e)" "epfd p' = epfd p"
    "length (focus p') = length (focus (poller_adjust_size (nat fd) p))"
    "length (evs p') = length (evs (poller_adjust_size (nat fd) p))"
proof -
  note r = poller_subscribe_Inr [OF assms]
  show "focus_of p' = (focus_of p)(fd := e)"
  proof
    fix g
    show "focus_of p' g = ((focus_of p)(fd := e)) g"
      using r(1,2) focus_of_adjust [of "nat fd" p g]
      by (auto simp: r(3) focus_of_def nth_list_update simp del: focus_of_adjust)
  qed
qed (simp_all add: poller_subscribe_Inr(3) [OF assms])

lemma poller_subscribe_sizes:
  assumes "poller_subscribe sys fd e (p, w) = Inr (p', w')" "same_size p" "table_size (length (focus p))"
  shows "same_size p'" "table_size (length (focus p'))" "length (focus p) \<le> length (focus p')"
  using poller_subscribe_focus(3,4) [OF assms(1)] same_size_adjust [OF assms(2), of "nat fd"]
    focus_table.table_size_adjust [of p "nat fd"] focus_table.size_grows [of p "nat fd"] assms(3)
  by (simp_all add: same_size_def)

text \<open>
  \<open>epoll_ctl\<close> as documented, on the interest list of the epoll instance \<open>ep\<close>: registering fails
  with \<open>EEXIST\<close> (17) only when the descriptor is registered, modifying and removing fail with
  \<open>ENOENT\<close> (2) only when it is not; success has the effect of the operation, which was then
  possible; failure has none.
\<close>

definition epoll_contract :: "'w sys \<Rightarrow> int \<Rightarrow> ('w \<Rightarrow> int \<Rightarrow> event option) \<Rightarrow> bool" where
  "epoll_contract sys ep interest \<longleftrightarrow>
     (\<forall>op fd e w r w'. sys_epoll_ctl sys ep op fd e w = (r, w') \<longrightarrow>
        (if r = 0
         then (op = CTL_ADD \<longleftrightarrow> interest w fd = None) \<and>
              interest w' = (interest w)(fd := (if op = CTL_DEL then None else Some e))
         else interest w' = interest w) \<and>
        (r = 17 \<longrightarrow> op = CTL_ADD \<and> interest w fd \<noteq> None) \<and>
        (r = 2 \<longrightarrow> op \<noteq> CTL_ADD \<and> interest w fd = None))"

lemma epoll_contract_D:
  assumes "epoll_contract sys ep interest" "sys_epoll_ctl sys ep op fd e w = (r, w')"
  shows "r = 0 \<Longrightarrow> interest w' = (interest w)(fd := (if op = CTL_DEL then None else Some e))"
    "r = 0 \<Longrightarrow> op = CTL_ADD \<longleftrightarrow> interest w fd = None"
    "r \<noteq> 0 \<Longrightarrow> interest w' = interest w"
    "r = 17 \<Longrightarrow> op = CTL_ADD \<and> interest w fd \<noteq> None"
    "r = 2 \<Longrightarrow> op \<noteq> CTL_ADD \<and> interest w fd = None"
  using assms(1)[unfolded epoll_contract_def, rule_format, OF assms(2)] by auto

text \<open>The table mirrors the kernel: a descriptor is registered exactly for its non-zero entry.\<close>

definition mirrors :: "('w \<Rightarrow> int \<Rightarrow> event option) \<Rightarrow> poller \<Rightarrow> 'w \<Rightarrow> bool" where
  "mirrors interest p w \<longleftrightarrow>
     (\<forall>fd. interest w fd = (if focus_of p fd = 0 then None else Some (focus_of p fd)))"

lemma mirrors_subscribe:
  assumes contract: "epoll_contract sys (epfd p) interest"
    and mirrors: "mirrors interest p w"
    and sub: "poller_subscribe sys fd e (p, w) = Inr (p', w')"
  shows "mirrors interest p' w'"
proof (cases "subscribe_op (focus_of p fd) e")
  case None
  then have "focus_of p fd = e" by (auto simp: subscribe_op_def split: if_splits)
  with None poller_subscribe_Inr(4) [OF sub] mirrors show ?thesis
    by (auto simp: mirrors_def poller_subscribe_focus(1) [OF sub])
next
  case (Some op)
  with poller_subscribe_Inr(4) [OF sub] have "sys_epoll_ctl sys (epfd p) op fd e w = (0, w')" by simp
  then have "interest w' = (interest w)(fd := (if op = CTL_DEL then None else Some e))"
    by (rule epoll_contract_D(1) [OF contract]) simp
  moreover have "op = CTL_DEL \<longleftrightarrow> e = 0"
    using Some by (auto simp: subscribe_op_def split: if_splits)
  ultimately show ?thesis
    using mirrors by (simp add: mirrors_def poller_subscribe_focus(1) [OF sub])
qed

lemma mirrors_subscribe_errors:
  assumes contract: "epoll_contract sys (epfd p) interest"
    and mirrors: "mirrors interest p w"
    and sub: "poller_subscribe sys fd e (p, w) = Inl (Thrown ec)"
  shows "ec_value ec \<noteq> 17" "ec_value ec \<noteq> 2"
proof -
  let ?p = "poller_adjust_size (nat fd) p"
  from sub obtain op r w1 where range: "0 < fd" "nat fd < length (focus ?p)"
    and op: "subscribe_op (focus ?p ! nat fd) e = Some op"
    and ctl: "sys_epoll_ctl sys (epfd p) op fd e w = (r, w1)" "r \<noteq> 0" and ec: "ec = trans_error_code r"
    by (auto simp: poller_subscribe_def Let_def res_bind_eq_Inl vec_set_def
        split: option.splits prod.splits if_splits)
  from range have "focus ?p ! nat fd = focus_of p fd"
    using focus_of_adjust [of "nat fd" p fd] by (simp add: focus_of_def del: focus_of_adjust)
  with op have "op = CTL_ADD \<longleftrightarrow> focus_of p fd = 0"
    by (auto simp: subscribe_op_def split: if_splits)
  with mirrors have "op = CTL_ADD \<longleftrightarrow> interest w fd = None" by (simp add: mirrors_def)
  then show "ec_value ec \<noteq> 17" "ec_value ec \<noteq> 2"
    using epoll_contract_D(4,5) [OF contract ctl(1)] by (auto simp: ec)
qed

lemma epoll_contract_ref: "epoll_contract (ref_sys bodies calls) ep rw_interest"
proof -
  have "ref_epoll_ctl ep op fd e w = (r, w') \<Longrightarrow>
    (if r = 0
     then (op = CTL_ADD \<longleftrightarrow> rw_interest w fd = None) \<and>
          rw_interest w' = (rw_interest w)(fd := (if op = CTL_DEL then None else Some e))
     else rw_interest w' = rw_interest w) \<and>
    (r = 17 \<longrightarrow> op = CTL_ADD \<and> rw_interest w fd \<noteq> None) \<and>
    (r = 2 \<longrightarrow> op \<noteq> CTL_ADD \<and> rw_interest w fd = None)" for op fd e w r w'
    by (cases op) (auto split: option.splits)
  then show ?thesis unfolding epoll_contract_def ref_sys_simps by blast
qed

text \<open>A sequence of calls of \<open>subscribe\<close>.\<close>

fun subscribe_all :: "'w sys \<Rightarrow> (int \<times> event) list \<Rightarrow> poller \<times> 'w \<Rightarrow> (poller \<times> 'w) result" where
  "subscribe_all sys [] st = Inr st"
| "subscribe_all sys (r # rs) st =
     res_bind (poller_subscribe sys (fst r) (snd r) st) (subscribe_all sys rs)"

lemma subscribe_all_mirrors:
  "subscribe_all sys rs (p, w) = Inr (p', w') \<Longrightarrow> epoll_contract sys (epfd p) interest \<Longrightarrow>
   mirrors interest p w \<Longrightarrow>
   mirrors interest p' w' \<and> epfd p' = epfd p \<and>
   (\<forall>fd. focus_of p' fd = (case map_of (rev rs) fd of None \<Rightarrow> focus_of p fd | Some e \<Rightarrow> e))"
proof (induction rs arbitrary: p w)
  case (Cons r rs)
  from Cons.prems(1) obtain p1 w1 where step: "poller_subscribe sys (fst r) (snd r) (p, w) = Inr (p1, w1)"
    and rest: "subscribe_all sys rs (p1, w1) = Inr (p', w')" by auto
  note one = poller_subscribe_focus(1,2) [OF step] mirrors_subscribe [OF Cons.prems(2,3) step]
  from Cons.IH [OF rest] one Cons.prems(2) show ?case
    by (auto simp: map_add_def split: option.splits)
qed simp

section \<open>Properties\<close>

text \<open>
  C17. The poller keeps the kernel's interest list. From a new poller on an empty epoll instance, after
  any sequence of calls of \<open>subscribe\<close> that return, the kernel has registered exactly the
  descriptors whose last subscription is not empty, each for the events of that subscription; and
  a call that then fails never fails because the descriptor is already, or not yet, registered.
\<close>

theorem poller_mirrors_kernel:
  assumes "poller_ctor sys w0 = Inr (p0, w1)" "epoll_contract sys (epfd p0) interest"
    and "\<forall>fd. interest w1 fd = None"
    and "subscribe_all sys rs (p0, w1) = Inr (p, w)"
  shows "interest w fd = (case map_of (rev rs) fd of
      None \<Rightarrow> None | Some e \<Rightarrow> if e = ev_NONE then None else Some e) \<and>
    (poller_subscribe sys g e (p, w) = Inl (Thrown ec) \<longrightarrow> ec_value ec \<noteq> 17 \<and> ec_value ec \<noteq> 2)"
proof (intro conjI)
  from assms(1) have new: "focus_of p0 = (\<lambda>_. 0)"
    by (auto simp: poller_ctor_def focus_of_def split: prod.splits sum.splits)
  then have "mirrors interest p0 w1" using assms(3) by (simp add: mirrors_def)
  from subscribe_all_mirrors [OF assms(4,2) this] new
  have m: "mirrors interest p w" "epfd p = epfd p0"
    and f: "focus_of p fd = (case map_of (rev rs) fd of None \<Rightarrow> 0 | Some e \<Rightarrow> e)"
    by (auto split: option.splits)
  from m(1) f show "interest w fd = (case map_of (rev rs) fd of
      None \<Rightarrow> None | Some e \<Rightarrow> if e = ev_NONE then None else Some e)"
    by (simp add: mirrors_def ev_NONE_def split: option.split)
  show "poller_subscribe sys g e (p, w) = Inl (Thrown ec) \<longrightarrow> ec_value ec \<noteq> 17 \<and> ec_value ec \<noteq> 2"
    using mirrors_subscribe_errors [OF _ m(1)] assms(2) m(2) by simp
qed

theorem poller_mirrors_kernel_witness:
  "\<exists>p w. subscribe_all (ref_sys (\<lambda>_. Stop True) (\<lambda>_. Stop True)) [(5, 1), (6, 4), (5, 5), (6, 0)]
      (\<lparr>epfd = 3, focus = [], evs = []\<rparr>, ref_start) = Inr (p, w) \<and>
    rw_interest w 5 = Some 5 \<and> rw_interest w 6 = None \<and> length (focus p) = 8"
proof -
  let ?sys = "ref_sys (\<lambda>_. Stop True) (\<lambda>_. Stop True)"
  let ?rs = "[(5, 1), (6, 4), (5, 5), (6, 0)] :: (int \<times> event) list"
  have ctor: "poller_ctor ?sys ref_start = Inr (\<lparr>epfd = 3, focus = [], evs = []\<rparr>, ref_start)"
    by (simp add: poller_ctor_def)
  have "case subscribe_all ?sys ?rs (\<lparr>epfd = 3, focus = [], evs = []\<rparr>, ref_start) of
      Inr (p, w) \<Rightarrow> length (focus p) = 8 | Inl f \<Rightarrow> False"
    by code_simp
  then obtain p w where run: "subscribe_all ?sys ?rs (\<lparr>epfd = 3, focus = [], evs = []\<rparr>, ref_start) = Inr (p, w)"
    and "length (focus p) = 8"
    by (auto split: sum.splits prod.splits)
  moreover have "rw_interest w 5 = Some 5" "rw_interest w 6 = None"
    using poller_mirrors_kernel [OF ctor epoll_contract_ref _ run]
    by (simp_all add: ref_start_def ev_NONE_def)
  ultimately show ?thesis by blast
qed

text \<open>
  C34. When the access to \<open>focus_\<close> is in range. \<open>adjust_size_\<close> grows the table to
  \<open>bit_ceil(index)\<close> elements, which is one too few for a power of two: \<open>subscribe\<close> accesses the
  table past its end exactly when the descriptor is a power of two not yet covered. The first
  descriptor the kernel hands out after standard streams and the epoll descriptor is such a number.
\<close>

theorem poller_subscribe_out_of_range:
  "(poller_subscribe sys fd e (p, w) = Inl Out_of_range \<longleftrightarrow>
      0 < fd \<and> length (focus p) \<le> nat fd \<and> power_of_two (nat fd)) \<and>
   poller_subscribe sys 4 e (\<lparr>epfd = 3, focus = [], evs = []\<rparr>, w) = Inl Out_of_range"
proof -
  have iff: "poller_subscribe sys fd e (p, w) = Inl Out_of_range \<longleftrightarrow>
      0 < fd \<and> length (focus p) \<le> nat fd \<and> power_of_two (nat fd)" for fd p w
  proof -
    have "poller_subscribe sys fd e (p, w) = Inl Out_of_range \<longleftrightarrow>
        0 < fd \<and> \<not> nat fd < length (focus (poller_adjust_size (nat fd) p))"
      by (auto simp: poller_subscribe_def Let_def res_bind_eq_Inl vec_set_def
          split: option.splits prod.splits if_splits)
    then show ?thesis using focus_table.in_range_adjust [of "nat fd" p] by auto
  qed
  have "power_of_two 4" unfolding power_of_two_iff by (rule exI [of _ 2]) simp
  then show ?thesis using iff by simp
qed

end
