(* ===== verification/BC_Scheduler.thy ===== *)
theory BC_Scheduler
  imports BC_Poller
begin

text \<open>
  The class \<open>scheduler\<close> of \<open>include/bc/async/scheduler.hpp\<close> and \<open>src/async/scheduler.cpp\<close>: the
  queue of timers, the lists of coroutines and callables waiting on each descriptor, the count of
  both, and the operations \<open>post_coro\<close>, \<open>update_descriptor_\<close>, \<open>handle_expired_time_nodes_\<close>,
  \<open>handle_triggered_descriptor_nodes_\<close> and \<open>run\<close>; and \<open>async_sleep\<close> of
  \<open>include/bc/async/sleep.hpp\<close>.

  The loops that need not end (the timers, a callable that is never ready, \<open>run\<close> itself) take a
  bound on the number of iterations and return \<open>Out_of_fuel\<close> when it is used up.
\<close>

section \<open>The queue of timers\<close>

text \<open>
  \<open>std::priority_queue\<close> with \<open>std::greater\<close>: \<open>top\<close> is a node with the least time. Which of
  several nodes with the same time comes first is not specified; no lemma depends on it.
\<close>

type_synonym time_node = "int \<times> nat"

definition pq_push :: "time_node \<Rightarrow> time_node list \<Rightarrow> time_node list" where
  "pq_push x q = insort_key fst x q"

definition pq_top :: "time_node list \<Rightarrow> time_node" where
  "pq_top q = hd q"

definition pq_pop :: "time_node list \<Rightarrow> time_node list" where
  "pq_pop q = tl q"

definition pq_inv :: "time_node list \<Rightarrow> bool" where
  "pq_inv q \<longleftrightarrow> sorted (map fst q)"

locale timer_queue =
  fixes inv :: "'q \<Rightarrow> bool" and elems :: "'q \<Rightarrow> time_node multiset"
    and push :: "time_node \<Rightarrow> 'q \<Rightarrow> 'q" and top :: "'q \<Rightarrow> time_node" and pop :: "'q \<Rightarrow> 'q"
  assumes inv_push: "inv q \<Longrightarrow> inv (push x q)"
    and elems_push: "inv q \<Longrightarrow> elems (push x q) = add_mset x (elems q)"
    and inv_pop: "inv q \<Longrightarrow> elems q \<noteq> {#} \<Longrightarrow> inv (pop q)"
    and elems_pop: "inv q \<Longrightarrow> elems q \<noteq> {#} \<Longrightarrow> elems q = add_mset (top q) (elems (pop q))"
    and top_least: "inv q \<Longrightarrow> x \<in># elems q \<Longrightarrow> fst (top q) \<le> fst x"
begin

lemma top_in: "inv q \<Longrightarrow> elems q \<noteq> {#} \<Longrightarrow> top q \<in># elems q"
  using elems_pop by (metis union_single_eq_member)

lemma size_pop: "inv q \<Longrightarrow> elems q \<noteq> {#} \<Longrightarrow> size (elems q) = Suc (size (elems (pop q)))"
  using elems_pop by (metis size_add_mset)

lemma pop_later: "inv q \<Longrightarrow> elems q \<noteq> {#} \<Longrightarrow> x \<in># elems (pop q) \<Longrightarrow> fst (top q) \<le> fst x"
  using elems_pop top_least by (metis union_iff add_mset_add_single)

lemma none_due: "inv q \<Longrightarrow> now < fst (top q) \<Longrightarrow> x \<in># elems q \<Longrightarrow> now < fst x"
  using top_least by fastforce

lemma due_split:
  "inv q \<Longrightarrow> elems q \<noteq> {#} \<Longrightarrow> fst (top q) \<le> now \<Longrightarrow>
   filter_mset (\<lambda>x. fst x \<le> now) (elems q) =
     add_mset (top q) (filter_mset (\<lambda>x. fst x \<le> now) (elems (pop q)))"
  using elems_pop by (metis filter_mset_add_mset)

end

interpretation timers: timer_queue pq_inv mset pq_push pq_top pq_pop
proof
  show "pq_inv (pq_push x q)" if "pq_inv q" for q x
    using that by (simp add: pq_inv_def pq_push_def sorted_insort_key)
  show "mset (pq_push x q) = add_mset x (mset q)" for q x
    by (simp add: pq_push_def)
  show "pq_inv (pq_pop q)" if "pq_inv q" for q
    using that by (simp add: pq_inv_def pq_pop_def map_tl sorted_tl)
  show "mset q = add_mset (pq_top q) (mset (pq_pop q))" if "mset q \<noteq> {#}" for q
    using that by (cases q) (auto simp: pq_top_def pq_pop_def)
  show "fst (pq_top q) \<le> fst x" if "pq_inv q" "x \<in># mset q" for q x
    using that by (cases q) (auto simp: pq_top_def pq_inv_def)
qed

section \<open>State\<close>

text \<open>A waiting coroutine or callable: its events, the reference for the reported events, itself.\<close>

record node =
  nd_ev :: event
  nd_revent :: nat
  nd_next :: next_t

record sched =
  coro_count :: nat
  time_nodes :: "time_node list"
  descriptor_nodes :: "node list list"
  the_poller :: poller

text \<open>\<open>s_period\<close>: one second.\<close>

definition s_period :: int where
  "s_period = 1000000000"

section \<open>Posting\<close>

definition sched_adjust_size :: "nat \<Rightarrow> sched \<Rightarrow> sched" where
  "sched_adjust_size index s =
     (if length (descriptor_nodes s) > index then s
      else let need = bit_ceil index
           in s\<lparr>descriptor_nodes := vec_resize need [] (descriptor_nodes s)\<rparr>)"

text \<open>The poller's operations on the poller inside the scheduler.\<close>

definition sched_subscribe :: "'w sys \<Rightarrow> int \<Rightarrow> event \<Rightarrow> sched \<times> 'w \<Rightarrow> (sched \<times> 'w) result" where
  "sched_subscribe sys fd e st =
     res_bind (poller_subscribe sys fd e (the_poller (fst st), snd st))
       (\<lambda>(p, w). Inr ((fst st)\<lparr>the_poller := p\<rparr>, w))"

definition sched_unsubscribe :: "'w sys \<Rightarrow> int \<Rightarrow> sched \<times> 'w \<Rightarrow> (sched \<times> 'w) result" where
  "sched_unsubscribe sys fd st =
     res_bind (poller_unsubscribe sys fd (the_poller (fst st), snd st))
       (\<lambda>(p, w). Inr ((fst st)\<lparr>the_poller := p\<rparr>, w))"

text \<open>The union of the events of the nodes of a descriptor, as the loop of \<open>update_descriptor_\<close> computes it.\<close>

definition node_events :: "node list \<Rightarrow> event" where
  "node_events nodes = foldl (\<lambda>e nd. e OR nd_ev nd) ev_NONE nodes"

definition update_descriptor :: "'w sys \<Rightarrow> int \<Rightarrow> sched \<times> 'w \<Rightarrow> (sched \<times> 'w) result" where
  "update_descriptor sys fd st =
     res_bind (vec_get (descriptor_nodes (fst st)) (nat fd)) (\<lambda>nodes.
       sched_subscribe sys fd (node_events nodes) st)"

definition post_timer :: "int \<Rightarrow> nat \<Rightarrow> sched \<Rightarrow> sched" where
  "post_timer tp coro s =
     s\<lparr>time_nodes := pq_push (tp, coro) (time_nodes s), coro_count := coro_count s + 1\<rparr>"

text \<open>\<open>post_coro(fd, e, re, coro)\<close> and \<open>post_coro(fd, e, re, proxy)\<close> have the same body.\<close>

definition post_descriptor ::
    "'w sys \<Rightarrow> int \<Rightarrow> event \<Rightarrow> nat \<Rightarrow> next_t \<Rightarrow> sched \<times> 'w \<Rightarrow> (sched \<times> 'w) result" where
  "post_descriptor sys fd e re nx st =
     (if \<not> fd > 0 then Inl Assert_failed
      else let s = sched_adjust_size (nat fd) (fst st) in
        res_bind (vec_get (descriptor_nodes s) (nat fd)) (\<lambda>nodes.
        res_bind (vec_set (descriptor_nodes s) (nat fd)
            (nodes @ [\<lparr>nd_ev = e, nd_revent = re, nd_next = nx\<rparr>])) (\<lambda>ds.
        res_bind (update_descriptor sys fd (s\<lparr>descriptor_nodes := ds\<rparr>, snd st)) (\<lambda>(s1, w1).
        Inr (s1\<lparr>coro_count := coro_count s1 + 1\<rparr>, w1)))))"

definition post_proxy ::
    "'w sys \<Rightarrow> int \<Rightarrow> event \<Rightarrow> nat \<Rightarrow> nat \<Rightarrow> sched \<times> 'w \<Rightarrow> (sched \<times> 'w) result" where
  "post_proxy sys fd e re p = post_descriptor sys fd e re (Proxy p)"

section \<open>Resuming\<close>

text \<open>
  Nothing thrown inside a coroutine leaves it: \<open>unhandled_exception\<close> terminates, and so do the
  \<open>noexcept\<close> functions \<open>await_suspend\<close> and the destructors that call the scheduler.
\<close>

fun contain :: "'a result \<Rightarrow> 'a result" where
  "contain (Inl (Thrown ec)) = Inl Terminated"
| "contain r = r"

primrec ending_fault :: "ending \<Rightarrow> fault" where
  "ending_fault By_abort = Aborted"
| "ending_fault By_assert = Assert_failed"
| "ending_fault By_terminate = Terminated"

text \<open>Running a coroutine up to where it suspends, or a callable up to its return.\<close>

primrec run_co :: "'w sys \<Rightarrow> 'w co \<Rightarrow> sched \<times> 'w \<Rightarrow> (bool \<times> sched \<times> 'w) result" where
  "run_co sys (Stop b) = (\<lambda>st. Inr (b, st))"
| "run_co sys (Effect g k) = (\<lambda>st. run_co sys (k (snd st)) (fst st, g (snd st)))"
| "run_co sys (Post_timer tp h c) = (\<lambda>st. run_co sys c (post_timer tp h (fst st), snd st))"
| "run_co sys (Post_descriptor fd e re nx c) =
     (\<lambda>st. res_bind (contain (post_descriptor sys fd e re nx st)) (run_co sys c))"
| "run_co sys (Unsubscribe fd c) =
     (\<lambda>st. res_bind (contain (sched_unsubscribe sys fd st)) (run_co sys c))"
| "run_co sys (Die d) = (\<lambda>st. Inl (ending_fault d))"

definition resume :: "'w sys \<Rightarrow> nat \<Rightarrow> sched \<times> 'w \<Rightarrow> (sched \<times> 'w) result" where
  "resume sys h st = res_bind (run_co sys (sys_resume sys h) st) (\<lambda>(b, st1). Inr st1)"

text \<open>The visit of \<open>next\<close>: a handle is resumed and counts as ready, a callable tells.\<close>

definition run_next :: "'w sys \<Rightarrow> next_t \<Rightarrow> sched \<times> 'w \<Rightarrow> (bool \<times> sched \<times> 'w) result" where
  "run_next sys nx st =
     (case nx of
        Handle h \<Rightarrow> res_bind (resume sys h st) (\<lambda>st1. Inr (True, st1))
      | Proxy p \<Rightarrow> run_co sys (sys_call sys p) st)"

section \<open>The two handlers and the loop\<close>

fun handle_expired :: "nat \<Rightarrow> 'w sys \<Rightarrow> nat \<Rightarrow> sched \<times> 'w \<Rightarrow> (bool \<times> sched \<times> 'w) result" where
  "handle_expired 0 sys expired st = Inl Out_of_fuel"
| "handle_expired (Suc n) sys expired st =
     (let s = fst st; w = snd st in
      if time_nodes s = [] then Inr (expired > 0, s, w)
      else let (now, w1) = sys_now sys w in
        if \<not> fst (pq_top (time_nodes s)) \<le> now then Inr (expired > 0, s, w1)
        else if sys_done sys (snd (pq_top (time_nodes s))) w1 then Inl Assert_failed
        else res_bind (resume sys (snd (pq_top (time_nodes s)))
                         (s\<lparr>time_nodes := pq_pop (time_nodes s)\<rparr>, w1))
          (\<lambda>(s2, w2). handle_expired n sys (expired + 1)
             (s2\<lparr>coro_count := size_dec (coro_count s2)\<rparr>, w2)))"

text \<open>
  The loop of the descriptor handler over the spliced list: \<open>kept\<close> are the nodes before \<open>it\<close>,
  the list argument those from \<open>it\<close> on. A node that was run but is not ready is not passed:
  the iterator does not move.
\<close>

fun handle_nodes ::
    "nat \<Rightarrow> 'w sys \<Rightarrow> event \<Rightarrow> node list \<Rightarrow> node list \<Rightarrow> sched \<times> 'w \<Rightarrow>
     (node list \<times> sched \<times> 'w) result" where
  "handle_nodes n sys e kept [] st = Inr (kept, st)"
| "handle_nodes 0 sys e kept (nd # rest) st = Inl Out_of_fuel"
| "handle_nodes (Suc n) sys e kept (nd # rest) st =
     (if nd_ev nd AND e \<noteq> 0 then
        res_bind (run_next sys (nd_next nd) (fst st, sys_store sys (nd_revent nd) e (snd st)))
          (\<lambda>(ready, s1, w1).
             if ready then
               handle_nodes n sys e kept rest (s1\<lparr>coro_count := size_dec (coro_count s1)\<rparr>, w1)
             else handle_nodes n sys e kept (nd # rest) (s1, w1))
      else handle_nodes n sys e (kept @ [nd]) rest st)"

text \<open>The lambda \<open>handler\<close>: splice the list out, run it, splice what is left back in front.\<close>

definition handle_event :: "nat \<Rightarrow> 'w sys \<Rightarrow> int \<Rightarrow> event \<Rightarrow> sched \<times> 'w \<Rightarrow> (sched \<times> 'w) result" where
  "handle_event n sys fd e st =
     (if fd < 0 then Inl Out_of_range
      else let s = fst st; w = snd st in
        res_bind (vec_get (descriptor_nodes s) (nat fd)) (\<lambda>nodes.
        res_bind (handle_nodes n sys e [] nodes
            (s\<lparr>descriptor_nodes := (descriptor_nodes s)[nat fd := []]\<rparr>, w)) (\<lambda>(kept, s1, w1).
        res_bind (vec_get (descriptor_nodes s1) (nat fd)) (\<lambda>posted.
        update_descriptor sys fd
          (s1\<lparr>descriptor_nodes := (descriptor_nodes s1)[nat fd := kept @ posted]\<rparr>, w1)))))"

definition handle_triggered :: "nat \<Rightarrow> 'w sys \<Rightarrow> int \<Rightarrow> sched \<times> 'w \<Rightarrow> (sched \<times> 'w) result" where
  "handle_triggered n sys rtime st =
     poll sys the_poller the_poller_update (handle_event n sys) rtime st"

text \<open>The lambda \<open>period\<close>, for the value of the clock it read.\<close>

definition next_period :: "time_node list \<Rightarrow> int \<Rightarrow> int" where
  "next_period q now =
     (if q \<noteq> [] \<and> fst (pq_top q) \<le> now + s_period then fst (pq_top q) - now else s_period)"

text \<open>One pass through the body of the loop of \<open>run\<close>, and the loop.\<close>

definition iteration :: "nat \<Rightarrow> 'w sys \<Rightarrow> sched \<times> 'w \<Rightarrow> (sched \<times> 'w) result" where
  "iteration n sys st =
     res_bind (handle_expired n sys 0 st) (\<lambda>(any, s1, w1).
       if any then Inr (s1, w1)
       else let (now, w2) = sys_now sys w1; period = next_period (time_nodes s1) now in
         if coro_count s1 > length (time_nodes s1) then handle_triggered n sys period (s1, w2)
         else Inr (s1, sys_sleep sys period w2))"

fun run :: "nat \<Rightarrow> 'w sys \<Rightarrow> sched \<times> 'w \<Rightarrow> (sched \<times> 'w) result" where
  "run 0 sys st = Inl Out_of_fuel"
| "run (Suc n) sys st =
     (if coro_count (fst st) = 0 then Inr st
      else res_bind (iteration n sys st) (run n sys))"

text \<open>A scheduler as its default constructor makes it, around a poller.\<close>

definition new_sched :: "poller \<Rightarrow> sched" where
  "new_sched p = \<lparr>coro_count = 0, time_nodes = [], descriptor_nodes = [], the_poller = p\<rparr>"

section \<open>Sleeping\<close>

text \<open>
  \<open>co_await async_sleep(period)\<close> in the coroutine \<open>h\<close>, which goes on with \<open>k\<close>: the constructor
  reads the clock, \<open>await_ready\<close> reads it again, \<open>await_suspend\<close> posts.
\<close>

definition async_sleep :: "'w sys \<Rightarrow> int \<Rightarrow> nat \<Rightarrow> 'w co \<Rightarrow> 'w co" where
  "async_sleep sys period h k =
     Effect (\<lambda>w. snd (sys_now sys w)) (\<lambda>w.
       let tp = fst (sys_now sys w) + period in
       Effect (\<lambda>w. snd (sys_now sys w)) (\<lambda>w.
         if fst (sys_now sys w) \<ge> tp then k else Post_timer tp h (Stop True)))"

section \<open>The table of waiting lists\<close>

lemma nodes_adjust:
  "length (descriptor_nodes (sched_adjust_size i s)) =
     (if i < length (descriptor_nodes s) then length (descriptor_nodes s) else bit_ceil i)"
  "j < length (descriptor_nodes (sched_adjust_size i s)) \<Longrightarrow>
   descriptor_nodes (sched_adjust_size i s) ! j =
     (if j < length (descriptor_nodes s) then descriptor_nodes s ! j else [])"
  by (auto simp: sched_adjust_size_def Let_def nth_vec_resize)

interpretation nodes_table: growing_table
  "\<lambda>_. True" "\<lambda>s. length (descriptor_nodes s)" "\<lambda>s i. descriptor_nodes s ! i" "[]" sched_adjust_size
  by unfold_locales (simp_all add: nodes_adjust)

lemma sched_adjust_frame [simp]:
  "coro_count (sched_adjust_size i s) = coro_count s"
  "time_nodes (sched_adjust_size i s) = time_nodes s"
  "the_poller (sched_adjust_size i s) = the_poller s"
  by (simp_all add: sched_adjust_size_def Let_def)

text \<open>The waiting list of a descriptor, empty outside the table.\<close>

definition nodes_of :: "sched \<Rightarrow> int \<Rightarrow> node list" where
  "nodes_of s fd =
     (if 0 \<le> fd \<and> nat fd < length (descriptor_nodes s) then descriptor_nodes s ! nat fd else [])"

lemma nodes_of_adjust [simp]: "nodes_of (sched_adjust_size i s) fd = nodes_of s fd"
  using nodes_table.size_grows [where s = s and i = i]
    nodes_table.get_adjust [where s = s and i = i and j = "nat fd"]
  by (auto simp: nodes_of_def)

lemma nodes_of_frame [simp]:
  "nodes_of (s\<lparr>coro_count := c\<rparr>) = nodes_of s" "nodes_of (s\<lparr>time_nodes := q\<rparr>) = nodes_of s"
  "nodes_of (s\<lparr>the_poller := p\<rparr>) = nodes_of s"
  by (simp_all add: nodes_of_def fun_eq_iff)

lemma nodes_of_update:
  "0 \<le> fd \<Longrightarrow> nat fd < length (descriptor_nodes s) \<Longrightarrow>
   nodes_of (s\<lparr>descriptor_nodes := (descriptor_nodes s)[nat fd := xs]\<rparr>) = (nodes_of s)(fd := xs)"
  by (auto simp: nodes_of_def fun_eq_iff nth_list_update)

text \<open>All that waits: timers and nodes.\<close>

definition waiting_nodes :: "sched \<Rightarrow> nat" where
  "waiting_nodes s = sum_list (map length (descriptor_nodes s))"

definition pending :: "sched \<Rightarrow> nat" where
  "pending s = length (time_nodes s) + waiting_nodes s"

lemma sum_list_update_length:
  "i < length xss \<Longrightarrow>
   sum_list (map length (xss[i := ys])) + length (xss ! i) = sum_list (map length xss) + length ys"
proof (induction xss arbitrary: i)
  case (Cons xs xss)
  show ?case
  proof (cases i)
    case (Suc j)
    with Cons.IH [of j] Cons.prems show ?thesis by simp
  qed simp
qed simp

lemma waiting_nodes_update:
  "i < length (descriptor_nodes s) \<Longrightarrow>
   waiting_nodes (s\<lparr>descriptor_nodes := (descriptor_nodes s)[i := xs]\<rparr>) + length (descriptor_nodes s ! i)
     = waiting_nodes s + length xs"
  by (simp add: waiting_nodes_def sum_list_update_length)

lemma waiting_nodes_adjust [simp]: "waiting_nodes (sched_adjust_size i s) = waiting_nodes s"
proof (cases "i < length (descriptor_nodes s)")
  case False
  then have "length (descriptor_nodes s) \<le> bit_ceil i" using bit_ceil_ge [of i] by linarith
  with False show ?thesis
    by (simp add: waiting_nodes_def sched_adjust_size_def Let_def vec_resize_def sum_list_replicate)
qed (simp add: waiting_nodes_def sched_adjust_size_def)

lemma waiting_nodes_zero: "waiting_nodes s = 0 \<longleftrightarrow> (\<forall>fd. nodes_of s fd = [])"
proof
  assume "waiting_nodes s = 0"
  then show "\<forall>fd. nodes_of s fd = []"
    by (auto simp: waiting_nodes_def nodes_of_def)
next
  assume none: "\<forall>fd. nodes_of s fd = []"
  have "xs = []" if xs: "xs \<in> set (descriptor_nodes s)" for xs
  proof -
    from xs obtain i where "i < length (descriptor_nodes s)" "xs = descriptor_nodes s ! i"
      by (auto simp: in_set_conv_nth)
    then show ?thesis using none [rule_format, of "int i"] by (simp add: nodes_of_def)
  qed
  then show "waiting_nodes s = 0" by (simp add: waiting_nodes_def)
qed

section \<open>The operations, case by case\<close>

lemma sched_subscribe_Inr:
  assumes "sched_subscribe sys fd e (s, w) = Inr (s', w')"
  obtains p where "poller_subscribe sys fd e (the_poller s, w) = Inr (p, w')" "s' = s\<lparr>the_poller := p\<rparr>"
  using assms by (auto simp: sched_subscribe_def)

lemma update_descriptor_Inr:
  assumes "update_descriptor sys fd (s, w) = Inr (s', w')"
  shows "sched_subscribe sys fd (node_events (nodes_of s fd)) (s, w) = Inr (s', w')" "0 < fd"
    "nat fd < length (descriptor_nodes s)"
proof -
  from assms have i: "nat fd < length (descriptor_nodes s)"
    and sub: "sched_subscribe sys fd (node_events (descriptor_nodes s ! nat fd)) (s, w) = Inr (s', w')"
    by (auto simp: update_descriptor_def)
  then have "0 < fd" using poller_subscribe_Inr(1) by (auto elim!: sched_subscribe_Inr)
  with i sub show "sched_subscribe sys fd (node_events (nodes_of s fd)) (s, w) = Inr (s', w')" "0 < fd"
    "nat fd < length (descriptor_nodes s)" by (simp_all add: nodes_of_def)
qed

lemma post_descriptor_Inr:
  assumes "post_descriptor sys fd e re nx (s, w) = Inr (s', w')"
  obtains s2 where "0 < fd" "nat fd < length (descriptor_nodes (sched_adjust_size (nat fd) s))"
    "update_descriptor sys fd ((sched_adjust_size (nat fd) s)\<lparr>descriptor_nodes :=
       (descriptor_nodes (sched_adjust_size (nat fd) s))[nat fd :=
          nodes_of s fd @ [\<lparr>nd_ev = e, nd_revent = re, nd_next = nx\<rparr>]]\<rparr>, w) = Inr (s2, w')"
    "s' = s2\<lparr>coro_count := coro_count s2 + 1\<rparr>"
proof -
  let ?a = "sched_adjust_size (nat fd) s"
  from assms have fd: "0 < fd" "nat fd < length (descriptor_nodes ?a)"
    by (auto simp: post_descriptor_def Let_def split: if_splits)
  then have "descriptor_nodes ?a ! nat fd = nodes_of s fd"
    using nodes_of_adjust [of "nat fd" s fd] by (simp add: nodes_of_def del: nodes_of_adjust)
  with assms fd that show ?thesis
    by (auto simp: post_descriptor_def Let_def split: if_splits)
qed

lemma contain_Inr [simp]: "contain r = Inr x \<longleftrightarrow> r = Inr x"
  by (cases r rule: contain.cases) auto

lemma contain_not_thrown: "contain r \<noteq> Inl (Thrown ec)"
  by (cases r rule: contain.cases) auto

lemma ending_fault_cases: "ending_fault d = Aborted \<or> ending_fault d = Assert_failed \<or> ending_fault d = Terminated"
  by (cases d) simp_all

lemma ending_fault_not [simp]: "ending_fault d \<noteq> Thrown ec" "ending_fault d \<noteq> Dangling"
  by (cases d; simp)+

lemma run_co_not_thrown: "run_co sys c st \<noteq> Inl (Thrown ec)"
  by (induction c arbitrary: st) (auto simp: res_bind_eq_Inl contain_not_thrown)

end
