(* ===== verification/BC_Sched_Inv.thy ===== *)
theory BC_Sched_Inv
  imports BC_Scheduler
begin

text \<open>
  Invariants of the scheduler. A relation between the scheduler and the outside is kept by a
  coroutine if every call of the scheduler's interface keeps it (\<open>api_invariant\<close>), and by the
  loop of \<open>run\<close> if also the handlers' own steps keep it (\<open>loop_invariant\<close>). The relation has
  two more arguments for the states inside the handlers: how many timers have been popped and not
  yet counted down, and which nodes have been spliced out of which descriptor's list.

  The instances: the count of waiting coroutines, the sizes of the tables, the mirror of the
  kernel's interest list, and the registration of the events that are waited for.
\<close>

section \<open>What a coroutine keeps\<close>

locale api_invariant =
  fixes sys :: "'w sys" and E :: "('w \<Rightarrow> 'w) set" and P :: "int set" and U :: "int set"
    and R :: "nat \<Rightarrow> (int \<times> node list) option \<Rightarrow> sched \<Rightarrow> 'w \<Rightarrow> bool"
  assumes R_outside: "g \<in> E \<Longrightarrow> R t d s w \<Longrightarrow> R t d s (g w)"
    and R_timer: "R t d s w \<Longrightarrow> R t d (post_timer tp h s) w"
    and R_post: "fd \<in> P \<Longrightarrow> R t d s w \<Longrightarrow> post_descriptor sys fd e re nx (s, w) = Inr (s', w') \<Longrightarrow> R t d s' w'"
    and R_unsubscribe:
      "fd \<in> U \<Longrightarrow> R t d s w \<Longrightarrow> sched_unsubscribe sys fd (s, w) = Inr (s', w') \<Longrightarrow> R t d s' w'"
begin

lemma run_co_R:
  "co_within E P U c \<Longrightarrow> R t d s w \<Longrightarrow> run_co sys c (s, w) = Inr (b, s', w') \<Longrightarrow> R t d s' w'"
proof (induction c arbitrary: s w)
  case (Effect g k)
  have "R t d s (g w)" using Effect.prems(1,2) by (auto intro: R_outside)
  then show ?case using Effect.IH [of "k w" s "g w"] Effect.prems by simp
next
  case (Post_timer tp h c)
  then show ?case by (auto intro: R_timer)
next
  case (Post_descriptor fd e re nx c)
  then show ?case by (auto intro: R_post)
next
  case (Unsubscribe fd c)
  then show ?case by (auto intro: R_unsubscribe)
qed simp_all

end

section \<open>What the loop keeps\<close>

text \<open>The outside steps of the scheduler itself and of every coroutine are in \<open>E\<close>.\<close>

definition behaved :: "'w sys \<Rightarrow> ('w \<Rightarrow> 'w) set \<Rightarrow> int set \<Rightarrow> int set \<Rightarrow> bool" where
  "behaved sys E P U \<longleftrightarrow>
     (\<lambda>w. snd (sys_now sys w)) \<in> E \<and> (\<forall>r e. sys_store sys r e \<in> E) \<and> (\<forall>ns. sys_sleep sys ns \<in> E) \<and>
     (\<forall>ep n t. (\<lambda>w. snd (sys_epoll_wait sys ep n t w)) \<in> E) \<and>
     (\<forall>h. co_within E P U (sys_resume sys h)) \<and> (\<forall>p. co_within E P U (sys_call sys p))"

lemma co_within_mono: "co_within E P U c \<Longrightarrow> E \<subseteq> E' \<Longrightarrow> P \<subseteq> P' \<Longrightarrow> U \<subseteq> U' \<Longrightarrow> co_within E' P' U' c"
  by (induction c) auto

lemma behaved_mono:
  assumes "behaved sys E P U" "E \<subseteq> E'" "P \<subseteq> P'" "U \<subseteq> U'"
  shows "behaved sys E' P' U'"
proof -
  have "co_within E P U c \<Longrightarrow> co_within E' P' U' c" for c
    using co_within_mono assms(2-4) by blast
  with assms show ?thesis unfolding behaved_def by blast
qed

lemma behaved_UNIV [simp]: "behaved sys UNIV UNIV UNIV"
  by (simp add: behaved_def)

lemma deliver_keeps:
  assumes "\<And>fd e st st'. P st \<Longrightarrow> handler fd e st = Inr st' \<Longrightarrow> P st'"
  shows "P st \<Longrightarrow> deliver get handler es n st = Inr st' \<Longrightarrow> P st'"
  by (induction es arbitrary: st) (auto split: if_splits intro: assms)

text \<open>\<open>poll\<close> once the kernel has returned events: the handlers run on the filled buffer.\<close>

lemma handle_triggered_ready:
  assumes "\<not> ms_of_ns p < 0"
    and "sys_epoll_wait sys (epfd (the_poller s)) (length (evs (the_poller s))) (ms_of_ns p) w = (Inr ready, w1)"
  obtains es s1 where "length es = length (evs (the_poller s))"
    "s1 = s\<lparr>the_poller := (the_poller s)\<lparr>evs := es\<rparr>\<rparr>"
    "handle_triggered n sys p (s, w) =
      deliver the_poller (handle_event n sys) (take (length ready) es) (length es) (s1, w1)"
proof -
  define es where "es = take (length (evs (the_poller s))) (ready @ drop (length ready) (evs (the_poller s)))"
  define s1 where "s1 = s\<lparr>the_poller := (the_poller s)\<lparr>evs := es\<rparr>\<rparr>"
  have upd: "the_poller_update (\<lambda>p. p\<lparr>evs := take (length (evs p)) (ready @ drop (length ready) (evs p))\<rparr>) s = s1"
    by (cases s) (simp add: es_def s1_def)
  have evs: "evs (the_poller s1) = es" by (simp add: s1_def)
  have run: "handle_triggered n sys p (s, w) =
      deliver the_poller (handle_event n sys) (take (length ready) es) (length es) (s1, w1)"
    using assms unfolding handle_triggered_def poll_def Let_def fst_conv snd_conv upd evs
    by (simp only: prod.case sum.case if_False upd evs)
  have len: "length es = length (evs (the_poller s))" by (simp add: es_def)
  show ?thesis by (rule that [OF len s1_def run])
qed

locale loop_invariant = api_invariant +
  assumes R_pop:
      "R t d s w \<Longrightarrow> time_nodes s \<noteq> [] \<Longrightarrow> R (Suc t) d (s\<lparr>time_nodes := pq_pop (time_nodes s)\<rparr>) w"
    and R_timer_done: "R (Suc t) d s w \<Longrightarrow> R t d (s\<lparr>coro_count := size_dec (coro_count s)\<rparr>) w"
    and R_splice_out:
      "R t None s w \<Longrightarrow> 0 \<le> fd \<Longrightarrow> nat fd < length (descriptor_nodes s) \<Longrightarrow>
       R t (Some (fd, nodes_of s fd)) (s\<lparr>descriptor_nodes := (descriptor_nodes s)[nat fd := []]\<rparr>) w"
    and R_node_done:
      "R t (Some (fd, xs @ nd # ys)) s w \<Longrightarrow>
       R t (Some (fd, xs @ ys)) (s\<lparr>coro_count := size_dec (coro_count s)\<rparr>) w"
    and R_splice_in:
      "R t (Some (fd, xs)) s w \<Longrightarrow> 0 \<le> fd \<Longrightarrow> nat fd < length (descriptor_nodes s) \<Longrightarrow>
       update_descriptor sys fd
         (s\<lparr>descriptor_nodes := (descriptor_nodes s)[nat fd := xs @ nodes_of s fd]\<rparr>, w) = Inr (s', w') \<Longrightarrow>
       R t None s' w'"
    and R_buffer:
      "R t d s w \<Longrightarrow> length es = length (evs (the_poller s)) \<Longrightarrow>
       R t d (s\<lparr>the_poller := (the_poller s)\<lparr>evs := es\<rparr>\<rparr>) w"
begin

lemma resume_R:
  "behaved sys E P U \<Longrightarrow> R t d s w \<Longrightarrow> resume sys h (s, w) = Inr (s', w') \<Longrightarrow> R t d s' w'"
  by (auto simp: resume_def behaved_def intro: run_co_R)

lemma run_next_R:
  "behaved sys E P U \<Longrightarrow> R t d s w \<Longrightarrow> run_next sys nx (s, w) = Inr (b, s', w') \<Longrightarrow> R t d s' w'"
  by (cases nx) (auto simp: run_next_def intro: resume_R run_co_R simp: behaved_def)

lemma now_R: "behaved sys E P U \<Longrightarrow> R t d s w \<Longrightarrow> sys_now sys w = (now, w') \<Longrightarrow> R t d s w'"
  using R_outside [of "\<lambda>w. snd (sys_now sys w)" t d s w] by (simp add: behaved_def)

lemma handle_expired_R:
  "behaved sys E P U \<Longrightarrow> R t d s w \<Longrightarrow> handle_expired n sys k (s, w) = Inr (b, s', w') \<Longrightarrow> R t d s' w'"
proof (induction n arbitrary: k s w)
  case (Suc n)
  show ?case
  proof (cases "time_nodes s = []")
    case True
    with Suc.prems show ?thesis by simp
  next
    case False
    obtain now w1 where now: "sys_now sys w = (now, w1)" by fastforce
    have w1: "R t d s w1" using now_R Suc.prems(1,2) now by blast
    show ?thesis
    proof (cases "fst (pq_top (time_nodes s)) \<le> now")
      case False
      with Suc.prems now w1 \<open>time_nodes s \<noteq> []\<close> show ?thesis by simp
    next
      case True
      with Suc.prems(3) now \<open>time_nodes s \<noteq> []\<close> obtain s2 w2 where
        res: "resume sys (snd (pq_top (time_nodes s))) (s\<lparr>time_nodes := pq_pop (time_nodes s)\<rparr>, w1)
          = Inr (s2, w2)"
        and rest: "handle_expired n sys (k + 1) (s2\<lparr>coro_count := size_dec (coro_count s2)\<rparr>, w2)
          = Inr (b, s', w')"
        by (auto split: if_splits)
      from res have "R (Suc t) d s2 w2"
        using resume_R Suc.prems(1) R_pop w1 \<open>time_nodes s \<noteq> []\<close> by blast
      then show ?thesis using Suc.IH [OF Suc.prems(1) R_timer_done rest] by blast
    qed
  qed
qed simp

lemma handle_nodes_R:
  "behaved sys E P U \<Longrightarrow> R t (Some (fd, kept @ nodes)) s w \<Longrightarrow>
   handle_nodes n sys e kept nodes (s, w) = Inr (kept', s', w') \<Longrightarrow> R t (Some (fd, kept')) s' w'"
proof (induction n arbitrary: kept nodes s w)
  case 0
  then show ?case by (cases nodes) auto
next
  case (Suc n)
  show ?case
  proof (cases nodes)
    case Nil
    with Suc.prems show ?thesis by simp
  next
    case (Cons nd rest)
    show ?thesis
    proof (cases "nd_ev nd AND e = 0")
      case True
      with Suc.prems Cons show ?thesis using Suc.IH [of "kept @ [nd]" rest s w] by simp
    next
      case False
      with Suc.prems Cons obtain ready s1 w1 where
        run: "run_next sys (nd_next nd) (s, sys_store sys (nd_revent nd) e w) = Inr (ready, s1, w1)"
        and rest: "(if ready then
            handle_nodes n sys e kept rest (s1\<lparr>coro_count := size_dec (coro_count s1)\<rparr>, w1)
          else handle_nodes n sys e kept (nd # rest) (s1, w1)) = Inr (kept', s', w')"
        by auto
      have "R t (Some (fd, kept @ nodes)) s (sys_store sys (nd_revent nd) e w)"
        using R_outside [OF _ Suc.prems(2)] Suc.prems(1) by (simp add: behaved_def)
      then have r1: "R t (Some (fd, kept @ nd # rest)) s1 w1"
        using run_next_R [OF Suc.prems(1) _ run] Cons by simp
      then have "R t (Some (fd, kept @ rest)) (s1\<lparr>coro_count := size_dec (coro_count s1)\<rparr>) w1"
        by (rule R_node_done)
      with rest r1 show ?thesis using Suc.IH [OF Suc.prems(1)] by (auto split: if_splits)
    qed
  qed
qed

lemma handle_event_R:
  assumes "behaved sys E P U" "R t None s w" "handle_event n sys fd e (s, w) = Inr (s', w')"
  shows "R t None s' w'"
proof -
  from assms(3) obtain kept s1 w1 where fd: "0 \<le> fd" "nat fd < length (descriptor_nodes s)"
    and run: "handle_nodes n sys e [] (nodes_of s fd)
        (s\<lparr>descriptor_nodes := (descriptor_nodes s)[nat fd := []]\<rparr>, w) = Inr (kept, s1, w1)"
    and fd1: "nat fd < length (descriptor_nodes s1)"
    and upd: "update_descriptor sys fd
        (s1\<lparr>descriptor_nodes := (descriptor_nodes s1)[nat fd := kept @ nodes_of s1 fd]\<rparr>, w1) = Inr (s', w')"
    by (auto simp: handle_event_def Let_def nodes_of_def split: if_splits)
  have "R t (Some (fd, kept)) s1 w1"
    using handle_nodes_R [OF assms(1) _ run] R_splice_out [OF assms(2) fd] by simp
  then show ?thesis using fd(1) fd1 upd by (rule R_splice_in)
qed

lemma handle_triggered_R:
  assumes "behaved sys E P U" "R t None s w" "handle_triggered n sys p (s, w) = Inr (s', w')"
  shows "R t None s' w'"
proof -
  obtain res w1 where wait: "sys_epoll_wait sys (epfd (the_poller s)) (length (evs (the_poller s)))
      (ms_of_ns p) w = (res, w1)" by fastforce
  have w1: "R t None s w1"
    using R_outside [OF _ assms(2), of "\<lambda>w. snd (sys_epoll_wait sys (epfd (the_poller s))
        (length (evs (the_poller s))) (ms_of_ns p) w)"] assms(1) wait
    by (simp add: behaved_def)
  show ?thesis
  proof (cases res)
    case (Inl errno)
    with assms wait w1 show ?thesis
      by (auto simp: handle_triggered_def poll_def Let_def split: if_splits)
  next
    case (Inr ready)
    show ?thesis
    proof (cases "ms_of_ns p < 0")
      case True
      with assms show ?thesis by (simp add: handle_triggered_def poll_def)
    next
      case False
      from handle_triggered_ready [OF False wait [unfolded Inr], of n] obtain es s1 where
        es: "length es = length (evs (the_poller s))" "s1 = s\<lparr>the_poller := (the_poller s)\<lparr>evs := es\<rparr>\<rparr>"
        and eq: "handle_triggered n sys p (s, w) =
          deliver the_poller (handle_event n sys) (take (length ready) es) (length es) (s1, w1)" .
      from assms(3) eq have run: "deliver the_poller (handle_event n sys) (take (length ready) es) (length es) (s1, w1)
          = Inr (s', w')" by simp
      have "R t None s1 w1" unfolding es(2) by (rule R_buffer [OF w1 es(1)])
      then have start: "(\<lambda>st. R t None (fst st) (snd st)) (s1, w1)" by simp
      have "(\<lambda>st. R t None (fst st) (snd st)) (s', w')"
      proof (rule deliver_keeps [where P = "\<lambda>st. R t None (fst st) (snd st)", OF _ start run])
        fix fd e and st st' :: "sched \<times> 'a"
        assume "R t None (fst st) (snd st)" "handle_event n sys fd e st = Inr st'"
        then show "R t None (fst st') (snd st')"
          using handle_event_R [OF assms(1), of t "fst st" "snd st" n fd e "fst st'" "snd st'"] by simp
      qed
      then show ?thesis by simp
    qed
  qed
qed

lemma iteration_R:
  assumes "behaved sys E P U" "R t None s w" "iteration n sys (s, w) = Inr (s', w')"
  shows "R t None s' w'"
proof -
  from assms(3) obtain any s1 w1 where exp: "handle_expired n sys 0 (s, w) = Inr (any, s1, w1)"
    and rest: "(if any then Inr (s1, w1)
       else let (now, w2) = sys_now sys w1; period = next_period (time_nodes s1) now in
         if coro_count s1 > length (time_nodes s1) then handle_triggered n sys period (s1, w2)
         else Inr (s1, sys_sleep sys period w2)) = Inr (s', w')"
    by (auto simp: iteration_def)
  have r1: "R t None s1 w1" using handle_expired_R [OF assms(1,2) exp] .
  obtain now w2 where now: "sys_now sys w1 = (now, w2)" by fastforce
  have r2: "R t None s1 w2" using now_R [OF assms(1) r1 now] .
  then have "R t None s1 (sys_sleep sys ns w2)" for ns
    using R_outside [of "sys_sleep sys ns"] assms(1) by (simp add: behaved_def)
  with rest r1 r2 now show ?thesis
    using handle_triggered_R [OF assms(1) r2] by (auto simp: Let_def split: if_splits)
qed

lemma run_R:
  "behaved sys E P U \<Longrightarrow> R t None s w \<Longrightarrow> run n sys (s, w) = Inr (s', w') \<Longrightarrow> R t None s' w'"
proof (induction n arbitrary: s w)
  case (Suc n)
  then show ?case by (auto split: if_splits intro: iteration_R)
qed simp

end

section \<open>The count of waiting coroutines\<close>

text \<open>
  \<open>coro_count_\<close> counts the timers and the nodes; inside the handlers also the timers popped and
  the nodes spliced out that it has not been decremented for yet.
\<close>

definition counted :: "nat \<Rightarrow> (int \<times> node list) option \<Rightarrow> sched \<Rightarrow> 'w \<Rightarrow> bool" where
  "counted t d s w \<longleftrightarrow>
     coro_count s = pending s + t + (case d of None \<Rightarrow> 0 | Some (fd, nodes) \<Rightarrow> length nodes)"

lemma pending_frame [simp]:
  "pending (s\<lparr>coro_count := c\<rparr>) = pending s" "pending (s\<lparr>the_poller := p\<rparr>) = pending s"
  by (simp_all add: pending_def waiting_nodes_def)

lemma pending_push [simp]: "pending (s\<lparr>time_nodes := pq_push x (time_nodes s)\<rparr>) = Suc (pending s)"
  by (simp add: pending_def pq_push_def waiting_nodes_def length_insort)

lemma pending_pop: "time_nodes s \<noteq> [] \<Longrightarrow> Suc (pending (s\<lparr>time_nodes := pq_pop (time_nodes s)\<rparr>)) = pending s"
  by (cases "time_nodes s") (simp_all add: pending_def pq_pop_def waiting_nodes_def)

lemma pending_nodes:
  "0 \<le> fd \<Longrightarrow> nat fd < length (descriptor_nodes s) \<Longrightarrow>
   pending (s\<lparr>descriptor_nodes := (descriptor_nodes s)[nat fd := xs]\<rparr>) + length (nodes_of s fd)
     = pending s + length xs"
  using waiting_nodes_update [of "nat fd" s xs] by (simp add: pending_def nodes_of_def)

lemma update_descriptor_frame:
  assumes "update_descriptor sys fd (s, w) = Inr (s', w')"
  obtains p where "poller_subscribe sys fd (node_events (nodes_of s fd)) (the_poller s, w) = Inr (p, w')"
    "s' = s\<lparr>the_poller := p\<rparr>" "0 < fd" "nat fd < length (descriptor_nodes s)"
  using update_descriptor_Inr [OF assms] by (auto elim!: sched_subscribe_Inr)

lemma pending_adjust [simp]: "pending (sched_adjust_size i s) = pending s"
  by (simp add: pending_def)

interpretation count: loop_invariant sys UNIV UNIV UNIV counted for sys :: "'w sys"
proof
  fix s s' :: sched and w w' :: 'w and fd e re nx t and d :: "(int \<times> node list) option"
  assume c: "counted t d s w" and post: "post_descriptor sys fd e re nx (s, w) = Inr (s', w')"
  from post show "counted t d s' w'"
  proof (rule post_descriptor_Inr)
    fix s2
    let ?a = "sched_adjust_size (nat fd) s"
    assume fd: "0 < fd" "nat fd < length (descriptor_nodes ?a)"
      and upd: "update_descriptor sys fd (?a\<lparr>descriptor_nodes := (descriptor_nodes ?a)[nat fd :=
          nodes_of s fd @ [\<lparr>nd_ev = e, nd_revent = re, nd_next = nx\<rparr>]]\<rparr>, w) = Inr (s2, w')"
      and s': "s' = s2\<lparr>coro_count := coro_count s2 + 1\<rparr>"
    from upd show ?thesis
    proof (rule update_descriptor_frame)
      fix p
      assume "s2 = ?a\<lparr>descriptor_nodes := (descriptor_nodes ?a)[nat fd :=
          nodes_of s fd @ [\<lparr>nd_ev = e, nd_revent = re, nd_next = nx\<rparr>]]\<rparr>\<lparr>the_poller := p\<rparr>"
      with c s' fd pending_nodes [of fd ?a "nodes_of s fd @ [\<lparr>nd_ev = e, nd_revent = re, nd_next = nx\<rparr>]"]
      show ?thesis by (simp add: counted_def)
    qed
  qed
next
  fix s s' :: sched and w w' :: 'w and fd t xs
  let ?s1 = "s\<lparr>descriptor_nodes := (descriptor_nodes s)[nat fd := xs @ nodes_of s fd]\<rparr>"
  assume c: "counted t (Some (fd, xs)) s w" and fd: "0 \<le> fd" "nat fd < length (descriptor_nodes s)"
    and "update_descriptor sys fd (?s1, w) = Inr (s', w')"
  from this(4) show "counted t None s' w'"
  proof (rule update_descriptor_frame)
    fix p
    assume "s' = ?s1\<lparr>the_poller := p\<rparr>"
    with c fd pending_nodes [OF fd, of "xs @ nodes_of s fd"] show ?thesis
      by (simp add: counted_def)
  qed
next
  fix s :: sched and w :: 'w and fd t
  assume "counted t None s w" "0 \<le> fd" "nat fd < length (descriptor_nodes s)"
  then show "counted t (Some (fd, nodes_of s fd)) (s\<lparr>descriptor_nodes := (descriptor_nodes s)[nat fd := []]\<rparr>) w"
    using pending_nodes [of fd s "[]"] by (simp add: counted_def)
next
  fix s :: sched and w :: 'w and t and d :: "(int \<times> node list) option"
  assume "counted t d s w" "time_nodes s \<noteq> []"
  then show "counted (Suc t) d (s\<lparr>time_nodes := pq_pop (time_nodes s)\<rparr>) w"
    using pending_pop [of s] by (simp add: counted_def)
qed (auto simp: counted_def size_dec_def sched_unsubscribe_def post_timer_def)

section \<open>The shape of the tables\<close>

text \<open>
  The buffer of the poller is as long as its table, both tables have sizes the growth produces,
  every descriptor with a waiting list is in the poller's table, and the timers are in order.
\<close>

definition shaped :: "sched \<Rightarrow> bool" where
  "shaped s \<longleftrightarrow>
     same_size (the_poller s) \<and> table_size (length (focus (the_poller s))) \<and>
     table_size (length (descriptor_nodes s)) \<and>
     length (descriptor_nodes s) \<le> length (focus (the_poller s)) \<and> pq_inv (time_nodes s)"

lemma table_size_bit_ceil: "table_size n \<Longrightarrow> i < n \<Longrightarrow> bit_ceil i \<le> n"
  by (auto simp: table_size_def intro: bit_ceil_le_power_of_two)

lemma shaped_subscribe:
  assumes "shaped s" "poller_subscribe sys fd e (the_poller s, w) = Inr (p, w')"
  shows "shaped (s\<lparr>the_poller := p\<rparr>)" "bit_ceil (nat fd) \<le> length (focus p)"
proof -
  note sizes = poller_subscribe_sizes [OF assms(2)] and r = poller_subscribe_Inr(2,3) [OF assms(2)]
  from assms(1) sizes have "same_size p" "table_size (length (focus p))"
    and len: "length (focus (the_poller s)) \<le> length (focus p)"
    by (simp_all add: shaped_def)
  with assms(1) show "shaped (s\<lparr>the_poller := p\<rparr>)" by (simp add: shaped_def)
  from r have "nat fd < length (focus p)" by simp
  then show "bit_ceil (nat fd) \<le> length (focus p)"
    using table_size_bit_ceil \<open>table_size (length (focus p))\<close> by blast
qed

lemma shaped_frame:
  "shaped s \<Longrightarrow> shaped (s\<lparr>coro_count := c\<rparr>)"
  "shaped s \<Longrightarrow> shaped (s\<lparr>descriptor_nodes := (descriptor_nodes s)[i := xs]\<rparr>)"
  "shaped s \<Longrightarrow> shaped (s\<lparr>time_nodes := pq_push x (time_nodes s)\<rparr>)"
  "shaped s \<Longrightarrow> time_nodes s \<noteq> [] \<Longrightarrow> shaped (s\<lparr>time_nodes := pq_pop (time_nodes s)\<rparr>)"
  "shaped s \<Longrightarrow> length es = length (evs (the_poller s)) \<Longrightarrow>
     shaped (s\<lparr>the_poller := (the_poller s)\<lparr>evs := es\<rparr>\<rparr>)"
  by (simp_all add: shaped_def same_size_def timers.inv_push timers.inv_pop)

lemma shaped_post:
  assumes "shaped s" "post_descriptor sys fd e re nx (s, w) = Inr (s', w')"
  shows "shaped s'"
  using assms(2)
proof (rule post_descriptor_Inr)
  fix s2
  let ?a = "sched_adjust_size (nat fd) s"
  let ?n = "nodes_of s fd @ [\<lparr>nd_ev = e, nd_revent = re, nd_next = nx\<rparr>]"
  assume upd: "update_descriptor sys fd
      (?a\<lparr>descriptor_nodes := (descriptor_nodes ?a)[nat fd := ?n]\<rparr>, w) = Inr (s2, w')"
    and s': "s' = s2\<lparr>coro_count := coro_count s2 + 1\<rparr>"
  from upd show ?thesis
  proof (rule update_descriptor_frame)
    fix p
    assume sub: "poller_subscribe sys fd (node_events (nodes_of (?a\<lparr>descriptor_nodes :=
          (descriptor_nodes ?a)[nat fd := ?n]\<rparr>) fd))
        (the_poller (?a\<lparr>descriptor_nodes := (descriptor_nodes ?a)[nat fd := ?n]\<rparr>), w) = Inr (p, w')"
      and s2: "s2 = ?a\<lparr>descriptor_nodes := (descriptor_nodes ?a)[nat fd := ?n]\<rparr>\<lparr>the_poller := p\<rparr>"
    from sub have "poller_subscribe sys fd (node_events (nodes_of (?a\<lparr>descriptor_nodes :=
          (descriptor_nodes ?a)[nat fd := ?n]\<rparr>) fd)) (the_poller s, w) = Inr (p, w')" by simp
    from shaped_subscribe [OF assms(1) this] assms(1) show ?thesis
      using nodes_table.table_size_adjust [where s = s and i = "nat fd"]
      by (auto simp: s' s2 shaped_def nodes_table.size_adjust)
  qed
qed

interpretation shape: loop_invariant sys UNIV UNIV UNIV "\<lambda>t d s w. shaped s" for sys :: "'w sys"
proof
  fix s s' :: sched and w w' :: 'w and fd xs
  let ?s1 = "s\<lparr>descriptor_nodes := (descriptor_nodes s)[nat fd := xs @ nodes_of s fd]\<rparr>"
  assume c: "shaped s" and upd: "update_descriptor sys fd (?s1, w) = Inr (s', w')"
  from upd show "shaped s'"
  proof (rule update_descriptor_frame)
    fix p
    assume "poller_subscribe sys fd (node_events (nodes_of ?s1 fd)) (the_poller ?s1, w) = Inr (p, w')"
      and s': "s' = ?s1\<lparr>the_poller := p\<rparr>"
    from shaped_subscribe(1) [OF shaped_frame(2) [OF c] this(1)] show ?thesis unfolding s' .
  qed
next
  fix s s' :: sched and w w' :: 'w and fd
  assume "shaped s" "sched_unsubscribe sys fd (s, w) = Inr (s', w')"
  then show "shaped s'"
    using shaped_subscribe(1) by (auto simp: sched_unsubscribe_def poller_unsubscribe_def)
qed (auto simp: post_timer_def intro: shaped_post shaped_frame)

lemma shaped_new: "poller_ctor sys w = Inr (p, w') \<Longrightarrow> shaped (new_sched p)"
  by (auto simp: poller_ctor_def shaped_def new_sched_def same_size_def pq_inv_def
      split: prod.splits sum.splits)

section \<open>The kernel's interest list\<close>

text \<open>What posting on a descriptor does to the scheduler.\<close>

lemma post_descriptor_effect:
  assumes "post_descriptor sys fd e re nx (s, w) = Inr (s', w')"
  shows "nodes_of s' = (nodes_of s)(fd := nodes_of s fd @ [\<lparr>nd_ev = e, nd_revent = re, nd_next = nx\<rparr>])"
    "poller_subscribe sys fd (node_events (nodes_of s' fd)) (the_poller s, w) = Inr (the_poller s', w')"
    "time_nodes s' = time_nodes s" "coro_count s' = coro_count s + 1"
proof -
  let ?a = "sched_adjust_size (nat fd) s"
  let ?n = "nodes_of s fd @ [\<lparr>nd_ev = e, nd_revent = re, nd_next = nx\<rparr>]"
  let ?s1 = "?a\<lparr>descriptor_nodes := (descriptor_nodes ?a)[nat fd := ?n]\<rparr>"
  from assms obtain s2 where fd: "0 < fd" "nat fd < length (descriptor_nodes ?a)"
    and upd: "update_descriptor sys fd (?s1, w) = Inr (s2, w')"
    and s': "s' = s2\<lparr>coro_count := coro_count s2 + 1\<rparr>"
    by (rule post_descriptor_Inr)
  from upd obtain p where sub: "poller_subscribe sys fd (node_events (nodes_of ?s1 fd)) (the_poller ?s1, w)
        = Inr (p, w')" and s2: "s2 = ?s1\<lparr>the_poller := p\<rparr>"
    by (rule update_descriptor_frame)
  have eq: "nodes_of ?s1 = (nodes_of s)(fd := ?n)"
    using nodes_of_update [of fd ?a ?n] fd by (simp add: fun_eq_iff)
  then show n: "nodes_of s' = (nodes_of s)(fd := ?n)"
    by (simp add: s' s2)
  show "poller_subscribe sys fd (node_events (nodes_of s' fd)) (the_poller s, w) = Inr (the_poller s', w')"
    "time_nodes s' = time_nodes s" "coro_count s' = coro_count s + 1"
    using sub by (simp_all add: s' s2 eq n)
qed

lemma splice_in_effect:
  assumes "0 \<le> fd" "nat fd < length (descriptor_nodes s)"
    and "update_descriptor sys fd
      (s\<lparr>descriptor_nodes := (descriptor_nodes s)[nat fd := xs]\<rparr>, w) = Inr (s', w')"
  shows "nodes_of s' = (nodes_of s)(fd := xs)"
    "poller_subscribe sys fd (node_events xs) (the_poller s, w) = Inr (the_poller s', w')"
    "time_nodes s' = time_nodes s" "coro_count s' = coro_count s"
proof -
  let ?s1 = "s\<lparr>descriptor_nodes := (descriptor_nodes s)[nat fd := xs]\<rparr>"
  from assms(3) obtain p where sub: "poller_subscribe sys fd (node_events (nodes_of ?s1 fd)) (the_poller ?s1, w)
        = Inr (p, w')" and s': "s' = ?s1\<lparr>the_poller := p\<rparr>"
    by (rule update_descriptor_frame)
  with nodes_of_update [OF assms(1,2), of xs] show "nodes_of s' = (nodes_of s)(fd := xs)"
    "poller_subscribe sys fd (node_events xs) (the_poller s, w) = Inr (the_poller s', w')"
    "time_nodes s' = time_nodes s" "coro_count s' = coro_count s"
    by simp_all
qed

text \<open>
  The mirror of the interest list, up to the descriptors of \<open>U\<close>, which the kernel may have dropped: it does so
  when a descriptor is closed.
\<close>

definition mirrors_but :: "int set \<Rightarrow> ('w \<Rightarrow> int \<Rightarrow> event option) \<Rightarrow> poller \<Rightarrow> 'w \<Rightarrow> bool" where
  "mirrors_but U interest p w \<longleftrightarrow>
     (\<forall>fd. interest w fd = (if focus_of p fd = 0 then None else Some (focus_of p fd)) \<or>
        fd \<in> U \<and> interest w fd = None)"

lemma mirrors_but_evs [simp]: "mirrors_but U interest (p\<lparr>evs := es\<rparr>) w = mirrors_but U interest p w"
  by (simp add: mirrors_but_def focus_of_def)

lemma mirrors_but_subscribe:
  assumes contract: "epoll_contract sys (epfd p) interest"
    and mirrors: "mirrors_but U interest p w"
    and sub: "poller_subscribe sys fd e (p, w) = Inr (p', w')"
  shows "mirrors_but U interest p' w'"
proof (cases "subscribe_op (focus_of p fd) e")
  case None
  then have "focus_of p' = focus_of p"
    by (auto simp: poller_subscribe_focus(1) [OF sub] subscribe_op_def split: if_splits)
  moreover from None poller_subscribe_Inr(4) [OF sub] have "w' = w" by simp
  ultimately show ?thesis using mirrors unfolding mirrors_but_def by (simp only: simp_thms)
next
  case (Some op)
  with poller_subscribe_Inr(4) [OF sub] have "sys_epoll_ctl sys (epfd p) op fd e w = (0, w')" by simp
  then have interest: "interest w' = (interest w)(fd := (if op = CTL_DEL then None else Some e))"
    by (rule epoll_contract_D(1) [OF contract]) simp
  have del: "op = CTL_DEL \<longleftrightarrow> e = 0"
    using Some by (auto simp: subscribe_op_def split: if_splits)
  show ?thesis
    unfolding mirrors_but_def poller_subscribe_focus(1) [OF sub]
  proof
    fix g
    show "interest w' g = (if ((focus_of p)(fd := e)) g = 0 then None else Some (((focus_of p)(fd := e)) g)) \<or>
        g \<in> U \<and> interest w' g = None"
      using mirrors[unfolded mirrors_but_def, rule_format, of g] by (cases "g = fd") (auto simp: interest del)
  qed
qed

definition kernel_mirrored ::
    "'w sys \<Rightarrow> int \<Rightarrow> ('w \<Rightarrow> int \<Rightarrow> event option) \<Rightarrow> int set \<Rightarrow> sched \<Rightarrow> 'w \<Rightarrow> bool" where
  "kernel_mirrored sys ep interest U s w \<longleftrightarrow>
     epfd (the_poller s) = ep \<and>
     (epoll_contract sys ep interest \<longrightarrow> mirrors_but U interest (the_poller s) w)"

lemma kernel_mirrored_subscribe:
  "kernel_mirrored sys ep interest U s w \<Longrightarrow>
   poller_subscribe sys fd e (the_poller s, w) = Inr (the_poller s', w') \<Longrightarrow>
   kernel_mirrored sys ep interest U s' w'"
  using mirrors_but_subscribe by (auto simp: kernel_mirrored_def poller_subscribe_focus)

lemma sched_unsubscribe_effect:
  assumes "sched_unsubscribe sys fd (s, w) = Inr (s', w')"
  shows "poller_subscribe sys fd 0 (the_poller s, w) = Inr (the_poller s', w')"
    "nodes_of s' = nodes_of s" "time_nodes s' = time_nodes s" "coro_count s' = coro_count s"
  using assms by (auto simp: sched_unsubscribe_def poller_unsubscribe_def ev_NONE_def)

text \<open>
  The outside steps that leave the interest list alone, but for dropping descriptors of \<open>U\<close>: \<open>close\<close>, of a
  descriptor of \<open>U\<close>, is one of them.
\<close>

definition keeps_interest :: "('w \<Rightarrow> int \<Rightarrow> event option) \<Rightarrow> int set \<Rightarrow> ('w \<Rightarrow> 'w) set" where
  "keeps_interest interest U =
     {g. \<forall>w fd. interest (g w) fd = interest w fd \<or> fd \<in> U \<and> interest (g w) fd = None}"

lemma mirrors_but_outside:
  assumes "g \<in> keeps_interest interest U" "mirrors_but U interest p w"
  shows "mirrors_but U interest p (g w)"
  unfolding mirrors_but_def
proof
  fix fd
  from assms(1) have "interest (g w) fd = interest w fd \<or> fd \<in> U \<and> interest (g w) fd = None"
    by (simp add: keeps_interest_def)
  with assms(2)[unfolded mirrors_but_def, rule_format, of fd]
  show "interest (g w) fd = (if focus_of p fd = 0 then None else Some (focus_of p fd)) \<or>
      fd \<in> U \<and> interest (g w) fd = None"
    by (elim disjE) simp_all
qed

interpretation mirror: loop_invariant sys "keeps_interest interest U" UNIV UNIV
    "\<lambda>t d s w. kernel_mirrored sys ep interest U s w"
  for sys :: "'w sys" and ep :: int and interest :: "'w \<Rightarrow> int \<Rightarrow> event option" and U :: "int set"
proof
  fix g s and w :: 'w
  assume "g \<in> keeps_interest interest U" "kernel_mirrored sys ep interest U s w"
  then show "kernel_mirrored sys ep interest U s (g w)"
    by (auto simp: kernel_mirrored_def intro: mirrors_but_outside)
next
  fix s s' :: sched and w w' :: 'w and fd e re nx
  assume "kernel_mirrored sys ep interest U s w" "post_descriptor sys fd e re nx (s, w) = Inr (s', w')"
  then show "kernel_mirrored sys ep interest U s' w'"
    by (rule kernel_mirrored_subscribe [OF _ post_descriptor_effect(2)])
next
  fix s s' :: sched and w w' :: 'w and fd xs
  assume "kernel_mirrored sys ep interest U s w" "0 \<le> fd" "nat fd < length (descriptor_nodes s)"
    "update_descriptor sys fd
      (s\<lparr>descriptor_nodes := (descriptor_nodes s)[nat fd := xs @ nodes_of s fd]\<rparr>, w) = Inr (s', w')"
  then show "kernel_mirrored sys ep interest U s' w'"
    by (rule kernel_mirrored_subscribe [OF _ splice_in_effect(2)])
next
  fix s s' :: sched and w w' :: 'w and fd
  assume "kernel_mirrored sys ep interest U s w" "sched_unsubscribe sys fd (s, w) = Inr (s', w')"
  then show "kernel_mirrored sys ep interest U s' w'"
    by (rule kernel_mirrored_subscribe [OF _ sched_unsubscribe_effect(1)])
qed (auto simp: kernel_mirrored_def post_timer_def)

section \<open>Registration\<close>

text \<open>
  Outside the handler of a descriptor its registered events are the union of the events of its
  nodes; or it was unsubscribed, which only descriptors of \<open>U\<close> are, and has none.
\<close>

definition registered :: "int set \<Rightarrow> (int \<times> node list) option \<Rightarrow> sched \<Rightarrow> bool" where
  "registered U d s \<longleftrightarrow>
     (\<forall>fd. fd > 0 \<longrightarrow> (case d of None \<Rightarrow> True | Some (i, _) \<Rightarrow> i \<noteq> fd) \<longrightarrow>
        focus_of (the_poller s) fd = node_events (nodes_of s fd) \<or>
        fd \<in> U \<and> focus_of (the_poller s) fd = 0)"

lemma registered_update:
  assumes "registered U d s" "nodes_of s' = (nodes_of s)(fd := xs)"
    and "poller_subscribe sys fd (node_events xs) (the_poller s, w) = Inr (the_poller s', w')"
    and "d' = d \<or> (d' = None \<and> (\<exists>ns. d = Some (fd, ns)))"
  shows "registered U d' s'"
  using assms(1,4) unfolding registered_def assms(2) poller_subscribe_focus(1) [OF assms(3)]
  by (auto split: option.splits)

interpretation registration: loop_invariant sys UNIV UNIV U "\<lambda>t d s w. registered U d s"
  for sys :: "'w sys" and U :: "int set"
proof
  fix s s' :: sched and w w' :: 'w and fd e re nx and d :: "(int \<times> node list) option"
  assume r: "registered U d s" and post: "post_descriptor sys fd e re nx (s, w) = Inr (s', w')"
  show "registered U d s'"
    by (rule registered_update [OF r post_descriptor_effect(1) [OF post]])
      (use post_descriptor_effect(1,2) [OF post] in auto)
next
  fix s s' :: sched and w w' :: 'w and fd xs
  assume r: "registered U (Some (fd, xs)) s" and fd: "0 \<le> fd" "nat fd < length (descriptor_nodes s)"
    and upd: "update_descriptor sys fd
      (s\<lparr>descriptor_nodes := (descriptor_nodes s)[nat fd := xs @ nodes_of s fd]\<rparr>, w) = Inr (s', w')"
  show "registered U None s'"
    using registered_update [OF r splice_in_effect(1,2) [OF fd upd]] by simp
next
  fix s :: sched and w :: 'w and fd
  assume "registered U None s" "0 \<le> fd" "nat fd < length (descriptor_nodes s)"
  then show "registered U (Some (fd, nodes_of s fd)) (s\<lparr>descriptor_nodes := (descriptor_nodes s)[nat fd := []]\<rparr>)"
    by (simp add: registered_def nodes_of_update)
next
  fix s s' :: sched and w w' :: 'w and fd and d :: "(int \<times> node list) option"
  assume "fd \<in> U" "registered U d s" and un: "sched_unsubscribe sys fd (s, w) = Inr (s', w')"
  then show "registered U d s'"
    using sched_unsubscribe_effect(2) [OF un] poller_subscribe_focus(1) [OF sched_unsubscribe_effect(1) [OF un]]
    by (auto simp: registered_def)
qed (auto simp: registered_def post_timer_def focus_of_def split: option.splits)

section \<open>The states of the loop\<close>

text \<open>
  A program: it creates the scheduler, its main function runs up to where it calls \<open>run\<close>,
  starting coroutines that post themselves; then the loop makes its iterations.
\<close>

inductive loop_state :: "'w sys \<Rightarrow> 'w co \<Rightarrow> 'w \<Rightarrow> sched \<times> 'w \<Rightarrow> bool" for sys main w0 where
  started: "poller_ctor sys w0 = Inr (p, w1) \<Longrightarrow> run_co sys main (new_sched p, w1) = Inr (b, st) \<Longrightarrow>
    loop_state sys main w0 st"
| iterated: "loop_state sys main w0 st \<Longrightarrow> coro_count (fst st) > 0 \<Longrightarrow> iteration n sys st = Inr st' \<Longrightarrow>
    loop_state sys main w0 st'"

inductive_cases loop_stateE: "loop_state sys main w0 st"

lemma run_loop_state:
  "loop_state sys main w0 st \<Longrightarrow> run n sys st = Inr st' \<Longrightarrow>
   loop_state sys main w0 st' \<and> coro_count (fst st') = 0"
proof (induction n arbitrary: st)
  case (Suc n)
  show ?case
  proof (cases "coro_count (fst st) = 0")
    case True
    with Suc.prems show ?thesis by simp
  next
    case False
    with Suc.prems(2) obtain st1 where one: "iteration n sys st = Inr st1" and rest: "run n sys st1 = Inr st'"
      by auto
    from iterated [OF Suc.prems(1) _ one] False have "loop_state sys main w0 st1" by simp
    then show ?thesis using rest by (rule Suc.IH)
  qed
qed simp

context loop_invariant
begin

lemma loop_state_R:
  assumes "loop_state sys main w0 st" "behaved sys E P U" "co_within E P U main"
    and "\<And>p w1. poller_ctor sys w0 = Inr (p, w1) \<Longrightarrow> R 0 None (new_sched p) w1"
  shows "R 0 None (fst st) (snd st)"
  using assms(1)
proof induction
  case (started p w1 b st)
  then show ?case using run_co_R [OF assms(3) assms(4), of p w1 b "fst st" "snd st"] by simp
next
  case (iterated st n st')
  then show ?case using iteration_R [OF assms(2), of 0 "fst st" "snd st" n "fst st'" "snd st'"] by simp
qed

end

section \<open>Properties of the loop\<close>

text \<open>
  C1. \<open>run\<close> loses no coroutine. In every state of the loop \<open>coro_count_\<close> is the number of timers and
  waiting nodes, whatever the coroutines post while they are resumed; so when \<open>run\<close> returns no
  timer and no node on any descriptor is left.
\<close>

theorem run_loses_nothing:
  assumes "loop_state sys main w0 (s, w)"
  shows "coro_count s = length (time_nodes s) + sum_list (map length (descriptor_nodes s)) \<and>
    (run n sys (s, w) = Inr (s', w') \<longrightarrow> time_nodes s' = [] \<and> (\<forall>fd. nodes_of s' fd = []))"
proof -
  have count: "coro_count (fst st) = pending (fst st)" if "loop_state sys main w0 st" for st
  proof -
    have "counted 0 None (fst st) (snd st)"
      by (rule count.loop_state_R [OF that])
        (simp_all add: counted_def new_sched_def pending_def waiting_nodes_def)
    then show ?thesis by (simp add: counted_def)
  qed
  moreover have "time_nodes s' = [] \<and> (\<forall>fd. nodes_of s' fd = [])"
    if "run n sys (s, w) = Inr (s', w')"
    using run_loop_state [OF assms that] count [of "(s', w')"]
    by (simp add: pending_def waiting_nodes_zero)
  ultimately show ?thesis using count [OF assms] by (simp add: pending_def waiting_nodes_def)
qed

text \<open>An example program: one timer, and one coroutine that waits to read from descriptor 5.\<close>

definition example_main :: "ref_world co" where
  "example_main = Post_timer 5 0 (Post_descriptor 5 ev_READ 0 (Handle 1) (Stop True))"

definition example_sys :: "ref_world sys" where
  "example_sys = ref_sys (\<lambda>_. Stop True) (\<lambda>_. Stop True)"

lemma example_started:
  obtains s w where "run_co example_sys example_main (new_sched \<lparr>epfd = 3, focus = [], evs = []\<rparr>, ref_start)
      = Inr (True, s, w)" "loop_state example_sys example_main ref_start (s, w)" "time_nodes s = [(5, 0)]"
    "nodes_of s 5 = [\<lparr>nd_ev = 1, nd_revent = 0, nd_next = Handle 1\<rparr>]"
proof -
  have ctor: "poller_ctor example_sys ref_start = Inr (\<lparr>epfd = 3, focus = [], evs = []\<rparr>, ref_start)"
    by (simp add: poller_ctor_def example_sys_def)
  have "case run_co example_sys example_main (new_sched \<lparr>epfd = 3, focus = [], evs = []\<rparr>, ref_start) of
      Inr (b, s, w) \<Rightarrow> b \<and> time_nodes s = [(5, 0)] \<and>
        nodes_of s 5 = [\<lparr>nd_ev = 1, nd_revent = 0, nd_next = Handle 1\<rparr>] | Inl f \<Rightarrow> False"
    by code_simp
  then obtain s w where
    "run_co example_sys example_main (new_sched \<lparr>epfd = 3, focus = [], evs = []\<rparr>, ref_start) = Inr (True, s, w)"
    "time_nodes s = [(5, 0)]" "nodes_of s 5 = [\<lparr>nd_ev = 1, nd_revent = 0, nd_next = Handle 1\<rparr>]"
    by (auto split: sum.splits)
  with that started [OF ctor this(1)] show ?thesis by blast
qed

theorem run_loses_nothing_witness:
  "\<exists>s w. loop_state example_sys example_main ref_start (s, w) \<and>
    coro_count s = 1 + sum_list (map length (descriptor_nodes s))"
proof -
  obtain s w where "loop_state example_sys example_main ref_start (s, w)" "time_nodes s = [(5, 0)]"
    by (rule example_started)
  with run_loses_nothing [OF this(1)] show ?thesis by auto
qed

lemma foldl_or_start: "foldl (\<lambda>e nd. e OR nd_ev nd) e nodes = e OR node_events nodes"
proof (induction nodes rule: rev_induct)
  case Nil
  show ?case by (simp add: node_events_def ev_NONE_def)
next
  case (snoc nd nodes)
  then show ?case by (simp add: node_events_def or.assoc)
qed

lemma node_events_simps [simp]:
  "node_events [] = 0" "node_events (nd # nodes) = nd_ev nd OR node_events nodes"
  using foldl_or_start [of "ev_NONE OR nd_ev nd" nodes]
  by (simp_all add: node_events_def ev_NONE_def)

lemma node_events_covers: "nd \<in> set nodes \<Longrightarrow> nd_ev nd AND node_events nodes = nd_ev nd"
  by (induction nodes) (auto simp: bit_eq_iff bit_simps)

text \<open>
  C2. No lost wake-up and no stale registration. Let \<open>U\<close> contain the descriptors that coroutines
  unsubscribe or close themselves, as the destructor of a socket does, which takes them off the
  kernel's interest list. Whenever the loop is between two iterations, the kernel has each
  descriptor outside \<open>U\<close> registered for exactly the union of the events of the nodes waiting on it, so for
  all the events of each of them, and has not registered it when none waits. A descriptor of \<open>U\<close> is
  registered for that union or not at all.
\<close>

theorem waiting_events_registered:
  assumes "loop_state sys main w0 (s, w)"
    and "behaved sys (keeps_interest interest U) UNIV U" "co_within (keeps_interest interest U) UNIV U main"
    and "poller_ctor sys w0 = Inr (p0, w1)" "epoll_contract sys (epfd p0) interest"
    and "\<forall>fd. interest w1 fd = None"
    and "fd > 0"
  shows "(interest w fd =
        (if node_events (nodes_of s fd) = 0 then None else Some (node_events (nodes_of s fd))) \<or>
      fd \<in> U \<and> interest w fd = None) \<and>
    (\<forall>nd \<in> set (nodes_of s fd). nd_ev nd AND node_events (nodes_of s fd) = nd_ev nd)"
proof -
  from assms(4) have p0: "focus_of p0 = (\<lambda>_. 0)"
    by (auto simp: poller_ctor_def focus_of_def split: prod.splits sum.splits)
  have "kernel_mirrored sys (epfd p0) interest U (fst (s, w)) (snd (s, w))"
    by (rule mirror.loop_state_R [OF assms(1)])
      (use assms(2-6) p0 in \<open>auto intro: behaved_mono co_within_mono
        simp: kernel_mirrored_def mirrors_but_def new_sched_def\<close>)
  then have m: "mirrors_but U interest (the_poller s) w"
    using assms(5) by (simp add: kernel_mirrored_def)
  have "registered U None (fst (s, w))"
    by (rule registration.loop_state_R [OF assms(1)])
      (use assms(2-4) p0 in \<open>auto intro: behaved_mono co_within_mono
        simp: registered_def new_sched_def nodes_of_def\<close>)
  then have "focus_of (the_poller s) fd = node_events (nodes_of s fd) \<or>
      fd \<in> U \<and> focus_of (the_poller s) fd = 0"
    using assms(7) by (auto simp: registered_def)
  with m show ?thesis unfolding mirrors_but_def using node_events_covers by metis
qed

text \<open>
  Another example: the coroutine waits on two descriptors, unsubscribes the second one and closes it, which
  takes it off the interest list; its node stays.
\<close>

definition ref_close :: "int \<Rightarrow> ref_world \<Rightarrow> ref_world" where
  "ref_close fd w = w\<lparr>rw_interest := (rw_interest w)(fd := None)\<rparr>"

definition closing_main :: "ref_world co" where
  "closing_main = Post_descriptor 5 ev_READ 0 (Handle 1) (Post_descriptor 6 ev_READ 0 (Handle 2)
     (Unsubscribe 6 (Effect (ref_close 6) (\<lambda>_. Stop True))))"

lemma closing_behaved:
  "behaved example_sys (keeps_interest rw_interest {6}) UNIV {6}"
  "co_within (keeps_interest rw_interest {6}) UNIV {6} closing_main"
  by (auto simp: behaved_def example_sys_def keeps_interest_def closing_main_def ref_close_def ref_epoll_wait_def
      split: list.splits)

theorem waiting_events_registered_witness:
  "\<exists>s w. loop_state example_sys closing_main ref_start (s, w) \<and> rw_interest w 5 = Some ev_READ \<and>
    nodes_of s 6 \<noteq> [] \<and> rw_interest w 6 = None"
proof -
  have ctor: "poller_ctor example_sys ref_start = Inr (\<lparr>epfd = 3, focus = [], evs = []\<rparr>, ref_start)"
    by (simp add: poller_ctor_def example_sys_def)
  have contract: "epoll_contract example_sys ep rw_interest" for ep
    by (simp add: example_sys_def epoll_contract_ref)
  have "case run_co example_sys closing_main (new_sched \<lparr>epfd = 3, focus = [], evs = []\<rparr>, ref_start) of
      Inr (b, s, w) \<Rightarrow> nodes_of s 5 = [\<lparr>nd_ev = 1, nd_revent = 0, nd_next = Handle 1\<rparr>] \<and> nodes_of s 6 \<noteq> [] \<and>
        rw_interest w 6 = None | Inl f \<Rightarrow> False"
    by code_simp
  then obtain b s w where
    run: "run_co example_sys closing_main (new_sched \<lparr>epfd = 3, focus = [], evs = []\<rparr>, ref_start) = Inr (b, s, w)"
    and five: "nodes_of s 5 = [\<lparr>nd_ev = 1, nd_revent = 0, nd_next = Handle 1\<rparr>]"
    and six: "nodes_of s 6 \<noteq> []" "rw_interest w 6 = None"
    by (auto split: sum.splits)
  have s: "loop_state example_sys closing_main ref_start (s, w)" by (rule started [OF ctor run])
  have "rw_interest w 5 = Some ev_READ"
    using waiting_events_registered [OF s closing_behaved ctor contract, of 5] five
    by (simp add: ev_READ_def) (simp add: ref_start_def)
  with s six show ?thesis by blast
qed

text \<open>
  C30. The tables are well formed between two iterations: the poller's buffer is as long as its
  table of events, both tables are empty or have a power of two as their size, every descriptor that
  has a waiting list has an entry in the poller's table, and the timers are in the order of their times.
\<close>

theorem tables_well_formed:
  assumes "loop_state sys main w0 (s, w)"
  shows "length (evs (the_poller s)) = length (focus (the_poller s)) \<and>
    (focus (the_poller s) = [] \<or> (\<exists>k. length (focus (the_poller s)) = 2 ^ k)) \<and>
    (descriptor_nodes s = [] \<or> (\<exists>k. length (descriptor_nodes s) = 2 ^ k)) \<and>
    length (descriptor_nodes s) \<le> length (focus (the_poller s)) \<and>
    sorted (map fst (time_nodes s))"
proof -
  have "shaped (fst (s, w))"
    by (rule shape.loop_state_R [OF assms]) (simp_all add: shaped_new)
  then show ?thesis by (simp add: shaped_def same_size_def table_size_def power_of_two_iff pq_inv_def)
qed

theorem tables_well_formed_witness:
  "\<exists>s w. loop_state example_sys example_main ref_start (s, w) \<and>
     length (evs (the_poller s)) = length (focus (the_poller s))"
proof -
  obtain s w where "loop_state example_sys example_main ref_start (s, w)" by (rule example_started)
  with tables_well_formed [OF this] show ?thesis by blast
qed

end
