(* ===== verification/BC_Handlers.thy ===== *)
theory BC_Handlers
  imports BC_Sched_Inv
begin

text \<open>
  What one pass of the loop does: the arguments \<open>epoll_wait\<close> gets, the descriptor handler
  against a reference that resumes the matching nodes one after the other, the callables that are
  not ready, and the loop of \<open>poll\<close> when a handler posts on a new descriptor.
\<close>

section \<open>The arguments of epoll_wait\<close>

text \<open>
  A kernel that refuses a wait with no room for events, a negative (unbounded) timeout or one of
  more than a second with \<open>EINVAL\<close> (22).
\<close>

definition strict_wait :: "'w sys \<Rightarrow> 'w sys" where
  "strict_wait sys = sys\<lparr>sys_epoll_wait := (\<lambda>ep n t w.
     if 0 < n \<and> 0 \<le> t \<and> t \<le> 1000 then sys_epoll_wait sys ep n t w else (Inl 22, w))\<rparr>"

lemma strict_wait_frame [simp]:
  "sys_epoll_ctl (strict_wait sys) = sys_epoll_ctl sys" "sys_now (strict_wait sys) = sys_now sys"
  "sys_store (strict_wait sys) = sys_store sys" "sys_sleep (strict_wait sys) = sys_sleep sys"
  "sys_resume (strict_wait sys) = sys_resume sys" "sys_call (strict_wait sys) = sys_call sys"
  "sys_done (strict_wait sys) = sys_done sys"
  by (simp_all add: strict_wait_def)

lemma strict_wait_posting [simp]:
  "poller_subscribe (strict_wait sys) = poller_subscribe sys"
  "sched_subscribe (strict_wait sys) = sched_subscribe sys"
  "sched_unsubscribe (strict_wait sys) = sched_unsubscribe sys"
  "update_descriptor (strict_wait sys) = update_descriptor sys"
  "post_descriptor (strict_wait sys) = post_descriptor sys"
proof -
  show sub: "poller_subscribe (strict_wait sys) = poller_subscribe sys"
    by (rule ext)+ (simp only: poller_subscribe_def strict_wait_frame)
  show sched: "sched_subscribe (strict_wait sys) = sched_subscribe sys"
    by (simp add: fun_eq_iff sched_subscribe_def sub)
  show "sched_unsubscribe (strict_wait sys) = sched_unsubscribe sys"
    by (simp add: fun_eq_iff sched_unsubscribe_def poller_unsubscribe_def sub)
  show upd: "update_descriptor (strict_wait sys) = update_descriptor sys"
    by (simp add: fun_eq_iff update_descriptor_def sched)
  show "post_descriptor (strict_wait sys) = post_descriptor sys"
    by (simp add: fun_eq_iff post_descriptor_def upd)
qed

lemma strict_wait_run_co [simp]: "run_co (strict_wait sys) c = run_co sys c"
  by (induction c) simp_all

lemma strict_wait_resume [simp]:
  "resume (strict_wait sys) = resume sys" "run_next (strict_wait sys) = run_next sys"
  by (simp_all add: fun_eq_iff resume_def run_next_def split: next_t.split)

lemma strict_wait_expired [simp]: "handle_expired n (strict_wait sys) k st = handle_expired n sys k st"
  by (induction n arbitrary: k st) (simp_all only: handle_expired.simps strict_wait_frame strict_wait_resume)

lemma strict_wait_nodes [simp]:
  "handle_nodes n (strict_wait sys) e kept nodes st = handle_nodes n sys e kept nodes st"
proof (induction n arbitrary: kept nodes st)
  case 0
  then show ?case by (cases nodes) simp_all
next
  case (Suc n)
  then show ?case
    by (cases nodes) (simp_all only: handle_nodes.simps strict_wait_frame strict_wait_resume)
qed

lemma strict_wait_event [simp]: "handle_event n (strict_wait sys) = handle_event n sys"
  by (rule ext)+ (simp only: handle_event_def strict_wait_nodes strict_wait_posting)

lemma next_period_bounds: "next_period q now \<le> s_period" "q \<noteq> [] \<Longrightarrow> next_period q now \<le> fst (pq_top q) - now"
  by (auto simp: next_period_def)

lemma ms_of_ns_period: "ns \<le> s_period \<Longrightarrow> ms_of_ns ns \<le> 1000"
proof (cases "0 \<le> ns")
  case True
  assume "ns \<le> s_period"
  then have "ns div 1000000 \<le> s_period div 1000000" by (rule zdiv_mono1) simp
  with True show ?thesis by (simp add: ms_of_ns_def s_period_def)
next
  case False
  then have "0 \<le> (- ns) div 1000000" by (simp add: pos_imp_zdiv_nonneg_iff)
  with False show ?thesis by (simp add: ms_of_ns_def)
qed

lemma strict_wait_triggered:
  assumes "evs (the_poller s) \<noteq> []" "rtime \<le> s_period"
  shows "handle_triggered n (strict_wait sys) rtime (s, w) = handle_triggered n sys rtime (s, w)"
proof (cases "ms_of_ns rtime < 0")
  case True
  then show ?thesis by (simp add: handle_triggered_def poll_def)
next
  case False
  with assms(1) ms_of_ns_period [OF assms(2)] have "sys_epoll_wait (strict_wait sys) (epfd (the_poller s))
      (length (evs (the_poller s))) (ms_of_ns rtime) w =
    sys_epoll_wait sys (epfd (the_poller s)) (length (evs (the_poller s))) (ms_of_ns rtime) w"
    by (simp add: strict_wait_def)
  then show ?thesis
    by (simp only: handle_triggered_def poll_def Let_def fst_conv snd_conv strict_wait_event)
qed

lemma strict_wait_iteration:
  assumes "counted 0 None s w" "shaped s"
  shows "iteration n (strict_wait sys) (s, w) = iteration n sys (s, w)"
proof -
  have "evs (the_poller s1) \<noteq> []"
    if "handle_expired n sys 0 (s, w) = Inr (b, s1, w1)" "coro_count s1 > length (time_nodes s1)" for b s1 w1
  proof -
    have "counted 0 None s1 w1" "shaped s1"
      using count.handle_expired_R [OF _ assms(1) that(1)] shape.handle_expired_R [OF _ assms(2) that(1)]
      by simp_all
    with that(2) have "descriptor_nodes s1 \<noteq> []" "same_size (the_poller s1)"
      "length (descriptor_nodes s1) \<le> length (focus (the_poller s1))"
      by (auto simp: counted_def pending_def waiting_nodes_def shaped_def)
    then show ?thesis by (auto simp: same_size_def)
  qed
  then show ?thesis
    by (cases "handle_expired n sys 0 (s, w)")
      (auto simp: iteration_def Let_def strict_wait_triggered next_period_bounds split: prod.split)
qed

text \<open>
  C18. The loop waits properly. Run on a kernel that refuses a wait without room for events, without a
  timeout or of more than a second, the loop does exactly what it does on the kernel itself: the
  buffer is never empty when it waits, and the time it waits is bounded.
\<close>

theorem run_waits_properly:
  assumes "loop_state sys main w0 st"
  shows "run n (strict_wait sys) st = run n sys st"
  using assms
proof (induction n arbitrary: st)
  case (Suc n)
  have "counted 0 None (fst st) (snd st)"
    by (rule count.loop_state_R [OF Suc.prems])
      (simp_all add: counted_def new_sched_def pending_def waiting_nodes_def)
  moreover have "shaped (fst st)"
    by (rule shape.loop_state_R [OF Suc.prems]) (simp_all add: shaped_new)
  ultimately have "iteration n (strict_wait sys) st = iteration n sys st"
    using strict_wait_iteration by (metis prod.collapse)
  moreover have "run n (strict_wait sys) st' = run n sys st'"
    if "iteration n sys st = Inr st'" "coro_count (fst st) \<noteq> 0" for st'
    using iterated [OF Suc.prems _ that(1)] that(2) Suc.IH by simp
  ultimately show ?case by (cases "iteration n sys st") simp_all
qed simp

theorem run_waits_properly_witness:
  "\<exists>st. loop_state example_sys example_main ref_start st \<and>
    run 3 (strict_wait example_sys) st = run 3 example_sys st"
  using example_started run_waits_properly by metis

section \<open>The descriptor handler\<close>

text \<open>The nodes an event reaches, and resuming nodes one after the other.\<close>

definition matching :: "event \<Rightarrow> node \<Rightarrow> bool" where
  "matching e nd \<longleftrightarrow> nd_ev nd AND e \<noteq> 0"

fun serve :: "'w sys \<Rightarrow> event \<Rightarrow> node list \<Rightarrow> sched \<times> 'w \<Rightarrow> (sched \<times> 'w) result" where
  "serve sys e [] st = Inr st"
| "serve sys e (nd # nodes) st =
     res_bind (run_next sys (nd_next nd) (fst st, sys_store sys (nd_revent nd) e (snd st)))
       (\<lambda>(ready, s1, w1). serve sys e nodes (s1\<lparr>coro_count := size_dec (coro_count s1)\<rparr>, w1))"

text \<open>A node that is passed at its first visit: a coroutine, or a callable that is ready at once.\<close>

definition ready_at_once :: "'w sys \<Rightarrow> node \<Rightarrow> bool" where
  "ready_at_once sys nd \<longleftrightarrow>
     (case nd_next nd of Handle h \<Rightarrow> True
      | Proxy p \<Rightarrow> \<forall>st b st'. run_co sys (sys_call sys p) st = Inr (b, st') \<longrightarrow> b)"

lemma ready_at_once_run:
  "ready_at_once sys nd \<Longrightarrow> run_next sys (nd_next nd) st = Inr (b, s', w') \<Longrightarrow> b"
  by (cases st; cases "nd_next nd") (fastforce simp: ready_at_once_def run_next_def)+

lemma handle_nodes_serves:
  "\<forall>nd \<in> set nodes. matching e nd \<longrightarrow> ready_at_once sys nd \<Longrightarrow> length nodes \<le> n \<Longrightarrow>
   handle_nodes n sys e kept nodes st =
     res_bind (serve sys e (filter (matching e) nodes) st)
       (\<lambda>st'. Inr (kept @ filter (\<lambda>nd. \<not> matching e nd) nodes, st'))"
proof (induction nodes arbitrary: n kept st)
  case (Cons nd nodes)
  then obtain m where n: "n = Suc m" by (cases n) auto
  show ?case
  proof (cases "matching e nd")
    case False
    with Cons n show ?thesis by (simp add: matching_def)
  next
    case True
    then have ready: "ready_at_once sys nd" using Cons.prems(1) by simp
    show ?thesis
    proof (cases "run_next sys (nd_next nd) (fst st, sys_store sys (nd_revent nd) e (snd st))")
      case (Inl f)
      with True n show ?thesis by (simp add: matching_def)
    next
      case (Inr r)
      obtain b s1 w1 where r: "r = (b, s1, w1)" by (cases r) auto
      with Inr ready_at_once_run [OF ready] have b by blast
      with r Inr True n Cons show ?thesis by (simp add: matching_def)
    qed
  qed
qed simp

text \<open>No step of the scheduler or of a coroutine shrinks the table of waiting lists.\<close>

interpretation grows: api_invariant sys UNIV UNIV UNIV "\<lambda>t d s w. k \<le> length (descriptor_nodes s)"
  for sys :: "'w sys" and k :: nat
proof
  fix s s' :: sched and w w' :: 'w and fd e re nx
  assume k: "k \<le> length (descriptor_nodes s)" and post: "post_descriptor sys fd e re nx (s, w) = Inr (s', w')"
  let ?a = "sched_adjust_size (nat fd) s"
  from post obtain s2 where "update_descriptor sys fd (?a\<lparr>descriptor_nodes := (descriptor_nodes ?a)[nat fd :=
      nodes_of s fd @ [\<lparr>nd_ev = e, nd_revent = re, nd_next = nx\<rparr>]]\<rparr>, w) = Inr (s2, w')"
    "s' = s2\<lparr>coro_count := coro_count s2 + 1\<rparr>"
    by (rule post_descriptor_Inr)
  then have "length (descriptor_nodes s') = length (descriptor_nodes ?a)"
    by (auto elim!: update_descriptor_frame)
  with k nodes_table.size_grows [where s = s and i = "nat fd"] show "k \<le> length (descriptor_nodes s')"
    by simp
qed (auto simp: post_timer_def sched_unsubscribe_def)

lemma serve_grows:
  "serve sys e nodes (s, w) = Inr (s', w') \<Longrightarrow> k \<le> length (descriptor_nodes s) \<Longrightarrow>
   k \<le> length (descriptor_nodes s')"
proof (induction nodes arbitrary: s w)
  case (Cons nd nodes)
  then obtain b s1 w1 where run: "run_next sys (nd_next nd) (s, sys_store sys (nd_revent nd) e w) = Inr (b, s1, w1)"
    and rest: "serve sys e nodes (s1\<lparr>coro_count := size_dec (coro_count s1)\<rparr>, w1) = Inr (s', w')"
    by auto
  have "k \<le> length (descriptor_nodes s1)"
    using run Cons.prems(2) by (cases "nd_next nd") (auto simp: run_next_def resume_def intro: grows.run_co_R)
  with Cons.IH [OF rest] show ?case by simp
qed simp

text \<open>
  C3. The descriptor handler. When an event arrives for a descriptor, the coroutines waiting for any of
  its bits are resumed exactly once each, in the order they were posted, each after the reported
  events are stored in its reference and each counted down; then the list of the descriptor is the
  nodes the event did not reach, in their order, followed by those posted meanwhile, and the
  registration is brought up to date. The loop ends within as many steps as there are nodes, and
  no access is out of range.
\<close>

theorem handle_event_serves:
  assumes "0 \<le> fd" "nat fd < length (descriptor_nodes s)" "length (nodes_of s fd) \<le> n"
    and "\<forall>nd \<in> set (nodes_of s fd). matching e nd \<longrightarrow> ready_at_once sys nd"
  shows "handle_event n sys fd e (s, w) =
    res_bind (serve sys e (filter (matching e) (nodes_of s fd))
        (s\<lparr>descriptor_nodes := (descriptor_nodes s)[nat fd := []]\<rparr>, w)) (\<lambda>(s1, w1).
      update_descriptor sys fd
        (s1\<lparr>descriptor_nodes := (descriptor_nodes s1)[nat fd :=
           filter (\<lambda>nd. \<not> matching e nd) (nodes_of s fd) @ nodes_of s1 fd]\<rparr>, w1))"
proof -
  let ?s0 = "s\<lparr>descriptor_nodes := (descriptor_nodes s)[nat fd := []]\<rparr>"
  let ?serve = "serve sys e (filter (matching e) (nodes_of s fd)) (?s0, w)"
  have nodes: "vec_get (descriptor_nodes s) (nat fd) = Inr (nodes_of s fd)"
    using assms(1,2) by (simp add: nodes_of_def)
  have posted: "vec_get (descriptor_nodes s1) (nat fd) = Inr (nodes_of s1 fd)" if "?serve = Inr (s1, w1)" for s1 w1
    using serve_grows [OF that, of "length (descriptor_nodes s)"] assms(1,2) by (simp add: nodes_of_def)
  show ?thesis
  proof (cases ?serve)
    case (Inl f)
    with assms(1) show ?thesis
      by (simp add: handle_event_def Let_def nodes handle_nodes_serves [OF assms(4,3)])
  next
    case (Inr st1)
    obtain s1 w1 where st1: "st1 = (s1, w1)" by fastforce
    with Inr posted have "vec_get (descriptor_nodes s1) (nat fd) = Inr (nodes_of s1 fd)" by simp
    with Inr st1 assms(1) show ?thesis
      by (simp add: handle_event_def Let_def nodes handle_nodes_serves [OF assms(4,3)] del: vec_get_Inr)
  qed
qed

text \<open>
  An example: two coroutines wait to read from descriptor 1 and one to write; the second reader
  posts itself again.
\<close>

definition readers :: "node list" where
  "readers = [\<lparr>nd_ev = 1, nd_revent = 0, nd_next = Handle 0\<rparr>, \<lparr>nd_ev = 4, nd_revent = 1, nd_next = Handle 1\<rparr>,
     \<lparr>nd_ev = 5, nd_revent = 2, nd_next = Handle 2\<rparr>]"

definition readers_sys :: "ref_world sys" where
  "readers_sys = ref_sys (\<lambda>h. if h = 2 then Post_descriptor 1 1 2 (Handle 2) (Stop True) else Stop True)
     (\<lambda>_. Stop True)"

definition readers_sched :: sched where
  "readers_sched = \<lparr>coro_count = 3, time_nodes = [], descriptor_nodes = [[], readers],
     the_poller = \<lparr>epfd = 3, focus = [0, 5], evs = replicate 2 \<lparr>ee_events = 0, ee_fd = -1\<rparr>\<rparr>\<rparr>"

theorem handle_event_serves_witness:
  "case handle_event 3 readers_sys 1 1 (readers_sched, ref_start\<lparr>rw_interest := [1 \<mapsto> 5]\<rparr>) of
     Inr (s, w) \<Rightarrow> map nd_next (nodes_of s 1) = [Handle 1, Handle 2] \<and> coro_count s = 2 \<and>
       rw_log w = [0, 2] \<and> rw_interest w 1 = Some 5
   | Inl f \<Rightarrow> False"
proof -
  have nodes: "nodes_of readers_sched 1 = readers" by (simp add: nodes_of_def readers_sched_def)
  have pre: "length (nodes_of readers_sched 1) \<le> 3" "nat 1 < length (descriptor_nodes readers_sched)"
    "\<forall>nd \<in> set (nodes_of readers_sched 1). matching 1 nd \<longrightarrow> ready_at_once readers_sys nd"
    unfolding nodes by (simp_all add: readers_def readers_sched_def ready_at_once_def)
  have "case res_bind (serve readers_sys 1 (filter (matching 1) (nodes_of readers_sched 1))
        (readers_sched\<lparr>descriptor_nodes := (descriptor_nodes readers_sched)[nat 1 := []]\<rparr>,
         ref_start\<lparr>rw_interest := [1 \<mapsto> 5]\<rparr>)) (\<lambda>(s1, w1).
      update_descriptor readers_sys 1
        (s1\<lparr>descriptor_nodes := (descriptor_nodes s1)[nat 1 :=
           filter (\<lambda>nd. \<not> matching 1 nd) (nodes_of readers_sched 1) @ nodes_of s1 1]\<rparr>, w1)) of
     Inr (s, w) \<Rightarrow> map nd_next (nodes_of s 1) = [Handle 1, Handle 2] \<and> coro_count s = 2 \<and>
       rw_log w = [0, 2] \<and> rw_interest w 1 = Some 5
   | Inl f \<Rightarrow> False"
    by code_simp
  then show ?thesis by (subst handle_event_serves [OF _ pre(2,1,3)]) simp_all
qed

text \<open>
  A callable that is not ready is called again at once. The iterator only moves past a node that is
  ready, so a callable that keeps answering no holds the loop for ever, in the same handler, with
  no return to \<open>epoll_wait\<close>: no number of steps is enough.
\<close>

theorem callable_not_ready_spins:
  assumes "nd_next nd = Proxy p" "matching e nd"
    and "\<forall>st. \<exists>st'. run_co sys (sys_call sys p) st = Inr (False, st')"
  shows "handle_nodes n sys e kept (nd # rest) st = Inl Out_of_fuel"
proof (induction n arbitrary: st)
  case (Suc n)
  obtain s1 w1 where "run_co sys (sys_call sys p) (fst st, sys_store sys (nd_revent nd) e (snd st)) = Inr (False, s1, w1)"
    using assms(3) by (metis surj_pair)
  then show ?case using assms(1,2) Suc by (simp add: matching_def run_next_def)
qed simp

theorem callable_not_ready_spins_witness:
  "handle_nodes 1000 (ref_sys (\<lambda>_. Stop True) (\<lambda>_. Effect (ref_log 7) (\<lambda>_. Stop False))) 1 []
     [\<lparr>nd_ev = 1, nd_revent = 0, nd_next = Proxy 0\<rparr>] (readers_sched, ref_start) = Inl Out_of_fuel"
  by (rule callable_not_ready_spins [of _ 0]) (simp_all add: matching_def)

section \<open>Growing the buffer while events are delivered\<close>

text \<open>The ways posting, subscribing and unsubscribing can fail.\<close>

definition posting_fault :: "fault \<Rightarrow> bool" where
  "posting_fault f \<longleftrightarrow> (case f of Thrown ec \<Rightarrow> True | Assert_failed \<Rightarrow> True | Out_of_range \<Rightarrow> True | _ \<Rightarrow> False)"

lemma posting_fault_simps [simp]:
  "posting_fault (Thrown ec)" "posting_fault Assert_failed" "posting_fault Out_of_range"
  "\<not> posting_fault Dangling" "\<not> posting_fault Out_of_fuel" "\<not> posting_fault Terminated"
  by (simp_all add: posting_fault_def)

lemma vec_get_fault: "vec_get xs i = Inl f \<Longrightarrow> posting_fault f"
  by simp

lemma vec_set_fault: "vec_set xs i x = Inl f \<Longrightarrow> posting_fault f"
  by (auto simp: vec_set_def split: if_splits)

lemma poller_subscribe_fault: "poller_subscribe sys fd e st = Inl f \<Longrightarrow> posting_fault f"
  by (auto simp: poller_subscribe_def Let_def res_bind_eq_Inl dest: vec_set_fault
      split: option.splits prod.splits if_splits)

lemma sched_subscribe_fault: "sched_subscribe sys fd e st = Inl f \<Longrightarrow> posting_fault f"
  "sched_unsubscribe sys fd st = Inl f \<Longrightarrow> posting_fault f"
  by (auto simp: sched_subscribe_def sched_unsubscribe_def poller_unsubscribe_def res_bind_eq_Inl
      dest: poller_subscribe_fault)

lemma update_descriptor_fault: "update_descriptor sys fd st = Inl f \<Longrightarrow> posting_fault f"
  by (auto simp: update_descriptor_def res_bind_eq_Inl dest: sched_subscribe_fault)

lemma post_descriptor_fault: "post_descriptor sys fd e re nx st = Inl f \<Longrightarrow> posting_fault f"
  by (auto simp: post_descriptor_def Let_def res_bind_eq_Inl split: if_splits
      dest: vec_set_fault update_descriptor_fault)

lemma contain_fault: "contain r = Inl f \<Longrightarrow> (\<And>g. r = Inl g \<Longrightarrow> posting_fault g) \<Longrightarrow> f \<noteq> Dangling"
  by (cases r rule: contain.cases) auto

lemma contained_not_dangling:
  "contain (post_descriptor sys fd e re nx st) \<noteq> Inl Dangling"
  "contain (sched_unsubscribe sys fd st) \<noteq> Inl Dangling"
  by (meson contain_fault post_descriptor_fault, meson contain_fault sched_subscribe_fault(2))

lemma run_co_not_dangling: "run_co sys c st \<noteq> Inl Dangling"
  by (induction c arbitrary: st) (auto simp: res_bind_eq_Inl contained_not_dangling)


lemma run_next_not_dangling: "run_next sys nx st \<noteq> Inl Dangling"
  by (cases nx) (auto simp: run_next_def resume_def res_bind_eq_Inl run_co_not_dangling)

lemma handle_nodes_not_dangling: "handle_nodes n sys e kept nodes st \<noteq> Inl Dangling"
proof (induction n arbitrary: kept nodes st)
  case 0
  then show ?case by (cases nodes) auto
next
  case (Suc n)
  then show ?case
    by (cases nodes) (auto simp: res_bind_eq_Inl run_next_not_dangling split: if_splits)
qed

lemma handle_event_not_dangling: "handle_event n sys fd e st \<noteq> Inl Dangling"
  by (auto simp: handle_event_def Let_def res_bind_eq_Inl handle_nodes_not_dangling
      dest: update_descriptor_fault)

lemma deliver_not_dangling:
  assumes "\<And>fd e st st'. P st \<Longrightarrow> handler fd e st = Inr st' \<Longrightarrow> P st'"
    and "\<And>fd e st. handler fd e st \<noteq> Inl Dangling"
    and "\<And>st. P st \<Longrightarrow> length (evs (get (fst st))) = n"
  shows "P st \<Longrightarrow> deliver get handler es n st \<noteq> Inl Dangling"
  by (induction es arbitrary: st) (auto simp: res_bind_eq_Inl assms)

text \<open>The size of the buffer, while posting and unsubscribing stay below it.\<close>

definition sized :: "nat \<Rightarrow> sched \<Rightarrow> bool" where
  "sized N s \<longleftrightarrow> shaped s \<and> length (evs (the_poller s)) = N"

lemma sized_subscribe:
  assumes "sized N s" "nat fd < N" "poller_subscribe sys fd e (the_poller s, w) = Inr (the_poller s', w')"
  shows "length (evs (the_poller s')) = N"
  using assms poller_subscribe_focus(4) [OF assms(3)]
  by (auto simp: sized_def shaped_def same_size_def poller_adjust_size_def)

interpretation fixed: loop_invariant sys UNIV "{fd. nat fd < N}" "{fd. nat fd < N}" "\<lambda>t d s w. sized N s"
  for sys :: "'w sys" and N :: nat
proof
  fix s s' :: sched and w w' :: 'w and fd e re nx
  assume "fd \<in> {fd. nat fd < N}" "sized N s" "post_descriptor sys fd e re nx (s, w) = Inr (s', w')"
  then show "sized N s'"
    using sized_subscribe [OF _ _ post_descriptor_effect(2)] shaped_post by (auto simp: sized_def)
next
  fix s s' :: sched and w w' :: 'w and fd
  assume "fd \<in> {fd. nat fd < N}" "sized N s" "sched_unsubscribe sys fd (s, w) = Inr (s', w')"
  then show "sized N s'"
    using sized_subscribe [OF _ _ sched_unsubscribe_effect(1)] shape.R_unsubscribe
    by (metis UNIV_I mem_Collect_eq sized_def)
next
  fix s s' :: sched and w w' :: 'w and fd xs
  assume s: "sized N s" and fd: "0 \<le> fd" "nat fd < length (descriptor_nodes s)"
    and upd: "update_descriptor sys fd
      (s\<lparr>descriptor_nodes := (descriptor_nodes s)[nat fd := xs @ nodes_of s fd]\<rparr>, w) = Inr (s', w')"
  from s fd(2) have "nat fd < N" by (simp add: sized_def shaped_def same_size_def)
  then have "length (evs (the_poller s')) = N"
    by (rule sized_subscribe [OF s _ splice_in_effect(2) [OF fd upd]])
  moreover have "shaped s'" using shape.R_splice_in [OF _ fd upd] s by (simp add: sized_def)
  ultimately show "sized N s'" by (simp add: sized_def)
qed (auto simp: sized_def post_timer_def intro: shaped_frame)

section \<open>An accepting coroutine\<close>

text \<open>
  Two coroutines wait to read from the descriptors 5 and 6; both events arrive in one batch, and
  the first coroutine starts one that waits on a new descriptor, as a server does that accepts
  a connection.
\<close>

definition accept_main :: "ref_world co" where
  "accept_main = Post_descriptor 5 ev_READ 0 (Handle 0) (Post_descriptor 6 ev_READ 1 (Handle 1) (Stop True))"

definition accept_sys :: "int \<Rightarrow> ref_world sys" where
  "accept_sys new = ref_sys
     (\<lambda>h. if h = 0 then Post_descriptor new ev_READ 2 (Handle 2) (Stop True) else Stop True) (\<lambda>_. Stop True)"

definition accept_start :: "int \<Rightarrow> ref_world" where
  "accept_start new = ref_start\<lparr>rw_script := [[\<lparr>ee_events = 1, ee_fd = 5\<rparr>, \<lparr>ee_events = 1, ee_fd = 6\<rparr>],
     [\<lparr>ee_events = 1, ee_fd = new\<rparr>]]\<rparr>"

text \<open>
  C19. When the buffer is safe. The delivery loop of \<open>poll\<close> reads the buffer while the handlers run. As
  long as the coroutines post on and unsubscribe descriptors below the size of the buffer only,
  no handler reallocates it and every read is valid, whatever else they do.
\<close>

theorem delivery_is_stable:
  assumes "loop_state sys main w0 (s, w)"
    and "behaved sys UNIV {fd. nat fd < length (evs (the_poller s))} {fd. nat fd < length (evs (the_poller s))}"
  shows "handle_triggered n sys period (s, w) \<noteq> Inl Dangling"
proof -
  have "shaped (fst (s, w))"
    by (rule shape.loop_state_R [OF assms(1)]) (simp_all add: shaped_new)
  then have s: "sized (length (evs (the_poller s))) s" by (simp add: sized_def)
  have "deliver the_poller (handle_event n sys) es (length es') (s\<lparr>the_poller := (the_poller s)\<lparr>evs := es'\<rparr>\<rparr>, w1)
      \<noteq> Inl Dangling" if "length es' = length (evs (the_poller s))" for es es' w1
  proof (rule deliver_not_dangling [where P = "\<lambda>st. sized (length es') (fst st)"])
    show "sized (length es') (fst (s\<lparr>the_poller := (the_poller s)\<lparr>evs := es'\<rparr>\<rparr>, w1))"
      using fixed.R_buffer [OF s that] that by simp
    show "sized (length es') (fst st')" if "sized (length es') (fst st)" "handle_event n sys fd e st = Inr st'"
      for fd e st st'
    proof -
      have "behaved sys UNIV {fd. nat fd < length es'} {fd. nat fd < length es'}"
        using assms(2) \<open>length es' = length (evs (the_poller s))\<close> by simp
      then show ?thesis
        by (rule fixed.handle_event_R [where s = "fst st" and w = "snd st" and s' = "fst st'" and w' = "snd st'"])
          (use that in simp_all)
    qed
  qed (simp_all add: handle_event_not_dangling sized_def)
  note stable = this
  obtain res w1 where wait: "sys_epoll_wait sys (epfd (the_poller s)) (length (evs (the_poller s)))
      (ms_of_ns period) w = (res, w1)" by fastforce
  show ?thesis
  proof (cases "ms_of_ns period < 0 \<or> isl res")
    case True
    with wait show ?thesis by (cases res) (auto simp: handle_triggered_def poll_def Let_def)
  next
    case False
    then obtain ready where "\<not> ms_of_ns period < 0" "res = Inr ready" by (cases res) auto
    from handle_triggered_ready [OF this(1) wait [unfolded this(2)], of n] stable show ?thesis by metis
  qed
qed

theorem delivery_is_stable_witness:
  "\<exists>s w. loop_state (accept_sys 7) accept_main (accept_start 7) (s, w) \<and>
    rw_script w \<noteq> [] \<and> handle_triggered 5 (accept_sys 7) 1000000 (s, w) \<noteq> Inl Dangling"
proof -
  have ctor: "poller_ctor (accept_sys 7) (accept_start 7) = Inr (\<lparr>epfd = 3, focus = [], evs = []\<rparr>, accept_start 7)"
    by (simp add: poller_ctor_def accept_sys_def)
  have "case run_co (accept_sys 7) accept_main (new_sched \<lparr>epfd = 3, focus = [], evs = []\<rparr>, accept_start 7) of
      Inr (b, s, w) \<Rightarrow> length (evs (the_poller s)) = 8 \<and> rw_script w \<noteq> [] | Inl f \<Rightarrow> False"
    by code_simp
  then obtain b s w where
    "run_co (accept_sys 7) accept_main (new_sched \<lparr>epfd = 3, focus = [], evs = []\<rparr>, accept_start 7) = Inr (b, s, w)"
    and s: "length (evs (the_poller s)) = 8" "rw_script w \<noteq> []"
    by (auto split: sum.splits)
  from started [OF ctor this(1)] have st: "loop_state (accept_sys 7) accept_main (accept_start 7) (s, w)" .
  have "behaved (accept_sys 7) UNIV {fd. nat fd < 8} {fd. nat fd < 8}"
    by (simp add: behaved_def accept_sys_def)
  with st s delivery_is_stable [OF st] show ?thesis by auto
qed

section \<open>A reallocated buffer\<close>
















end
