(* ===== verification/BC_Timers.thy ===== *)
theory BC_Timers
  imports BC_Handlers
begin

text \<open>
  Timers. With coroutines that only wait for the clock the loop is totally correct: it ends, each
  coroutine is resumed exactly once, in the order of the deadlines and never before its own.

  The outside is any whose clock does not run backwards and whose sleep lasts as long as asked;
  the coroutines leave a trace of when they were resumed.
\<close>

section \<open>Clocks and traces\<close>

definition timers_only :: "'w sys \<Rightarrow> ('w \<Rightarrow> int) \<Rightarrow> ('w \<Rightarrow> (int \<times> nat) list) \<Rightarrow> bool" where
  "timers_only sys clock trace \<longleftrightarrow>
     (\<forall>w. fst (sys_now sys w) = clock w \<and> clock w \<le> clock (snd (sys_now sys w)) \<and>
        trace (snd (sys_now sys w)) = trace w) \<and>
     (\<forall>ns w. clock w + max 0 ns \<le> clock (sys_sleep sys ns w) \<and> trace (sys_sleep sys ns w) = trace w) \<and>
     (\<forall>h w. \<not> sys_done sys h w) \<and>
     (\<forall>h. \<exists>g b. sys_resume sys h = Effect g (\<lambda>_. Stop b) \<and>
        (\<forall>w. clock w \<le> clock (g w) \<and> trace (g w) = trace w @ [(clock w, h)]))"

lemma timers_onlyD:
  assumes "timers_only sys clock trace"
  shows "fst (sys_now sys w) = clock w" "clock w \<le> clock (snd (sys_now sys w))"
    "trace (snd (sys_now sys w)) = trace w" "clock w + max 0 ns \<le> clock (sys_sleep sys ns w)"
    "trace (sys_sleep sys ns w) = trace w" "\<not> sys_done sys h w"
  using assms unfolding timers_only_def by blast+

text \<open>Between two states of the outside the coroutines of the timers \<open>q\<close> were resumed, in time.\<close>

definition woken ::
    "('w \<Rightarrow> int) \<Rightarrow> ('w \<Rightarrow> (int \<times> nat) list) \<Rightarrow> time_node list \<Rightarrow> 'w \<Rightarrow> 'w \<Rightarrow> bool" where
  "woken clock trace q w w' \<longleftrightarrow> clock w \<le> clock w' \<and>
     (\<exists>ran. trace w' = trace w @ ran \<and> map snd ran = map snd q \<and>
        list_all2 (\<lambda>x r. fst x \<le> fst r) q ran \<and> sorted (map fst ran) \<and>
        (\<forall>r \<in> set ran. clock w \<le> fst r \<and> fst r \<le> clock w'))"

lemma woken_quiet: "clock w \<le> clock w' \<Longrightarrow> trace w' = trace w \<Longrightarrow> woken clock trace [] w w'"
  by (auto simp: woken_def)

lemma woken_trans:
  assumes "woken clock trace q1 w w1" "woken clock trace q2 w1 w2"
  shows "woken clock trace (q1 @ q2) w w2"
proof -
  from assms obtain r1 r2 where r1: "trace w1 = trace w @ r1" "map snd r1 = map snd q1"
      "list_all2 (\<lambda>x r. fst x \<le> fst r) q1 r1" "sorted (map fst r1)"
      "\<forall>r \<in> set r1. clock w \<le> fst r \<and> fst r \<le> clock w1" "clock w \<le> clock w1"
    and r2: "trace w2 = trace w1 @ r2" "map snd r2 = map snd q2"
      "list_all2 (\<lambda>x r. fst x \<le> fst r) q2 r2" "sorted (map fst r2)"
      "\<forall>r \<in> set r2. clock w1 \<le> fst r \<and> fst r \<le> clock w2" "clock w1 \<le> clock w2"
    by (auto simp: woken_def)
  have "sorted (map fst (r1 @ r2))"
    using r1(4,5) r2(4,5) by (fastforce simp: sorted_append)
  moreover have "\<forall>r \<in> set (r1 @ r2). clock w \<le> fst r \<and> fst r \<le> clock w2"
    using r1(5,6) r2(5,6) by fastforce
  ultimately show ?thesis
    unfolding woken_def using r1 r2 by (intro conjI exI [of _ "r1 @ r2"]) (auto intro: list_all2_appendI)
qed

lemma resume_woken:
  assumes "timers_only sys clock trace" "tp \<le> clock w"
  obtains w' where "resume sys h (s, w) = Inr (s, w')" "woken clock trace [(tp, h)] w w'"
proof -
  from assms(1) obtain g b where "sys_resume sys h = Effect g (\<lambda>_. Stop b)"
    and "\<forall>w. clock w \<le> clock (g w) \<and> trace (g w) = trace w @ [(clock w, h)]"
    unfolding timers_only_def by blast
  then have "resume sys h (s, w) = Inr (s, g w)" "woken clock trace [(tp, h)] w (g w)"
    using assms(2) by (auto simp: resume_def woken_def)
  then show ?thesis by (rule that)
qed

section \<open>One pass\<close>

text \<open>What is left when the first timers have run.\<close>

definition with_timers :: "sched \<Rightarrow> time_node list \<Rightarrow> sched" where
  "with_timers s q = s\<lparr>time_nodes := q, coro_count := length q\<rparr>"

lemma with_timers_simps [simp]:
  "time_nodes (with_timers s q) = q" "coro_count (with_timers s q) = length q"
  "with_timers (with_timers s q) q' = with_timers s q'"
  by (simp_all add: with_timers_def)

lemma handle_expired_woken:
  assumes sys: "timers_only sys clock trace"
  shows "\<exists>due rest w'. q = due @ rest \<and>
    (\<forall>n k. length q < n \<longrightarrow>
       handle_expired n sys k (with_timers s q, w) = Inr (k + length due > 0, with_timers s rest, w')) \<and>
    woken clock trace due w w' \<and> (due = [] \<longrightarrow> q \<noteq> [] \<longrightarrow> clock w < fst (hd q))"
proof (induction q arbitrary: w)
  case Nil
  have "handle_expired n sys k (with_timers s [], w) = Inr (k > 0, with_timers s [], w)" if "0 < n" for n k
    using that by (cases n) auto
  then show ?case by (auto intro: woken_quiet)
next
  case (Cons x q)
  obtain now w1 where now: "sys_now sys w = (now, w1)" by fastforce
  then have w1: "now = clock w" "woken clock trace [] w w1" "clock w \<le> clock w1"
    using timers_onlyD(1-3) [OF sys, of w] by (auto intro: woken_quiet)
  show ?case
  proof (cases "fst x \<le> now")
    case False
    then have "handle_expired n sys k (with_timers s (x # q), w) = Inr (k > 0, with_timers s (x # q), w1)"
      if "length (x # q) < n" for n k
      using that now by (cases n) (auto simp: pq_top_def)
    with False w1 show ?thesis by (intro exI [of _ "[]"] exI [of _ "x # q"] exI [of _ w1]) auto
  next
    case True
    let ?s = "(with_timers s (x # q))\<lparr>time_nodes := q\<rparr>"
    from True w1 have "fst x \<le> clock w1" by simp
    then obtain w2 where res: "resume sys (snd x) (?s, w1) = Inr (?s, w2)" and w2: "woken clock trace [x] w1 w2"
      using resume_woken [OF sys, of "fst x" w1 "snd x"] by (metis prod.collapse)
    have count: "?s\<lparr>coro_count := length q\<rparr> = with_timers s q" by (simp add: with_timers_def)
    have step: "handle_expired (Suc m) sys k (with_timers s (x # q), w) =
        handle_expired m sys (k + 1) (with_timers s q, w2)" for m k
      using True now res count timers_onlyD(6) [OF sys] by (simp add: pq_top_def pq_pop_def)
    from Cons.IH [of w2] obtain due rest w' where ih: "q = due @ rest"
        "\<And>n k. length q < n \<Longrightarrow>
           handle_expired n sys k (with_timers s q, w2) = Inr (k + length due > 0, with_timers s rest, w')"
        "woken clock trace due w2 w'" by blast
    have "woken clock trace (x # due) w w'"
      using woken_trans [OF woken_trans [OF w1(2) w2] ih(3)] by simp
    moreover have "handle_expired n sys k (with_timers s (x # q), w)
        = Inr (k + length (x # due) > 0, with_timers s rest, w')" if "length (x # q) < n" for n k
      using that step [of "n - 1" k] ih(2) [of "n - 1" "k + 1"] by (cases n) auto
    ultimately show ?thesis
      using ih(1) by (intro exI [of _ "x # due"] exI [of _ rest] exI [of _ w']) auto
  qed
qed

section \<open>The whole loop\<close>

text \<open>
  The measure of the outer induction is the number of timers, of the inner one the time left to
  the first deadline: every sleep brings the clock to the deadline or a second closer.
\<close>

lemma sleep_progress:
  assumes "timers_only sys clock trace" "clock w < tp" "clock w \<le> clock w1" "sys_now sys w1 = (now, w2)"
  shows "nat (tp - clock (sys_sleep sys (next_period ((tp, h) # q) now) w2)) < nat (tp - clock w)"
proof -
  have "now = clock w1" "clock w1 \<le> clock w2"
    using timers_onlyD(1,2) [OF assms(1), of w1] assms(4) by simp_all
  moreover have "clock w2 + max 0 (next_period ((tp, h) # q) now)
      \<le> clock (sys_sleep sys (next_period ((tp, h) # q) now) w2)"
    by (rule timers_onlyD(4) [OF assms(1)])
  ultimately show ?thesis
    using assms(2,3) by (auto simp: next_period_def pq_top_def s_period_def)
qed

lemma run_woken:
  assumes sys: "timers_only sys clock trace"
  shows "\<exists>N w'. (\<forall>n\<ge>N. run n sys (with_timers s q, w) = Inr (with_timers s [], w')) \<and> woken clock trace q w w'"
proof (induction "length q" arbitrary: q w rule: less_induct)
  case less
  note fewer = less
  show ?case
  proof (induction "nat (fst (hd q) - clock w)" arbitrary: w rule: less_induct)
    case less
    show ?case
    proof (cases q)
      case Nil
      have "run n sys (with_timers s [], w) = Inr (with_timers s [], w)" if "1 \<le> n" for n
        using that by (cases n) auto
      moreover have "woken clock trace [] w w" by (rule woken_quiet) auto
      ultimately show ?thesis unfolding Nil by blast
    next
      case (Cons x q')
      have one: "run (Suc n) sys (with_timers s q, w) =
          res_bind (iteration n sys (with_timers s q, w)) (run n sys)" for n
        by (simp add: Cons)
      from handle_expired_woken [OF sys, of q s w] obtain due rest w1 where q: "q = due @ rest"
        and all: "\<forall>n k. length q < n \<longrightarrow>
          handle_expired n sys k (with_timers s q, w) = Inr (k + length due > 0, with_timers s rest, w1)"
        and d: "woken clock trace due w w1" and first: "due = [] \<longrightarrow> q \<noteq> [] \<longrightarrow> clock w < fst (hd q)"
        by blast
      have exp: "length q < n \<Longrightarrow>
          handle_expired n sys 0 (with_timers s q, w) = Inr (length due > 0, with_timers s rest, w1)" for n
        using all by simp
      have none: "due = [] \<Longrightarrow> clock w < fst x" using first Cons by simp
      show ?thesis
      proof (cases "due = []")
        case False
        with exp have it: "length q < n \<Longrightarrow> iteration n sys (with_timers s q, w) = Inr (with_timers s rest, w1)" for n
          by (simp add: iteration_def)
        from False q have "length rest < length q" by simp
        from fewer(1) [OF this, of w1] obtain N w' where
          ih: "\<And>n. n \<ge> N \<Longrightarrow> run n sys (with_timers s rest, w1) = Inr (with_timers s [], w')"
          and w': "woken clock trace rest w1 w'" by blast
        have "run n sys (with_timers s q, w) = Inr (with_timers s [], w')" if "n \<ge> Suc (Suc (N + length q))" for n
          using that one [of "n - 1"] it [of "n - 1"] ih [of "n - 1"] by (cases n) auto
        then show ?thesis using woken_trans [OF d w'] q by blast
      next
        case True
        obtain now w2 where now: "sys_now sys w1 = (now, w2)" by fastforce
        define w3 where "w3 = sys_sleep sys (next_period q now) w2"
        have it: "length q < n \<Longrightarrow> iteration n sys (with_timers s q, w) = Inr (with_timers s q, w3)" for n
          using exp [of n] True q now by (simp add: iteration_def w3_def)
        have "clock w \<le> clock w1" using d by (simp add: woken_def)
        with none [OF True] now Cons have "nat (fst (hd q) - clock w3) < nat (fst (hd q) - clock w)"
          unfolding w3_def using sleep_progress [OF sys, of w "fst x" w1 now w2 "snd x" q'] by simp
        from less(1) [OF this] obtain N w' where
          ih: "\<And>n. n \<ge> N \<Longrightarrow> run n sys (with_timers s q, w3) = Inr (with_timers s [], w')"
          and w': "woken clock trace q w3 w'" by blast
        have "woken clock trace [] w1 w3"
          using timers_onlyD(2-5) [OF sys] now unfolding w3_def
          by (intro woken_quiet) (metis fst_conv snd_conv max.cobounded1 add_increasing2 order_trans)+
        from woken_trans [OF d woken_trans [OF this w']] True have "woken clock trace q w w'" by simp
        moreover have "run n sys (with_timers s q, w) = Inr (with_timers s [], w')"
          if "n \<ge> Suc (Suc (N + length q))" for n
          using that one [of "n - 1"] it [of "n - 1"] ih [of "n - 1"] by (cases n) auto
        ultimately show ?thesis by blast
      qed
    qed
  qed
qed

section \<open>Properties\<close>

text \<open>Posting timers in any order.\<close>

fun post_timers :: "time_node list \<Rightarrow> sched \<Rightarrow> sched" where
  "post_timers [] s = s"
| "post_timers (x # xs) s = post_timers xs (post_timer (fst x) (snd x) s)"

lemma post_timers_queue:
  "pq_inv q \<Longrightarrow> \<exists>q'. post_timers xs (with_timers s q) = with_timers s q' \<and> pq_inv q' \<and> mset q' = mset q + mset xs"
proof (induction xs arbitrary: q)
  case (Cons x xs)
  have "post_timer (fst x) (snd x) (with_timers s q) = with_timers s (pq_push x q)"
    by (simp add: post_timer_def with_timers_def pq_push_def)
  with Cons.IH [OF timers.inv_push [OF Cons.prems, of x]] timers.elems_push [OF Cons.prems, of x]
  show ?case by auto
qed auto

text \<open>A kernel of a clock and a trace only.\<close>

definition clock_sys :: "(int \<times> (int \<times> nat) list) sys" where
  "clock_sys =
     \<lparr>sys_epoll_create = (\<lambda>w. (Inr 3, w)), sys_close = (\<lambda>fd w. (0, w)),
      sys_epoll_ctl = (\<lambda>ep op fd e w. (0, w)), sys_epoll_wait = (\<lambda>ep n t w. (Inr [], w)),
      sys_now = (\<lambda>w. (fst w, (fst w + 1, snd w))),
      sys_sleep = (\<lambda>ns w. (fst w + max 0 ns, snd w)),
      sys_store = (\<lambda>r e w. w),
      sys_resume = (\<lambda>h. Effect (\<lambda>w. (fst w, snd w @ [(fst w, h)])) (\<lambda>_. Stop True)),
      sys_call = (\<lambda>p. Stop True), sys_done = (\<lambda>h w. False)\<rparr>"

lemma clock_sys_timers_only: "timers_only clock_sys fst snd"
  unfolding timers_only_def clock_sys_def by fastforce

text \<open>
  C4. Timers are served. With coroutines that only wait for their time, posted in any order, \<open>run\<close>
  returns: there is a number of steps from which on it does, with the same result. Each coroutine
  was then resumed exactly once, none before its time, in the order of the times, and nothing is
  left to wait for.
\<close>

theorem run_wakes_every_sleeper:
  assumes "timers_only sys clock trace"
  shows "\<exists>q N s' w' ran. mset q = mset xs \<and> sorted (map fst q) \<and>
    (\<forall>n\<ge>N. run n sys (post_timers xs (new_sched p), w) = Inr (s', w')) \<and>
    coro_count s' = 0 \<and> time_nodes s' = [] \<and> trace w' = trace w @ ran \<and>
    map snd ran = map snd q \<and> list_all2 (\<lambda>x r. fst x \<le> fst r) q ran \<and> sorted (map fst ran)"
proof -
  have "new_sched p = with_timers (new_sched p) []" by (simp add: new_sched_def with_timers_def)
  with post_timers_queue [of "[]" xs "new_sched p"] obtain q where
    q: "post_timers xs (new_sched p) = with_timers (new_sched p) q" "sorted (map fst q)" "mset q = mset xs"
    by (auto simp: pq_inv_def)
  from run_woken [OF assms, of "new_sched p" q w] obtain N w' where
    "\<forall>n\<ge>N. run n sys (with_timers (new_sched p) q, w) = Inr (with_timers (new_sched p) [], w')"
    and w': "woken clock trace q w w'" by blast
  moreover from w' obtain ran where "trace w' = trace w @ ran" "map snd ran = map snd q"
      "list_all2 (\<lambda>x r. fst x \<le> fst r) q ran" "sorted (map fst ran)"
    unfolding woken_def by blast
  ultimately show ?thesis unfolding q(1) using q(2,3)
    by (intro exI [of _ q] exI [of _ N] exI [of _ "with_timers (new_sched p) []"] exI [of _ w'] exI [of _ ran])
      simp
qed

theorem run_wakes_every_sleeper_witness:
  "\<exists>q N s' w' ran. mset q = {#(30 :: int, 0), (10, 1), (20, 2)#} \<and> sorted (map fst q) \<and>
    run (N + 5) clock_sys (post_timers [(30, 0), (10, 1), (20, 2)] (new_sched \<lparr>epfd = 3, focus = [], evs = []\<rparr>), (0, [])) = Inr (s', w') \<and>
    snd w' = ran \<and> map snd ran = map snd q"
proof -
  from run_wakes_every_sleeper [OF clock_sys_timers_only, of "[(30, 0), (10, 1), (20, 2)]" "\<lparr>epfd = 3, focus = [], evs = []\<rparr>" "(0, [])"]
  obtain q N s' w' ran where "mset q = {#(30 :: int, 0), (10, 1), (20, 2)#}" "sorted (map fst q)"
    "\<forall>n\<ge>N. run n clock_sys (post_timers [(30, 0), (10, 1), (20, 2)] (new_sched \<lparr>epfd = 3, focus = [], evs = []\<rparr>), (0, [])) = Inr (s', w')"
    "snd w' = ran" "map snd ran = map snd q"
    by auto
  moreover from this(3) have
    "run (N + 5) clock_sys (post_timers [(30, 0), (10, 1), (20, 2)] (new_sched \<lparr>epfd = 3, focus = [], evs = []\<rparr>), (0, [])) = Inr (s', w')"
    by (meson le_add1)
  ultimately show ?thesis by blast
qed

text \<open>
  \<open>co_await async_sleep(d)\<close>. Unless the time has passed by the second reading of the clock, the coroutine is
  posted for the time of the first reading plus \<open>d\<close>; the loop then resumes it once that time has come and
  not before, along with the timers already there, and returns.
\<close>

theorem async_sleep_wakes_in_time:
  assumes "timers_only sys clock trace" "coro_count s = length (time_nodes s)" "pq_inv (time_nodes s)"
    and "clock (snd (sys_now sys w)) < clock w + d"
  shows "\<exists>N s' w' ran. (\<forall>n\<ge>N. res_bind (run_co sys (async_sleep sys d h k) (s, w)) (\<lambda>(b, st). run n sys st)
        = Inr (s', w')) \<and>
    trace w' = trace w @ ran \<and> (\<exists>t. (t, h) \<in> set ran \<and> clock w + d \<le> t) \<and>
    length ran = Suc (length (time_nodes s))"
proof -
  obtain t0 w1 where w1: "sys_now sys w = (t0, w1)" by fastforce
  obtain t1 w2 where w2: "sys_now sys w1 = (t1, w2)" by fastforce
  have t: "t0 = clock w" "t1 = clock w1" "trace w2 = trace w"
    using timers_onlyD(1,3) [OF assms(1), of w] timers_onlyD(1,3) [OF assms(1), of w1] w1 w2 by simp_all
  let ?q = "pq_push (clock w + d, h) (time_nodes s)"
  have "run_co sys (async_sleep sys d h k) (s, w) = Inr (True, post_timer (clock w + d) h s, w2)"
    using assms(4) t w1 w2 by (simp add: async_sleep_def Let_def)
  moreover have "post_timer (clock w + d) h s = with_timers s ?q"
    using assms(2) by (simp add: post_timer_def with_timers_def pq_push_def)
  moreover obtain N w' where
    "\<forall>n\<ge>N. run n sys (with_timers s ?q, w2) = Inr (with_timers s [], w')" "woken clock trace ?q w2 w'"
    using run_woken [OF assms(1)] by blast
  moreover from this(2) obtain ran where ran: "trace w' = trace w @ ran" "map snd ran = map snd ?q"
      "list_all2 (\<lambda>x r. fst x \<le> fst r) ?q ran"
    using t(3) by (auto simp: woken_def)
  moreover have "(clock w + d, h) \<in> set ?q" by (simp add: pq_push_def set_insort_key)
  then obtain i where i: "i < length ?q" "?q ! i = (clock w + d, h)" by (auto simp: in_set_conv_nth)
  then have len: "i < length ran" "fst (ran ! i) \<ge> clock w + d"
    using ran(3) by (auto simp: list_all2_conv_all_nth)
  have "snd (ran ! i) = map snd ?q ! i" using len(1) by (simp add: ran(2) [symmetric])
  then have "snd (ran ! i) = h" using i by simp
  with len have "\<exists>t. (t, h) \<in> set ran \<and> clock w + d \<le> t"
    by (intro exI [of _ "fst (ran ! i)"]) (metis nth_mem prod.collapse)
  moreover have "length ran = Suc (length (time_nodes s))"
    using ran(3) by (simp add: list_all2_lengthD [symmetric] pq_push_def)
  ultimately show ?thesis
    by (intro exI [of _ N] exI [of _ "with_timers s []"] exI [of _ w'] exI [of _ ran]) simp
qed

theorem async_sleep_wakes_in_time_witness:
  "\<exists>N s' w' ran t. res_bind (run_co clock_sys (async_sleep clock_sys 2000000000 7 (Stop True)) (new_sched \<lparr>epfd = 3, focus = [], evs = []\<rparr>, (0, [])))
      (\<lambda>(b, st). run (N + 5) clock_sys st) = Inr (s', w') \<and> snd w' = ran \<and> (t, 7) \<in> set ran \<and> 2000000000 \<le> t"
proof -
  have "fst (snd (sys_now clock_sys (0, []))) < fst (0, [] :: (int \<times> nat) list) + 2000000000"
    by (simp add: clock_sys_def)
  from async_sleep_wakes_in_time [OF clock_sys_timers_only _ _ this, of "new_sched \<lparr>epfd = 3, focus = [], evs = []\<rparr>" 7 "Stop True"]
  obtain N s' w' ran t where
    "\<forall>n\<ge>N. res_bind (run_co clock_sys (async_sleep clock_sys 2000000000 7 (Stop True)) (new_sched \<lparr>epfd = 3, focus = [], evs = []\<rparr>, (0, [])))
      (\<lambda>(b, st). run n clock_sys st) = Inr (s', w')" "snd w' = ran" "(t, 7) \<in> set ran" "2000000000 \<le> t"
    by (auto simp: new_sched_def pq_inv_def)
  then show ?thesis by (meson le_add1)
qed

end
