(* ===== verification/BC_Formatter.thy ===== *)
theory BC_Formatter
  imports BC_Prelude
begin

text \<open>
  Log levels and the formatter: \<open>include/bc/log/record.hpp\<close>, \<open>include/bc/log/formatter.hpp\<close> and
  \<open>src/log/formatter.cpp\<close>. The constructor's scan over the format string is modelled with its
  indices and its two states, and shown equal to a recursive reading of the string; printing a
  list of segments and scanning the text gives the list back.
\<close>

section \<open>Levels\<close>

datatype level = DEBUG | INFO | WARNING | ERROR | FATAL

fun level_value :: "level \<Rightarrow> nat" where
  "level_value DEBUG = 0"
| "level_value INFO = 1"
| "level_value WARNING = 2"
| "level_value ERROR = 3"
| "level_value FATAL = 4"

text \<open>\<open>operator <=>\<close>: negative, zero or positive. The operators \<open><\<close> and \<open><=\<close> are rewritten to it.\<close>

definition level_compare :: "level \<Rightarrow> level \<Rightarrow> int" where
  "level_compare lhs rhs = sgn (int (level_value lhs) - int (level_value rhs))"

lemma level_compare_iff [simp]:
  "level_compare l r < 0 \<longleftrightarrow> level_value l < level_value r" "level_compare l r \<le> 0 \<longleftrightarrow> level_value l \<le> level_value r"
  by (auto simp: level_compare_def sgn_if)

instantiation level :: linorder
begin

definition less_eq_level :: "level \<Rightarrow> level \<Rightarrow> bool" where
  "less_eq_level l r = (level_compare l r \<le> 0)"

definition less_level :: "level \<Rightarrow> level \<Rightarrow> bool" where
  "less_level l r = (level_compare l r < 0)"

instance
proof
  fix x y z :: level
  show "x < y \<longleftrightarrow> x \<le> y \<and> \<not> y \<le> x" by (auto simp: less_eq_level_def less_level_def)
  show "x \<le> x" by (simp add: less_eq_level_def)
  show "x \<le> y \<Longrightarrow> y \<le> z \<Longrightarrow> x \<le> z" by (simp add: less_eq_level_def)
  show "x \<le> y \<Longrightarrow> y \<le> x \<Longrightarrow> x = y" by (cases x; cases y) (simp_all add: less_eq_level_def)
  show "x \<le> y \<or> y \<le> x" by (auto simp: less_eq_level_def)
qed

end

definition level_strings :: "string list" where
  "level_strings = [''DEBUG'', ''INFO'', ''WARNING'', ''ERROR'', ''FATAL'']"

definition level_string :: "level \<Rightarrow> string" where
  "level_string l = level_strings ! level_value l"

section \<open>The formatter\<close>

datatype meta_type = DATETIME | LEVEL | TOPIC | THREAD | LOCATION | MESSAGE

datatype segment = Raw string | Meta meta_type

record formatter =
  fmt_format :: string
  segments :: "segment list"

text \<open>The chain of comparisons of the constructor.\<close>

definition meta_of :: "string \<Rightarrow> meta_type option" where
  "meta_of name =
     (if name = ''datetime'' then Some DATETIME
      else if name = ''level'' then Some LEVEL
      else if name = ''topic'' then Some TOPIC
      else if name = ''thread'' then Some THREAD
      else if name = ''location'' then Some LOCATION
      else if name = ''message'' then Some MESSAGE
      else None)"

text \<open>The view of the characters from \<open>a\<close> up to \<open>b\<close>.\<close>

definition view :: "string \<Rightarrow> nat \<Rightarrow> nat \<Rightarrow> string" where
  "view f a b = take (b - a) (drop a f)"

datatype scan_state = RAW | META

text \<open>The loop of the constructor: \<open>i\<close>, \<open>s\<close>, \<open>state\<close> and \<open>segments_\<close>.\<close>

function scan_loop ::
    "string \<Rightarrow> nat \<Rightarrow> nat \<Rightarrow> scan_state \<Rightarrow> segment list \<Rightarrow> nat \<times> scan_state \<times> segment list" where
  "scan_loop f i s st segs =
     (if \<not> i < length f then (s, st, segs)
      else if st = RAW \<and> f ! i = CHR ''%'' \<and> i < length f - 1 \<and> f ! (i + 1) = CHR ''{'' then
        scan_loop f (i + 2) (i + 2) META (if i \<noteq> s then segs @ [Raw (view f s i)] else segs)
      else if st = META \<and> f ! i = CHR ''}'' then
        scan_loop f (i + 1) (i + 1) RAW
          (case meta_of (view f s i) of Some m \<Rightarrow> segs @ [Meta m] | None \<Rightarrow> segs)
      else scan_loop f (i + 1) s st segs)"
  by pat_completeness auto
termination by (relation "measure (\<lambda>(f, i, s, st, segs). length f - i)") auto

declare scan_loop.simps [simp del]

definition formatter_ctor :: "string \<Rightarrow> formatter" where
  "formatter_ctor f =
     (case scan_loop f 0 0 RAW [] of
        (s, st, segs) \<Rightarrow>
          \<lparr>fmt_format = f,
           segments = (if st = RAW \<and> s \<noteq> length f then segs @ [Raw (view f s (length f))] else segs)\<rparr>)"

fun meta_repr :: "meta_type \<Rightarrow> string" where
  "meta_repr DATETIME = ''%{datetime}''"
| "meta_repr LEVEL = ''%{level}''"
| "meta_repr TOPIC = ''%{topic}''"
| "meta_repr THREAD = ''%{thread}''"
| "meta_repr LOCATION = ''%{location}''"
| "meta_repr MESSAGE = ''%{message}''"

fun segment_repr :: "segment \<Rightarrow> string" where
  "segment_repr (Raw s) = s"
| "segment_repr (Meta m) = meta_repr m"

definition repr :: "formatter \<Rightarrow> string" where
  "repr fm = foldl (\<lambda>r seg. r @ segment_repr seg) [] (segments fm)"

text \<open>
  A record, and the functions of the formatting library: the time stamp (nanoseconds since the
  epoch) with \<open>{:%F %H:%M:}\<close> and its milliseconds with \<open>{:%S}\<close>, and decimal numbers.
\<close>

record log_record =
  lr_timestamp :: int
  lr_level :: level
  lr_topic :: string
  lr_tid :: int
  lr_file :: string
  lr_line :: nat
  lr_message :: string

record log_fmt =
  lf_minutes :: "int \<Rightarrow> string"
  lf_seconds :: "int \<Rightarrow> string"
  lf_int :: "int \<Rightarrow> string"

fun meta_text :: "log_fmt \<Rightarrow> log_record \<Rightarrow> meta_type \<Rightarrow> string" where
  "meta_text lib r DATETIME = lf_minutes lib (lr_timestamp r) @
     lf_seconds lib (if lr_timestamp r \<ge> 0 then lr_timestamp r div 1000000
       else - ((- lr_timestamp r) div 1000000))"
| "meta_text lib r LEVEL = level_string (lr_level r)"
| "meta_text lib r TOPIC = lr_topic r"
| "meta_text lib r THREAD = lf_int lib (lr_tid r)"
| "meta_text lib r LOCATION = lr_file r @ '':'' @ lf_int lib (int (lr_line r))"
| "meta_text lib r MESSAGE = lr_message r"

fun segment_text :: "log_fmt \<Rightarrow> log_record \<Rightarrow> segment \<Rightarrow> string" where
  "segment_text lib r (Raw s) = s"
| "segment_text lib r (Meta m) = meta_text lib r m"

text \<open>The loop at the end of \<open>format\<close>: \<open>back\<close> of an empty string reads outside it.\<close>

function strip_newlines :: "string \<Rightarrow> string result" where
  "strip_newlines line =
     (if line = [] then Inl Out_of_range
      else if last line = CHR 0x0A then strip_newlines (butlast line) else Inr line)"
  by pat_completeness auto
termination by (relation "measure length") auto

declare strip_newlines.simps [simp del]

definition format :: "log_fmt \<Rightarrow> formatter \<Rightarrow> log_record \<Rightarrow> string result" where
  "format lib fm r = strip_newlines (foldl (\<lambda>line seg. line @ segment_text lib r seg) [] (segments fm))"

section \<open>Levels in order\<close>

text \<open>
  Levels compare by severity, from \<open>DEBUG\<close> up to \<open>FATAL\<close>, and have distinct names: every level
  indexes the array of names inside it.
\<close>

theorem levels_by_severity:
  "sorted_wrt (<) [DEBUG, INFO, WARNING, ERROR, FATAL] \<and> (\<forall>l. l \<in> set [DEBUG, INFO, WARNING, ERROR, FATAL]) \<and>
   (\<forall>l. level_value l < length level_strings) \<and> inj level_string"
proof (intro conjI allI)
  show "sorted_wrt (<) [DEBUG, INFO, WARNING, ERROR, FATAL]" by (simp add: less_level_def)
  show "l \<in> set [DEBUG, INFO, WARNING, ERROR, FATAL]" for l by (cases l) simp_all
  show "level_value l < length level_strings" for l by (cases l) (simp_all add: level_strings_def)
  show "inj level_string"
  proof (rule injI)
    fix x y
    assume "level_string x = level_string y"
    then show "x = y" by (cases x; cases y) (simp_all add: level_string_def level_strings_def)
  qed
qed

section \<open>Reading the format string\<close>

text \<open>A recursive reading: raw text up to \<open>%{\<close>, then a name up to \<open>}\<close>.\<close>

definition flush_raw :: "string \<Rightarrow> segment list" where
  "flush_raw acc = (if acc = [] then [] else [Raw acc])"

abbreviation in_name :: "char \<Rightarrow> bool" where
  "in_name c \<equiv> c \<noteq> CHR ''}''"

function scan :: "string \<Rightarrow> string \<Rightarrow> segment list" where
  "scan acc [] = flush_raw acc"
| "scan acc (c # cs) =
     (if c = CHR ''%'' \<and> cs \<noteq> [] \<and> hd cs = CHR ''{'' then
        flush_raw acc @
        (case dropWhile in_name (tl cs) of
           [] \<Rightarrow> []
         | _ # rest \<Rightarrow>
             (case meta_of (takeWhile in_name (tl cs)) of None \<Rightarrow> [] | Some m \<Rightarrow> [Meta m]) @ scan [] rest)
      else scan (acc @ [c]) cs)"
  by pat_completeness auto
termination
proof (relation "measure (\<lambda>(acc, cs). length cs)")
  fix acc cs x and c :: char and rest :: string
  assume "dropWhile in_name (tl cs) = x # rest"
  then have "length (x # rest) \<le> length (tl cs)" by (metis length_dropWhile_le)
  then show "(([], rest), acc, c # cs) \<in> measure (\<lambda>(acc, cs). length cs)" by simp
qed auto

text \<open>The part after \<open>%{\<close>, with the beginning of the name.\<close>

definition scan_meta :: "string \<Rightarrow> string \<Rightarrow> segment list" where
  "scan_meta name cs =
     (case dropWhile in_name cs of
        [] \<Rightarrow> []
      | _ # rest \<Rightarrow>
          (case meta_of (name @ takeWhile in_name cs) of None \<Rightarrow> [] | Some m \<Rightarrow> [Meta m]) @ scan [] rest)"

lemma scan_meta_simps [simp]:
  "scan_meta name [] = []"
  "scan_meta name (CHR ''}'' # cs) = (case meta_of name of None \<Rightarrow> [] | Some m \<Rightarrow> [Meta m]) @ scan [] cs"
  "c \<noteq> CHR ''}'' \<Longrightarrow> scan_meta name (c # cs) = scan_meta (name @ [c]) cs"
  by (simp_all add: scan_meta_def cong: list.case_cong)

lemma scan_open: "scan acc (CHR ''%'' # CHR ''{'' # cs) = flush_raw acc @ scan_meta [] cs"
  by (simp add: scan_meta_def cong: list.case_cong)

definition scan_finish :: "string \<Rightarrow> nat \<times> scan_state \<times> segment list \<Rightarrow> segment list" where
  "scan_finish f r = (case r of (s, st, segs) \<Rightarrow>
     if st = RAW \<and> s \<noteq> length f then segs @ [Raw (view f s (length f))] else segs)"

lemma segments_ctor: "segments (formatter_ctor f) = scan_finish f (scan_loop f 0 0 RAW [])"
  by (simp add: formatter_ctor_def scan_finish_def split: prod.split)

lemma view_Suc: "s \<le> i \<Longrightarrow> i < length f \<Longrightarrow> view f s (Suc i) = view f s i @ [f ! i]"
  by (simp add: view_def Suc_diff_le take_Suc_conv_app_nth)

lemma view_empty [simp]: "view f s s = []"
  by (simp add: view_def)

lemma view_Nil_iff: "s \<le> i \<Longrightarrow> i \<le> length f \<Longrightarrow> view f s i = [] \<longleftrightarrow> i = s"
  by (auto simp: view_def)

lemma scan_loop_reads:
  "s \<le> i \<Longrightarrow> i \<le> length f \<Longrightarrow> scan_finish f (scan_loop f i s st segs) =
     segs @ (case st of RAW \<Rightarrow> scan (view f s i) (drop i f) | META \<Rightarrow> scan_meta (view f s i) (drop i f))"
proof (induction f i s st segs rule: scan_loop.induct)
  case (1 f i s st segs)
  show ?case
  proof (cases "i < length f")
    case False
    with "1.prems" show ?thesis
      by (subst scan_loop.simps) (auto simp: scan_finish_def flush_raw_def view_Nil_iff split: scan_state.split)
  next
    case i: True
    then have drop: "drop i f = f ! i # drop (Suc i) f" by (simp add: Cons_nth_drop_Suc)
    consider (open_) "st = RAW" "f ! i = CHR ''%''" "i < length f - 1" "f ! (i + 1) = CHR ''{''"
      | (close_) "st = META" "f ! i = CHR ''}''"
      | (raw) "st = RAW" "\<not> (f ! i = CHR ''%'' \<and> i < length f - 1 \<and> f ! (i + 1) = CHR ''{'')"
      | (name) "st = META" "f ! i \<noteq> CHR ''}''"
      by (cases st) auto
    then show ?thesis
    proof cases
      case open_
      then have "drop i f = CHR ''%'' # CHR ''{'' # drop (i + 2) f"
        using drop Cons_nth_drop_Suc [of "Suc i" f] by simp
      with open_ i "1.IH"(1) "1.prems" show ?thesis
        by (subst scan_loop.simps) (auto simp: scan_open flush_raw_def view_Nil_iff simp del: scan.simps)
    next
      case close_
      with drop i "1.IH"(2) "1.prems" show ?thesis
        by (subst scan_loop.simps) (auto split: option.split)
    next
      case raw
      then have "scan (view f s i) (drop i f) = scan (view f s i @ [f ! i]) (drop (Suc i) f)"
        using drop i by (auto simp: hd_drop_conv_nth)
      with raw i "1.IH"(3) "1.prems" show ?thesis
        by (subst scan_loop.simps) (auto simp: view_Suc)
    next
      case name
      with drop i "1.IH"(3) "1.prems" show ?thesis
        by (subst scan_loop.simps) (auto simp: view_Suc)
    qed
  qed
qed

lemma segments_scan: "segments (formatter_ctor f) = scan [] f"
  using scan_loop_reads [of 0 0 f RAW "[]"] by (simp add: segments_ctor)

section \<open>Printing and reading segments\<close>

definition unparse :: "segment list \<Rightarrow> string" where
  "unparse segs = concat (map segment_repr segs)"

lemma foldl_append_concat: "foldl (\<lambda>r x. r @ g x) acc xs = acc @ concat (map g xs)"
  by (induction xs arbitrary: acc) simp_all

lemma repr_unparse: "repr fm = unparse (segments fm)"
  by (simp add: repr_def unparse_def foldl_append_concat)

text \<open>Raw text in which a name begins.\<close>

fun opens :: "string \<Rightarrow> bool" where
  "opens (c # d # cs) = (c = CHR ''%'' \<and> d = CHR ''{'' \<or> opens (d # cs))"
| "opens _ = False"

text \<open>Lists of segments that have a text of their own: raw text is not empty, not split, and opens no name.\<close>

fun canonical :: "segment list \<Rightarrow> bool" where
  "canonical [] = True"
| "canonical (Meta m # segs) = canonical segs"
| "canonical (Raw s # segs) =
     (s \<noteq> [] \<and> \<not> opens s \<and> (case segs of Raw _ # _ \<Rightarrow> False | _ \<Rightarrow> True) \<and> canonical segs)"

lemma scan_meta_repr: "scan acc (meta_repr m @ cs) = flush_raw acc @ Meta m # scan [] cs"
  by (cases m) (simp_all add: scan_open meta_of_def del: scan.simps)

lemma scan_raw:
  "\<not> opens s \<Longrightarrow> cs = [] \<or> hd cs \<noteq> CHR ''{'' \<Longrightarrow> scan acc (s @ cs) = scan (acc @ s) cs"
proof (induction s arbitrary: acc)
  case (Cons c s)
  have "\<not> (c = CHR ''%'' \<and> s @ cs \<noteq> [] \<and> hd (s @ cs) = CHR ''{'')"
    using Cons.prems by (cases s) auto
  moreover have "\<not> opens s" using Cons.prems(1) by (cases s) auto
  ultimately show ?case using Cons.IH [of "acc @ [c]"] Cons.prems(2) by auto
qed simp

lemma unparse_Meta: "unparse (Meta m # segs) = meta_repr m @ unparse segs"
  by (simp add: unparse_def)

lemma hd_meta_repr: "hd (meta_repr m @ cs) \<noteq> CHR ''{''" "meta_repr m @ cs \<noteq> []"
  by (cases m; simp)+

lemma scan_unparse: "canonical segs \<Longrightarrow> scan [] (unparse segs) = segs"
proof (induction segs rule: canonical.induct)
  case 1
  show ?case by (simp add: unparse_def flush_raw_def)
next
  case (2 m segs)
  then show ?case by (simp add: unparse_Meta scan_meta_repr flush_raw_def)
next
  case (3 s segs)
  then have s: "s \<noteq> []" "\<not> opens s" by auto
  show ?case
  proof (cases segs)
    case Nil
    with scan_raw [OF s(2), of "[]" "[]"] s(1) show ?thesis by (simp add: unparse_def flush_raw_def)
  next
    case (Cons g rest)
    with 3 obtain m where g: "g = Meta m" by (cases g) auto
    have "unparse (Raw s # segs) = s @ meta_repr m @ unparse rest"
      by (simp add: unparse_def Cons g)
    moreover have "scan [] (unparse segs) = Meta m # scan [] (unparse rest)"
      by (simp add: Cons g unparse_Meta scan_meta_repr flush_raw_def)
    ultimately show ?thesis
      using scan_raw [OF s(2), of "meta_repr m @ unparse rest" "[]"] hd_meta_repr s 3 Cons g
      by (simp add: scan_meta_repr flush_raw_def)
  qed
qed

text \<open>
  C24. Printing and reading a format. The text of a list of segments whose raw parts are not empty, not
  adjacent and open no name is read back as that list, so \<open>repr\<close> returns the format string.
\<close>

theorem formatter_roundtrip:
  assumes "canonical segs"
  shows "segments (formatter_ctor (unparse segs)) = segs \<and> repr (formatter_ctor (unparse segs)) = unparse segs"
  using scan_unparse [OF assms] by (simp add: repr_unparse segments_scan)

theorem formatter_roundtrip_witness:
  "repr (formatter_ctor ''100%%{level}: %{message}'') = ''100%%{level}: %{message}''"
  using formatter_roundtrip [of "[Raw ''100%'', Meta LEVEL, Raw '': '', Meta MESSAGE]"]
  by (simp add: unparse_def)

text \<open>
  What the scan makes of a format string. It is the recursive reading: text up to \<open>%{\<close>, a name up
  to \<open>}\<close>, and so on. A name that is not known leaves nothing, nor does one that is not closed;
  so the text \<open>repr\<close> prints need not be a format with the same meaning.
\<close>

theorem formatter_reading:
  "segments (formatter_ctor f) = scan [] f \<and>
   segments (formatter_ctor ''a%{date}b%{level'') = [Raw ''a'', Raw ''b''] \<and>
   segments (formatter_ctor ''%%{}{level}'') = [Raw ''%'', Raw ''{level}''] \<and>
   segments (formatter_ctor (repr (formatter_ctor ''%%{}{level}''))) = [Meta LEVEL]"
  by (simp add: segments_scan repr_unparse unparse_def flush_raw_def meta_of_def)

section \<open>Formatting a record\<close>

lemma strip_newlines_cases:
  "(strip_newlines t = Inl Out_of_range \<longleftrightarrow> set t \<subseteq> {CHR 0x0A}) \<and>
   (strip_newlines t = Inr u \<longleftrightarrow>
      u \<noteq> [] \<and> last u \<noteq> CHR 0x0A \<and> (\<exists>k. t = u @ replicate k (CHR 0x0A)))"
proof (induction t rule: rev_induct)
  case Nil
  show ?case by (auto simp: strip_newlines.simps)
next
  case (snoc c t)
  show ?case
  proof (cases "c = CHR 0x0A")
    case True
    then have step: "strip_newlines (t @ [c]) = strip_newlines t" by (simp add: strip_newlines.simps)
    have "(\<exists>k. t @ [c] = u @ replicate k (CHR 0x0A)) \<longleftrightarrow> (\<exists>k. t = u @ replicate k (CHR 0x0A))"
      if "u \<noteq> []" "last u \<noteq> CHR 0x0A"
    proof
      assume "\<exists>k. t @ [c] = u @ replicate k (CHR 0x0A)"
      then obtain k where k: "t @ [c] = u @ replicate k (CHR 0x0A)" by blast
      with that True show "\<exists>k. t = u @ replicate k (CHR 0x0A)"
        by (cases k) (auto simp: replicate_append_same [symmetric])
    next
      assume "\<exists>k. t = u @ replicate k (CHR 0x0A)"
      then obtain k where "t = u @ replicate k (CHR 0x0A)" by blast
      with True have "t @ [c] = u @ replicate (Suc k) (CHR 0x0A)"
        by (simp add: replicate_append_same)
      then show "\<exists>k. t @ [c] = u @ replicate k (CHR 0x0A)" by blast
    qed
    with snoc show ?thesis
      unfolding step by (cases "u = [] \<or> last u = CHR 0x0A") (use True in auto)
  next
    case False
    then have "strip_newlines (t @ [c]) = Inr (t @ [c])" by (simp add: strip_newlines.simps)
    moreover have "(\<exists>k. t @ [c] = u @ replicate k (CHR 0x0A)) \<longleftrightarrow> u = t @ [c]"
    proof
      assume "\<exists>k. t @ [c] = u @ replicate k (CHR 0x0A)"
      then obtain k where k: "t @ [c] = u @ replicate k (CHR 0x0A)" by blast
      with False show "u = t @ [c]" by (cases k) (auto simp: replicate_append_same [symmetric])
    qed (auto intro: exI [of _ 0])
    ultimately show ?thesis using False by auto
  qed
qed

lemma strip_newlines_fault: "strip_newlines t = Inl f \<Longrightarrow> f = Out_of_range"
  by (induction t rule: strip_newlines.induct) (auto simp: strip_newlines.simps split: if_splits)

text \<open>\<open>logger::default_format\<close>.\<close>

definition default_format :: string where
  "default_format = ''[%{datetime}] [%{level}] [%{thread}] [%{location}] %{message}''"

lemma format_text: "format lib fm r = strip_newlines (concat (map (segment_text lib r) (segments fm)))"
  by (simp add: format_def foldl_append_concat)

text \<open>
  C36. A formatted record. It is the concatenation of the texts of the segments without the newlines at
  its end. When nothing else is in that text, for example when a message of \<open>%{message}\<close> is empty,
  the loop reads before the beginning of the string. With the default format that cannot happen,
  and the line begins with the time stamp, the level and the thread.
\<close>

theorem format_outcome:
  "(format lib fm r = Inl Out_of_range \<longleftrightarrow>
      set (concat (map (segment_text lib r) (segments fm))) \<subseteq> {CHR 0x0A}) \<and>
   (format lib fm r = Inr line \<longleftrightarrow> line \<noteq> [] \<and> last line \<noteq> CHR 0x0A \<and>
      (\<exists>k. concat (map (segment_text lib r) (segments fm)) = line @ replicate k (CHR 0x0A))) \<and>
   format lib (formatter_ctor ''%{message}'') (r\<lparr>lr_message := ''''\<rparr>) = Inl Out_of_range \<and>
   (\<exists>rest. format lib (formatter_ctor default_format) r =
      Inr (''['' @ meta_text lib r DATETIME @ ''] ['' @ level_string (lr_level r) @ ''] ['' @
        lf_int lib (lr_tid r) @ '']'' @ rest))"
proof (intro conjI)
  show "format lib fm r = Inl Out_of_range \<longleftrightarrow>
      set (concat (map (segment_text lib r) (segments fm))) \<subseteq> {CHR 0x0A}"
    "format lib fm r = Inr line \<longleftrightarrow> line \<noteq> [] \<and> last line \<noteq> CHR 0x0A \<and>
      (\<exists>k. concat (map (segment_text lib r) (segments fm)) = line @ replicate k (CHR 0x0A))"
    using strip_newlines_cases by (simp_all only: format_text)
  show "format lib (formatter_ctor ''%{message}'') (r\<lparr>lr_message := ''''\<rparr>) = Inl Out_of_range"
    by (simp add: format_text segments_scan flush_raw_def meta_of_def strip_newlines.simps)
  define p where "p = ''['' @ meta_text lib r DATETIME @ ''] ['' @ level_string (lr_level r) @ ''] ['' @
    lf_int lib (lr_tid r) @ '']''"
  have "segments (formatter_ctor default_format) =
      [Raw ''['', Meta DATETIME, Raw ''] ['', Meta LEVEL, Raw ''] ['', Meta THREAD, Raw ''] ['',
       Meta LOCATION, Raw ''] '', Meta MESSAGE]"
    by (simp add: segments_scan default_format_def flush_raw_def meta_of_def)
  then have whole: "concat (map (segment_text lib r) (segments (formatter_ctor default_format))) =
      p @ '' ['' @ meta_text lib r LOCATION @ ''] '' @ lr_message r"
    by (simp add: p_def)
  have strip: "\<exists>rest. strip_newlines (p @ t) = Inr (p @ rest)" for t
  proof (induction t rule: rev_induct)
    case Nil
    show ?case by (simp add: strip_newlines.simps p_def)
  next
    case (snoc c t)
    then show ?case by (subst strip_newlines.simps) (auto simp: butlast_append)
  qed
  show "\<exists>rest. format lib (formatter_ctor default_format) r =
      Inr (''['' @ meta_text lib r DATETIME @ ''] ['' @ level_string (lr_level r) @ ''] ['' @
        lf_int lib (lr_tid r) @ '']'' @ rest)"
    using strip [of "'' ['' @ meta_text lib r LOCATION @ ''] '' @ lr_message r"]
    unfolding format_text whole unfolding p_def by simp
qed

end
