(* ===== verification/BC_Worker.thy ===== *)
theory BC_Worker
  imports BC_Formatter
begin

text \<open>
  Loggers and the background thread that writes their records: \<open>include/bc/log/logger.hpp\<close>,
  \<open>include/bc/log/backend.hpp\<close>, \<open>include/bc/log/worker.hpp\<close> and \<open>src/log/worker.cpp\<close>.

  The threads are a transition system: an application thread logs, flushes, destroys a logger or
  stops the worker; the worker makes its steps one after the other. A step is one access of an atomic,
  one critical section of the worker's mutex or one call of \<open>notify_one\<close>. A wait on a condition variable
  tests its predicate, blocks, sleeps, and is woken to test again. A ghost field keeps the records in
  the order in which they were queued.
\<close>

section \<open>State\<close>

text \<open>The constant part of a logger; loggers and calls of \<open>flush\<close> are numbers, loggers in the order of their addresses.\<close>

record logger =
  lg_topic :: string
  lg_level :: level
  lg_formatter :: formatter
  lg_file :: string

definition logger_ctor :: "string \<Rightarrow> string \<Rightarrow> logger" where
  "logger_ctor fmt topic =
     \<lparr>lg_topic = topic, lg_level = WARNING, lg_formatter = formatter_ctor fmt, lg_file = []\<rparr>"

definition set_level :: "level \<Rightarrow> logger \<Rightarrow> logger" where
  "set_level lv lg = lg\<lparr>lg_level := lv\<rparr>"

text \<open>\<open>std::map<logger const *, std::string>\<close>.\<close>

type_synonym buffers = "(nat \<times> string) list"

fun buf_append :: "nat \<Rightarrow> string \<Rightarrow> buffers \<Rightarrow> buffers" where
  "buf_append l t [] = [(l, t)]"
| "buf_append l t ((k, u) # bs) =
     (if l = k then (k, u @ t) # bs
      else if l < k then (l, t) # (k, u) # bs
      else (k, u) # buf_append l t bs)"

definition buf_contains :: "nat \<Rightarrow> buffers \<Rightarrow> bool" where
  "buf_contains l bs \<longleftrightarrow> l \<in> set (map fst bs)"

text \<open>
  Where the worker's thread is: at the head of its loop, about to lock \<open>mutex_\<close> and test the predicate of
  its wait, about to block on \<open>cv_\<close> with \<open>mutex_\<close> still locked, asleep on \<open>cv_\<close>, in the three loops of
  \<open>drain_\<close>, or about to notify the condition variable of a logger whose count it has brought to zero,
  after which it goes on as given. The flag tells the last drain, after the loop.
\<close>

datatype worker_pc =
    Looping
  | Waiting
  | Falling
  | Sleeping
  | Draining bool "(nat \<times> log_record) list" "nat list" buffers
  | Writing bool "nat list" buffers
  | Releasing nat worker_pc
  | Waking bool "nat list"
  | Notifying bool nat "nat list"
  | Exited

text \<open>
  Where a call that waits is. For \<open>flush\<close>: not begun, past its assertion, in the list of waiters, about
  to test its predicate, about to block, asleep, returned. The destructor of a logger has not the
  second and the third of these, and a logger whose destructor has returned does not exist any more.
\<close>

datatype phase = Absent | Admitted | Queued | Testing | Blocking | Asleep | Returned

text \<open>
  Records that were counted and have still to pass the assertion of \<open>append\<close> are in \<open>w_logging\<close>, those that
  have passed it in \<open>w_pending\<close>; \<open>w_sleepers\<close> are the calls of \<open>flush\<close> that sleep on \<open>cv_\<close>, and \<open>w_notifies\<close>
  counts the calls of \<open>cv_.notify_one()\<close> that application threads are about to make.
\<close>

record wstate =
  w_logging :: "(nat \<times> log_record) list"
  w_pending :: "(nat \<times> log_record) list"
  w_logs :: "(nat \<times> log_record) list"
  w_waiters :: "nat list"
  w_stop :: bool
  w_refs :: "nat \<Rightarrow> nat"
  w_dtor :: "nat \<Rightarrow> phase"
  w_pc :: worker_pc
  w_out :: "(nat \<times> string) list"
  w_flushed :: "nat list"
  w_phase :: "nat \<Rightarrow> phase"
  w_sleepers :: "nat list"
  w_notifies :: nat
  w_queued :: "(nat \<times> log_record) list"

definition worker_start :: wstate where
  "worker_start =
     \<lparr>w_logging = [], w_pending = [], w_logs = [], w_waiters = [], w_stop = False, w_refs = (\<lambda>_. 0),
      w_dtor = (\<lambda>_. Absent), w_pc = Looping, w_out = [], w_flushed = [], w_phase = (\<lambda>_. Absent),
      w_sleepers = [], w_notifies = 0, w_queued = []\<rparr>"

section \<open>Operations\<close>

definition ref_inc :: "nat \<Rightarrow> wstate \<Rightarrow> wstate" where
  "ref_inc l s = s\<lparr>w_refs := (w_refs s)(l := Suc (w_refs s l))\<rparr>"

definition ref_dec :: "nat \<Rightarrow> wstate \<Rightarrow> wstate" where
  "ref_dec l s = s\<lparr>w_refs := (w_refs s)(l := size_dec (w_refs s l))\<rparr>"

text \<open>\<open>unreference_\<close> by the worker, which goes on at \<open>pc\<close>: the notification is a step of its own.\<close>

definition unreference :: "nat \<Rightarrow> worker_pc \<Rightarrow> wstate \<Rightarrow> wstate" where
  "unreference l pc s =
     (let s1 = ref_dec l s in s1\<lparr>w_pc := (if w_refs s1 l = 0 then Releasing l pc else pc)\<rparr>)"

text \<open>\<open>logger::log\<close> up to the call of \<open>append\<close>.\<close>

definition logger_log :: "(nat \<Rightarrow> logger) \<Rightarrow> nat \<Rightarrow> log_record \<Rightarrow> wstate \<Rightarrow> wstate" where
  "logger_log loggers l r s =
     (if lr_level r < lg_level (loggers l) then s
      else (ref_inc l s)\<lparr>w_logging := w_logging s @ [(l, r\<lparr>lr_topic := lg_topic (loggers l)\<rparr>)]\<rparr>)"

text \<open>
  The classes of \<open>include/bc/log/log.hpp\<close>: \<open>logger::log\<close> at a fixed level, on a given logger or on the
  default one, which is number 0.
\<close>

definition log_debug :: "(nat \<Rightarrow> logger) \<Rightarrow> nat option \<Rightarrow> log_record \<Rightarrow> wstate \<Rightarrow> wstate" where
  "log_debug loggers l r = logger_log loggers (case l of Some m \<Rightarrow> m | None \<Rightarrow> 0) (r\<lparr>lr_level := DEBUG\<rparr>)"

definition log_info :: "(nat \<Rightarrow> logger) \<Rightarrow> nat option \<Rightarrow> log_record \<Rightarrow> wstate \<Rightarrow> wstate" where
  "log_info loggers l r = logger_log loggers (case l of Some m \<Rightarrow> m | None \<Rightarrow> 0) (r\<lparr>lr_level := INFO\<rparr>)"

definition log_warning :: "(nat \<Rightarrow> logger) \<Rightarrow> nat option \<Rightarrow> log_record \<Rightarrow> wstate \<Rightarrow> wstate" where
  "log_warning loggers l r = logger_log loggers (case l of Some m \<Rightarrow> m | None \<Rightarrow> 0) (r\<lparr>lr_level := WARNING\<rparr>)"

definition log_error :: "(nat \<Rightarrow> logger) \<Rightarrow> nat option \<Rightarrow> log_record \<Rightarrow> wstate \<Rightarrow> wstate" where
  "log_error loggers l r = logger_log loggers (case l of Some m \<Rightarrow> m | None \<Rightarrow> 0) (r\<lparr>lr_level := ERROR\<rparr>)"

definition log_fatal :: "(nat \<Rightarrow> logger) \<Rightarrow> nat option \<Rightarrow> log_record \<Rightarrow> wstate \<Rightarrow> wstate" where
  "log_fatal loggers l r = logger_log loggers (case l of Some m \<Rightarrow> m | None \<Rightarrow> 0) (r\<lparr>lr_level := FATAL\<rparr>)"

text \<open>\<open>default_logger\<close> is made with the default arguments.\<close>

definition default_logger :: logger where
  "default_logger = logger_ctor default_format []"

text \<open>
  \<open>worker::append\<close>, for the call number \<open>i\<close> of those that are there: the assertion, and the critical section.
  The last drain iterates over the members themselves, without the mutex: changing them meanwhile is
  a data race.
\<close>

definition append_check :: "nat \<Rightarrow> wstate \<Rightarrow> wstate result" where
  "append_check i s =
     (if w_stop s then Inl Assert_failed
      else Inr (s\<lparr>w_logging := take i (w_logging s) @ drop (Suc i) (w_logging s),
                  w_pending := w_pending s @ [w_logging s ! i]\<rparr>))"

fun reads_logs :: "worker_pc \<Rightarrow> bool" where
  "reads_logs (Draining final ready ws bufs) = final"
| "reads_logs _ = False"

fun reads_waiters :: "worker_pc \<Rightarrow> bool" where
  "reads_waiters (Waking final ws) = final"
| "reads_waiters (Notifying final k ws) = final"
| "reads_waiters _ = False"

definition worker_append :: "nat \<Rightarrow> wstate \<Rightarrow> wstate result" where
  "worker_append i s =
     (if reads_logs (w_pc s) then Inl Dangling
      else let logs = w_logs s @ [w_pending s ! i] in
        Inr (s\<lparr>w_pending := take i (w_pending s) @ drop (Suc i) (w_pending s), w_logs := logs,
               w_queued := w_queued s @ [w_pending s ! i],
               w_notifies := w_notifies s + (if length logs > 20 then 1 else 0)\<rparr>))"

text \<open>
  \<open>worker::flush\<close>: the assertion, the critical section, and the steps of its wait. \<open>logger::flush\<close>
  calls it.
\<close>

definition flush_check :: "nat \<Rightarrow> wstate \<Rightarrow> wstate result" where
  "flush_check k s =
     (if w_stop s then Inl Assert_failed else Inr (s\<lparr>w_phase := (w_phase s)(k := Admitted)\<rparr>))"

definition flush_enqueue :: "nat \<Rightarrow> wstate \<Rightarrow> wstate result" where
  "flush_enqueue k s =
     (if reads_waiters (w_pc s) then Inl Dangling
      else Inr (s\<lparr>w_waiters := w_waiters s @ [k], w_phase := (w_phase s)(k := Queued)\<rparr>))"

definition flush_test :: "nat \<Rightarrow> wstate \<Rightarrow> wstate" where
  "flush_test k s =
     s\<lparr>w_phase := (w_phase s)(k := (if k \<in> set (w_flushed s) then Returned else Blocking))\<rparr>"

definition flush_block :: "nat \<Rightarrow> wstate \<Rightarrow> wstate" where
  "flush_block k s = s\<lparr>w_phase := (w_phase s)(k := Asleep), w_sleepers := w_sleepers s @ [k]\<rparr>"

definition logger_flush :: "nat \<Rightarrow> wstate \<Rightarrow> wstate result" where
  "logger_flush k s = flush_check k s"

text \<open>
  \<open>cv_.notify_one()\<close> wakes one of the threads that sleep on \<open>cv_\<close>, the worker or a call of \<open>flush\<close>, and
  is lost when none does.
\<close>

datatype sleeper = The_worker | Call nat

definition may_wake :: "sleeper option \<Rightarrow> wstate \<Rightarrow> bool" where
  "may_wake c s =
     (case c of
        None \<Rightarrow> w_pc s \<noteq> Sleeping \<and> w_sleepers s = []
      | Some The_worker \<Rightarrow> w_pc s = Sleeping
      | Some (Call k) \<Rightarrow> k \<in> set (w_sleepers s))"

definition notify_one :: "sleeper option \<Rightarrow> wstate \<Rightarrow> wstate" where
  "notify_one c s =
     (case c of
        None \<Rightarrow> s
      | Some The_worker \<Rightarrow> s\<lparr>w_pc := Waiting\<rparr>
      | Some (Call k) \<Rightarrow>
          s\<lparr>w_phase := (w_phase s)(k := Testing), w_sleepers := filter ((\<noteq>) k) (w_sleepers s)\<rparr>)"

text \<open>\<open>logger::~logger\<close>: the first test, and the steps of its wait on the logger's own condition variable.\<close>

definition logger_dtor :: "nat \<Rightarrow> wstate \<Rightarrow> wstate" where
  "logger_dtor l s = s\<lparr>w_dtor := (w_dtor s)(l := (if w_refs s l \<noteq> 0 then Testing else Returned))\<rparr>"

definition dtor_test :: "nat \<Rightarrow> wstate \<Rightarrow> wstate" where
  "dtor_test l s = s\<lparr>w_dtor := (w_dtor s)(l := (if w_refs s l = 0 then Returned else Blocking))\<rparr>"

definition dtor_block :: "nat \<Rightarrow> wstate \<Rightarrow> wstate" where
  "dtor_block l s = s\<lparr>w_dtor := (w_dtor s)(l := Asleep)\<rparr>"

definition dtor_wake :: "nat \<Rightarrow> wstate \<Rightarrow> wstate" where
  "dtor_wake l s = (if w_dtor s l = Asleep then s\<lparr>w_dtor := (w_dtor s)(l := Testing)\<rparr> else s)"

text \<open>\<open>worker::~worker\<close> up to the join.\<close>

definition worker_stop :: "wstate \<Rightarrow> wstate" where
  "worker_stop s = (if w_stop s then s else s\<lparr>w_stop := True, w_notifies := w_notifies s + 1\<rparr>)"

text \<open>\<open>backend::write\<close>.\<close>

definition backend_write :: "(nat \<Rightarrow> logger) \<Rightarrow> nat \<Rightarrow> string \<Rightarrow> wstate \<Rightarrow> wstate" where
  "backend_write loggers l t s = (if lg_file (loggers l) = [] then s\<lparr>w_out := w_out s @ [(l, t)]\<rparr> else s)"

text \<open>
  The body of the first loop of \<open>drain_\<close> up to \<open>unreference_\<close>. It is one step with the count down that
  follows: the record counts for its logger until then, so what another thread does in between, counting up
  or testing the count for zero, has the same outcome before and after.
\<close>

definition drain_record ::
    "log_fmt \<Rightarrow> (nat \<Rightarrow> logger) \<Rightarrow> nat \<Rightarrow> log_record \<Rightarrow> buffers \<Rightarrow> wstate \<Rightarrow> (buffers \<times> wstate) result" where
  "drain_record lib loggers l r bufs s =
     (if w_dtor s l = Returned then Inl Dangling
      else let s1 = (if buf_contains l bufs then s else ref_inc l s) in
        res_bind (format lib (lg_formatter (loggers l)) r) (\<lambda>t.
          Inr (buf_append l (t @ [CHR 0x0A]) bufs, s1)))"

text \<open>
  The next step of the worker's thread; asleep, it has none. The vectors the last drain works on are
  the members themselves, which nothing reads afterwards. The references in the list of waiters are
  dangling once their \<open>flush\<close> has returned, as is a logger's condition variable once the logger does
  not exist any more.
\<close>

definition swap_queues :: "bool \<Rightarrow> wstate \<Rightarrow> wstate" where
  "swap_queues final s =
     s\<lparr>w_pc := Draining final (w_logs s) (w_waiters s) [], w_logs := [], w_waiters := []\<rparr>"

definition worker_step :: "log_fmt \<Rightarrow> (nat \<Rightarrow> logger) \<Rightarrow> wstate \<Rightarrow> wstate result" where
  "worker_step lib loggers s =
     (case w_pc s of
        Looping \<Rightarrow> Inr (if w_stop s then swap_queues True s else s\<lparr>w_pc := Waiting\<rparr>)
      | Waiting \<Rightarrow> Inr (if w_logs s \<noteq> [] \<or> w_stop s then swap_queues False s else s\<lparr>w_pc := Falling\<rparr>)
      | Falling \<Rightarrow> Inr (s\<lparr>w_pc := Sleeping\<rparr>)
      | Sleeping \<Rightarrow> Inr s
      | Draining final [] ws bufs \<Rightarrow> Inr (s\<lparr>w_pc := Writing final ws bufs\<rparr>)
      | Draining final ((l, r) # ready) ws bufs \<Rightarrow>
          res_bind (drain_record lib loggers l r bufs s) (\<lambda>(bufs1, s1).
            Inr (unreference l (Draining final ready ws bufs1) s1))
      | Writing final ws [] \<Rightarrow> Inr (s\<lparr>w_pc := Waking final ws\<rparr>)
      | Writing final ws ((l, t) # bufs) \<Rightarrow>
          if w_dtor s l = Returned then Inl Dangling
          else Inr (unreference l (Writing final ws bufs) (backend_write loggers l t s))
      | Releasing l pc \<Rightarrow>
          if w_dtor s l = Returned then Inl Dangling else Inr ((dtor_wake l s)\<lparr>w_pc := pc\<rparr>)
      | Waking final [] \<Rightarrow> Inr (s\<lparr>w_pc := (if final then Exited else Looping)\<rparr>)
      | Waking final (k # ws) \<Rightarrow>
          Inr (s\<lparr>w_flushed := k # w_flushed s, w_pc := Notifying final k ws\<rparr>)
      | Notifying final k ws \<Rightarrow>
          if w_phase s k = Returned then Inl Dangling else Inr (s\<lparr>w_pc := Waking final ws\<rparr>)
      | Exited \<Rightarrow> Inr s)"

section \<open>The transition system\<close>

text \<open>
  \<open>Enter\<close> and \<open>Leave\<close> are the steps of \<open>flush\<close> before and after its critical section; \<open>Timeout\<close> ends the wait of
  the worker after ten seconds; \<open>Spurious\<close> and \<open>Spurious_dtor\<close> are spurious wake-ups.
\<close>

datatype action =
    Log nat log_record
  | Check nat
  | Append nat
  | Flush nat
  | Enter nat
  | Leave nat "sleeper option"
  | Test nat
  | Block nat
  | Destroy nat
  | Test_dtor nat
  | Block_dtor nat
  | Stop_worker
  | Notify "sleeper option"
  | Timeout
  | Spurious sleeper
  | Spurious_dtor nat
  | Work

text \<open>
  What an action needs to be possible: a logger that is used exists; a call of \<open>flush\<close> begins once and
  makes its steps in order; \<open>mutex_\<close> is not locked by the worker.
\<close>

fun enabled :: "action \<Rightarrow> wstate \<Rightarrow> bool" where
  "enabled (Log l r) s = (w_dtor s l = Absent)"
| "enabled (Check i) s = (i < length (w_logging s))"
| "enabled (Append i) s = (i < length (w_pending s) \<and> w_pc s \<noteq> Falling)"
| "enabled (Flush k) s = (w_phase s k = Absent)"
| "enabled (Enter k) s = (w_phase s k = Admitted \<and> w_pc s \<noteq> Falling)"
| "enabled (Leave k c) s = (w_phase s k = Queued \<and> may_wake c s)"
| "enabled (Test k) s = (w_phase s k = Testing)"
| "enabled (Block k) s = (w_phase s k = Blocking)"
| "enabled (Destroy l) s = (w_dtor s l = Absent)"
| "enabled (Test_dtor l) s = (w_dtor s l = Testing)"
| "enabled (Block_dtor l) s = (w_dtor s l = Blocking)"
| "enabled Stop_worker s = True"
| "enabled (Notify c) s = (w_notifies s > 0 \<and> may_wake c s)"
| "enabled Timeout s = (w_pc s = Sleeping)"
| "enabled (Spurious c) s = may_wake (Some c) s"
| "enabled (Spurious_dtor l) s = (w_dtor s l = Asleep)"
| "enabled Work s = True"

fun act :: "log_fmt \<Rightarrow> (nat \<Rightarrow> logger) \<Rightarrow> action \<Rightarrow> wstate \<Rightarrow> wstate result" where
  "act lib loggers (Log l r) s = Inr (logger_log loggers l r s)"
| "act lib loggers (Check i) s = append_check i s"
| "act lib loggers (Append i) s = worker_append i s"
| "act lib loggers (Flush k) s = logger_flush k s"
| "act lib loggers (Enter k) s = flush_enqueue k s"
| "act lib loggers (Leave k c) s = Inr ((notify_one c s)\<lparr>w_phase := (w_phase (notify_one c s))(k := Testing)\<rparr>)"
| "act lib loggers (Test k) s = Inr (flush_test k s)"
| "act lib loggers (Block k) s = Inr (flush_block k s)"
| "act lib loggers (Destroy l) s = Inr (logger_dtor l s)"
| "act lib loggers (Test_dtor l) s = Inr (dtor_test l s)"
| "act lib loggers (Block_dtor l) s = Inr (dtor_block l s)"
| "act lib loggers Stop_worker s = Inr (worker_stop s)"
| "act lib loggers (Notify c) s = Inr ((notify_one c s)\<lparr>w_notifies := w_notifies s - 1\<rparr>)"
| "act lib loggers Timeout s = Inr (swap_queues False s)"
| "act lib loggers (Spurious c) s = Inr (notify_one (Some c) s)"
| "act lib loggers (Spurious_dtor l) s = Inr (dtor_wake l s)"
| "act lib loggers Work s = worker_step lib loggers s"

text \<open>A run of the threads; an action that is not possible is skipped.\<close>

fun acts :: "log_fmt \<Rightarrow> (nat \<Rightarrow> logger) \<Rightarrow> action list \<Rightarrow> wstate \<Rightarrow> wstate result" where
  "acts lib loggers [] s = Inr s"
| "acts lib loggers (a # as) s =
     (if enabled a s then res_bind (act lib loggers a s) (acts lib loggers as)
      else acts lib loggers as s)"

inductive reachable :: "log_fmt \<Rightarrow> (nat \<Rightarrow> logger) \<Rightarrow> wstate \<Rightarrow> bool" for lib loggers where
  start: "reachable lib loggers worker_start"
| step: "reachable lib loggers s \<Longrightarrow> enabled a s \<Longrightarrow> act lib loggers a s = Inr s' \<Longrightarrow> reachable lib loggers s'"

lemma acts_reachable:
  "acts lib loggers as s = Inr s' \<Longrightarrow> reachable lib loggers s \<Longrightarrow> reachable lib loggers s'"
  by (induction as arbitrary: s) (auto split: if_splits intro: step)

section \<open>The buffers of a drain\<close>

definition of_logger :: "nat \<Rightarrow> (nat \<times> 'a) list \<Rightarrow> 'a list" where
  "of_logger l xs = map snd (filter (\<lambda>x. fst x = l) xs)"

lemma of_logger_simps [simp]:
  "of_logger l [] = []"
  "of_logger l (x # xs) = (if fst x = l then [snd x] else []) @ of_logger l xs"
  "of_logger l (xs @ ys) = of_logger l xs @ of_logger l ys"
  by (simp_all add: of_logger_def)

lemma of_logger_none: "l \<notin> set (map fst xs) \<Longrightarrow> of_logger l xs = []"
  by (induction xs) auto

definition buffers_inv :: "buffers \<Rightarrow> bool" where
  "buffers_inv bs \<longleftrightarrow> sorted_wrt (<) (map fst bs)"

lemma keys_buf_append: "set (map fst (buf_append l t bs)) = insert l (set (map fst bs))"
  by (induction l t bs rule: buf_append.induct) auto

lemma buffers_inv_append: "buffers_inv bs \<Longrightarrow> buffers_inv (buf_append l t bs)"
proof (induction l t bs rule: buf_append.induct)
  case (2 l t k u bs)
  have "\<forall>x \<in> set (buf_append l t bs). k < fst x" if "\<not> l < k" "l \<noteq> k"
  proof -
    have "\<forall>x \<in> set (map fst (buf_append l t bs)). k < x"
      unfolding keys_buf_append using that "2.prems" by (auto simp: buffers_inv_def)
    then show ?thesis by simp
  qed
  with 2 show ?case by (fastforce simp: buffers_inv_def)
qed (simp add: buffers_inv_def)

lemma text_buf_append:
  "buffers_inv bs \<Longrightarrow> concat (of_logger m (buf_append l t bs)) =
     concat (of_logger m bs) @ (if m = l then t else [])"
proof (induction l t bs rule: buf_append.induct)
  case (2 l t k u bs)
  have "of_logger l bs = []" if "l \<le> k"
    by (rule of_logger_none) (use that 2 in \<open>auto simp: buffers_inv_def\<close>)
  with 2 show ?case by (auto simp: buffers_inv_def)
qed auto

section \<open>The reference counts\<close>

text \<open>The records and the buffers the worker's thread holds.\<close>

fun in_hand :: "worker_pc \<Rightarrow> (nat \<times> log_record) list" where
  "in_hand (Draining final ready ws bufs) = ready"
| "in_hand (Releasing l pc) = in_hand pc"
| "in_hand _ = []"

fun held :: "worker_pc \<Rightarrow> buffers" where
  "held (Draining final ready ws bufs) = bufs"
| "held (Writing final ws bufs) = bufs"
| "held (Releasing l pc) = held pc"
| "held _ = []"

lemma unreference_simps [simp]:
  "in_hand (w_pc (unreference l pc s)) = in_hand pc"
  "held (w_pc (unreference l pc s)) = held pc"
  "w_refs (unreference l pc s) = (w_refs s)(l := size_dec (w_refs s l))"
  "w_logging (unreference l pc s) = w_logging s" "w_pending (unreference l pc s) = w_pending s"
  "w_logs (unreference l pc s) = w_logs s" "w_queued (unreference l pc s) = w_queued s"
  "w_out (unreference l pc s) = w_out s" "w_dtor (unreference l pc s) = w_dtor s"
  "w_phase (unreference l pc s) = w_phase s" "w_notifies (unreference l pc s) = w_notifies s"
  "w_sleepers (unreference l pc s) = w_sleepers s"
  by (simp_all add: unreference_def ref_dec_def Let_def)

text \<open>The notifications change nothing but where threads are.\<close>

lemma notify_one_simps [simp]:
  "w_refs (notify_one c s) = w_refs s" "w_logging (notify_one c s) = w_logging s"
  "w_pending (notify_one c s) = w_pending s" "w_logs (notify_one c s) = w_logs s"
  "w_queued (notify_one c s) = w_queued s" "w_out (notify_one c s) = w_out s"
  "w_dtor (notify_one c s) = w_dtor s" "w_notifies (notify_one c s) = w_notifies s"
  by (simp_all add: notify_one_def split: option.split sleeper.split)

lemma notify_one_hands [simp]:
  "may_wake c s \<Longrightarrow> in_hand (w_pc (notify_one c s)) = in_hand (w_pc s)"
  "may_wake c s \<Longrightarrow> held (w_pc (notify_one c s)) = held (w_pc s)"
  by (auto simp: notify_one_def may_wake_def split: option.splits sleeper.splits)

lemma dtor_wake_simps [simp]:
  "w_refs (dtor_wake l s) = w_refs s" "w_logging (dtor_wake l s) = w_logging s"
  "w_pending (dtor_wake l s) = w_pending s" "w_logs (dtor_wake l s) = w_logs s"
  "w_queued (dtor_wake l s) = w_queued s" "w_out (dtor_wake l s) = w_out s"
  "w_pc (dtor_wake l s) = w_pc s" "w_phase (dtor_wake l s) = w_phase s"
  "w_dtor (dtor_wake l s) m = Returned \<longleftrightarrow> w_dtor s m = Returned"
  by (simp_all add: dtor_wake_def)

definition uses :: "wstate \<Rightarrow> nat \<Rightarrow> nat" where
  "uses s l = length (of_logger l (w_logging s @ w_pending s @ w_logs s @ in_hand (w_pc s))) +
     length (of_logger l (held (w_pc s)))"

definition refs_exact :: "wstate \<Rightarrow> bool" where
  "refs_exact s \<longleftrightarrow> buffers_inv (held (w_pc s)) \<and> (\<forall>l. w_refs s l = uses s l) \<and>
     (\<forall>l. w_dtor s l = Returned \<longrightarrow> uses s l = 0)"

lemma buf_contains_texts: "buffers_inv bs \<Longrightarrow> length (of_logger l bs) = (if buf_contains l bs then 1 else 0)"
proof (induction bs)
  case (Cons b bs)
  then have "fst b = l \<Longrightarrow> l \<notin> set (map fst bs)" by (auto simp: buffers_inv_def)
  with Cons show ?case by (auto simp: buffers_inv_def buf_contains_def of_logger_none)
qed (simp add: buf_contains_def)

lemma length_of_logger_take_drop:
  "i < length xs \<Longrightarrow> length (of_logger l (take i xs @ drop (Suc i) xs)) + (if fst (xs ! i) = l then 1 else 0)
     = length (of_logger l xs)"
  by (subst (3) id_take_nth_drop [of i xs]) auto

lemma refs_exact_start: "refs_exact worker_start"
  by (simp add: refs_exact_def uses_def worker_start_def buffers_inv_def)

lemma refs_exact_drain:
  assumes "refs_exact s" "w_pc s = Draining final ((l, r) # ready) ws bufs"
    and "drain_record lib loggers l r bufs s = Inr (bufs1, s1)"
  shows "refs_exact (unreference l (Draining final ready ws bufs1) s1)"
proof -
  from assms(3) obtain t where bufs1: "bufs1 = buf_append l t bufs"
    and s1: "s1 = (if buf_contains l bufs then s else ref_inc l s)"
    by (auto simp: drain_record_def Let_def split: if_splits)
  from assms(1,2) have inv: "buffers_inv bufs" by (simp add: refs_exact_def)
  have keys: "buf_contains m bufs1 = (m = l \<or> buf_contains m bufs)" for m
    using keys_buf_append [of l t bufs] by (auto simp: buf_contains_def bufs1)
  have len: "length (of_logger m bufs1) = (if m = l \<or> buf_contains m bufs then 1 else 0)" for m
    using buf_contains_texts [OF buffers_inv_append [OF inv], of m l t] keys [of m] by (simp add: bufs1)
  have old: "length (of_logger m bufs) = (if buf_contains m bufs then 1 else 0)" for m
    by (rule buf_contains_texts [OF inv])
  show ?thesis
    using assms(1,2) buffers_inv_append [OF inv, of l t]
    by (auto simp: refs_exact_def uses_def s1 bufs1 [symmetric] ref_inc_def len old)
qed

lemma refs_exact_work:
  assumes "refs_exact s" "worker_step lib loggers s = Inr s'"
  shows "refs_exact s'"
proof (cases "w_pc s")
  case (Draining final ready ws bufs)
  show ?thesis
  proof (cases ready)
    case Nil
    with assms Draining show ?thesis by (auto simp: worker_step_def refs_exact_def uses_def)
  next
    case (Cons x ready')
    obtain l r where "x = (l, r)" by fastforce
    with assms Draining Cons show ?thesis
      by (auto simp: worker_step_def intro: refs_exact_drain)
  qed
next
  case (Writing final ws bufs)
  show ?thesis
  proof (cases bufs)
    case Nil
    with assms Writing show ?thesis by (auto simp: worker_step_def refs_exact_def uses_def)
  next
    case (Cons x bufs')
    obtain l t where "x = (l, t)" by fastforce
    with assms Writing Cons show ?thesis
      by (auto simp: worker_step_def refs_exact_def uses_def backend_write_def buffers_inv_def
          split: if_splits)
  qed
qed (use assms in \<open>auto simp: worker_step_def refs_exact_def uses_def buffers_inv_def swap_queues_def
      split: if_splits list.splits\<close>)

lemma length_of_logger_nth:
  "i < length xs \<Longrightarrow> length (of_logger l xs) = length (of_logger l (take i xs)) +
     length (of_logger l (drop (Suc i) xs)) + (if fst (xs ! i) = l then 1 else 0)"
  using length_of_logger_take_drop [of i xs l] by simp

lemma refs_exact_check:
  "refs_exact s \<Longrightarrow> i < length (w_logging s) \<Longrightarrow> append_check i s = Inr s' \<Longrightarrow> refs_exact s'"
  using length_of_logger_nth [of i "w_logging s"]
  by (auto simp: append_check_def refs_exact_def uses_def split: if_splits)

lemma refs_exact_append:
  "refs_exact s \<Longrightarrow> i < length (w_pending s) \<Longrightarrow> worker_append i s = Inr s' \<Longrightarrow> refs_exact s'"
  using length_of_logger_nth [of i "w_pending s"]
  by (auto simp: worker_append_def refs_exact_def uses_def Let_def split: if_splits)

lemmas app_steps = append_check_def worker_append_def logger_flush_def flush_check_def flush_enqueue_def
  flush_test_def flush_block_def logger_dtor_def dtor_test_def dtor_block_def worker_stop_def swap_queues_def

lemma refs_exact_reachable: "reachable lib loggers s \<Longrightarrow> refs_exact s"
proof (induction rule: reachable.induct)
  case (step s a s')
  show ?case
  proof (cases a)
    case (Append i)
    with step refs_exact_append show ?thesis by auto
  next
    case (Check i)
    with step refs_exact_check show ?thesis by auto
  next
    case Work
    with step refs_exact_work show ?thesis by auto
  next
    case (Log l r)
    with step show ?thesis
      by (cases "lr_level r < lg_level (loggers l)")
        (auto simp: logger_log_def ref_inc_def refs_exact_def uses_def)
  qed (use step in \<open>auto simp: app_steps refs_exact_def uses_def buffers_inv_def split: if_splits\<close>)
qed (rule refs_exact_start)

section \<open>The order of the output\<close>

text \<open>The lines of the records of one logger, and what was written of it.\<close>

definition lines_of :: "log_fmt \<Rightarrow> (nat \<Rightarrow> logger) \<Rightarrow> nat \<Rightarrow> (nat \<times> log_record) list \<Rightarrow> string" where
  "lines_of lib loggers l xs = concat (map (\<lambda>r.
     case format lib (lg_formatter (loggers l)) r of Inr t \<Rightarrow> t @ [CHR 0x0A] | Inl f \<Rightarrow> []) (of_logger l xs))"

lemma lines_of_simps [simp]:
  "lines_of lib loggers l [] = []"
  "lines_of lib loggers l (xs @ ys) = lines_of lib loggers l xs @ lines_of lib loggers l ys"
  "lines_of lib loggers l ((m, r) # xs) =
     (if m = l then (case format lib (lg_formatter (loggers l)) r of Inr t \<Rightarrow> t @ [CHR 0x0A] | Inl f \<Rightarrow> []) else [])
     @ lines_of lib loggers l xs"
  by (simp_all add: lines_of_def)

definition written :: "nat \<Rightarrow> wstate \<Rightarrow> string" where
  "written l s = concat (of_logger l (w_out s))"

definition in_order :: "log_fmt \<Rightarrow> (nat \<Rightarrow> logger) \<Rightarrow> wstate \<Rightarrow> bool" where
  "in_order lib loggers s \<longleftrightarrow>
     (\<forall>l. lg_file (loggers l) = [] \<longrightarrow>
        written l s @ concat (of_logger l (held (w_pc s))) @ lines_of lib loggers l (in_hand (w_pc s))
          @ lines_of lib loggers l (w_logs s) = lines_of lib loggers l (w_queued s))"

lemma in_order_drain:
  assumes "in_order lib loggers s" "refs_exact s" "w_pc s = Draining final ((l, r) # ready) ws bufs"
    and "drain_record lib loggers l r bufs s = Inr (bufs1, s1)"
  shows "in_order lib loggers (unreference l (Draining final ready ws bufs1) s1)"
proof -
  from assms(4) obtain t where "format lib (lg_formatter (loggers l)) r = Inr t"
    and "bufs1 = buf_append l (t @ [CHR 0x0A]) bufs"
    and "s1 = (if buf_contains l bufs then s else ref_inc l s)"
    by (auto simp: drain_record_def Let_def split: if_splits)
  moreover from assms(2,3) have "buffers_inv bufs" by (simp add: refs_exact_def)
  ultimately show ?thesis
    using assms(1,3)
    by (auto simp: in_order_def written_def ref_inc_def text_buf_append)
qed

lemma in_order_work:
  assumes "in_order lib loggers s" "refs_exact s" "worker_step lib loggers s = Inr s'"
  shows "in_order lib loggers s'"
proof (cases "w_pc s")
  case (Draining final ready ws bufs)
  show ?thesis
  proof (cases ready)
    case Nil
    with assms Draining show ?thesis by (auto simp: worker_step_def in_order_def written_def)
  next
    case (Cons x ready')
    obtain l r where "x = (l, r)" by fastforce
    with assms Draining Cons show ?thesis
      by (auto simp: worker_step_def intro: in_order_drain)
  qed
next
  case (Writing final ws bufs)
  show ?thesis
  proof (cases bufs)
    case Nil
    with assms Writing show ?thesis by (auto simp: worker_step_def in_order_def written_def)
  next
    case (Cons x bufs')
    obtain l t where x: "x = (l, t)" by fastforce
    from assms(2) Writing Cons x have "l \<notin> set (map fst bufs')"
      by (auto simp: refs_exact_def buffers_inv_def)
    with assms Writing Cons x show ?thesis
      by (auto simp: worker_step_def in_order_def written_def backend_write_def split: if_splits)
  qed
qed (use assms in \<open>auto simp: worker_step_def swap_queues_def in_order_def written_def
      split: if_splits list.splits\<close>)

lemma in_order_reachable: "reachable lib loggers s \<Longrightarrow> in_order lib loggers s"
proof (induction rule: reachable.induct)
  case start
  show ?case by (simp add: in_order_def written_def worker_start_def)
next
  case (step s a s')
  show ?case
  proof (cases a)
    case Work
    with step refs_exact_reachable in_order_work show ?thesis by auto
  next
    case (Append i)
    obtain l r where "w_pending s ! i = (l, r)" by fastforce
    with step Append show ?thesis
      by (auto simp: worker_append_def Let_def in_order_def written_def split: if_splits)
  next
    case (Log l r)
    with step show ?thesis
      by (cases "lr_level r < lg_level (loggers l)")
        (auto simp: logger_log_def ref_inc_def in_order_def written_def)
  qed (use step in \<open>auto simp: app_steps in_order_def written_def split: if_splits\<close>)
qed

section \<open>Properties\<close>

text \<open>The reference printer of an example, and two loggers.\<close>

definition plain_log_fmt :: log_fmt where
  "plain_log_fmt = \<lparr>lf_minutes = (\<lambda>_. ''time''), lf_seconds = (\<lambda>_. ''''), lf_int = (\<lambda>_. ''0'')\<rparr>"

definition two_loggers :: "nat \<Rightarrow> logger" where
  "two_loggers l = logger_ctor ''%{level} %{topic} %{message}'' (if l = 0 then ''a'' else ''b'')"

definition log_line :: "level \<Rightarrow> string \<Rightarrow> log_record" where
  "log_line lv m = \<lparr>lr_timestamp = 0, lr_level = lv, lr_topic = '''', lr_tid = 1, lr_file = ''f'', lr_line = 1,
     lr_message = m\<rparr>"

definition log_trace :: "action list" where
  "log_trace = [Log 0 (log_line ERROR ''x''), Log 1 (log_line FATAL ''y''), Check 0, Append 0,
     Log 0 (log_line INFO ''z''), Check 0, Append 0] @ replicate 3 Work @
     [Log 0 (log_line WARNING ''w''), Check 0, Append 0, Destroy 0, Test_dtor 0, Block_dtor 0] @
     replicate 15 Work @ [Test_dtor 0, Destroy 1]"

text \<open>A notification of a logger is sent between the buffers and nowhere else.\<close>

definition releasing_inv :: "worker_pc \<Rightarrow> bool" where
  "releasing_inv pc \<longleftrightarrow> (\<forall>l p. pc = Releasing l p \<longrightarrow> (\<exists>final ws bufs. p = Writing final ws bufs))"

lemma releasing_inv_work:
  assumes "refs_exact s" "releasing_inv (w_pc s)" "worker_step lib loggers s = Inr s'"
  shows "releasing_inv (w_pc s')"
proof (cases "w_pc s")
  case (Draining final ready ws bufs)
  show ?thesis
  proof (cases ready)
    case (Cons x ready')
    obtain l r where x: "x = (l, r)" by fastforce
    from assms(3) Draining Cons x obtain bufs1 s1 where s1: "drain_record lib loggers l r bufs s = Inr (bufs1, s1)"
      and s': "s' = unreference l (Draining final ready' ws bufs1) s1"
      by (auto simp: worker_step_def)
    from assms(1) Draining Cons x have "w_refs s l \<ge> (if buf_contains l bufs then 2 else 1)"
      using buf_contains_texts [of bufs l] by (auto simp: refs_exact_def uses_def)
    with s1 have "w_refs s1 l \<ge> 2"
      by (auto simp: drain_record_def Let_def ref_inc_def split: if_splits)
    then show ?thesis
      by (auto simp: s' unreference_def Let_def ref_dec_def size_dec_def releasing_inv_def)
  qed (use assms Draining in \<open>auto simp: worker_step_def releasing_inv_def\<close>)
next
  case (Releasing l p)
  with assms(2) obtain final ws bufs where "p = Writing final ws bufs" by (auto simp: releasing_inv_def)
  with assms(3) Releasing show ?thesis by (auto simp: worker_step_def releasing_inv_def split: if_splits)
qed (use assms(3) in \<open>auto simp: worker_step_def releasing_inv_def unreference_def Let_def swap_queues_def
      split: if_splits list.splits\<close>)

lemma releasing_inv_reachable: "reachable lib loggers s \<Longrightarrow> releasing_inv (w_pc s)"
proof (induction rule: reachable.induct)
  case (step s a s')
  show ?case
  proof (cases a)
    case Work
    with step releasing_inv_work [OF refs_exact_reachable [OF step.hyps(1)] step.IH] show ?thesis by auto
  next
    case (Log l r)
    with step show ?thesis by (auto simp: logger_log_def ref_inc_def)
  qed (use step in \<open>auto simp: app_steps notify_one_def releasing_inv_def Let_def
        split: if_splits option.splits sleeper.splits\<close>)
qed (simp add: worker_start_def releasing_inv_def)

text \<open>
  C13. The reference count of a logger. In every reachable state it is the number of its records that
  are on the way to the queue, in the queue or in the hands of the worker, plus one while the
  worker holds a buffer for it; it never underflows. So the destructor of a logger only ends when
  nothing of it is left to write, and the worker never reads the formatter or the backend of a
  destroyed logger. The one thing of it the worker may still touch is the condition variable that
  \<open>unreference_\<close> notifies after the last buffer has been written.
\<close>

theorem loggers_outlive_their_records:
  assumes "reachable lib loggers s"
  shows "w_refs s l = length (of_logger l (w_logging s @ w_pending s @ w_logs s @ in_hand (w_pc s))) +
      length (of_logger l (held (w_pc s))) \<and>
    (w_dtor s l = Returned \<longrightarrow> of_logger l (w_logging s @ w_pending s @ w_logs s @ in_hand (w_pc s)) = [] \<and>
      of_logger l (held (w_pc s)) = []) \<and>
    (worker_step lib loggers s = Inl Dangling \<longrightarrow> (\<exists>final k ws. w_pc s = Notifying final k ws) \<or>
      (\<exists>m final ws bufs. w_pc s = Releasing m (Writing final ws bufs) \<and> w_dtor s m = Returned))"
proof -
  from refs_exact_reachable [OF assms]
  have r: "w_refs s m = uses s m" "w_dtor s m = Returned \<longrightarrow> uses s m = 0" for m
    by (simp_all add: refs_exact_def)
  have "(\<exists>final k ws. w_pc s = Notifying final k ws) \<or>
      (\<exists>m final ws bufs. w_pc s = Releasing m (Writing final ws bufs) \<and> w_dtor s m = Returned)"
    if "worker_step lib loggers s = Inl Dangling"
  proof (cases "w_pc s")
    case (Draining final ready ws bufs)
    show ?thesis
    proof (cases ready)
      case (Cons x ready')
      obtain m q where x: "x = (m, q)" by fastforce
      with r [of m] Draining Cons have "w_dtor s m \<noteq> Returned" by (auto simp: uses_def)
      with that Draining Cons x show ?thesis
        by (auto simp: worker_step_def drain_record_def Let_def res_bind_eq_Inl format_text
            dest: strip_newlines_fault)
    qed (use that Draining in \<open>simp add: worker_step_def\<close>)
  next
    case (Writing final ws bufs)
    show ?thesis
    proof (cases bufs)
      case (Cons x bufs')
      obtain m t where x: "x = (m, t)" by fastforce
      with r [of m] Writing Cons have "w_dtor s m \<noteq> Returned" by (auto simp: uses_def)
      with that Writing Cons x show ?thesis by (simp add: worker_step_def)
    qed (use that Writing in \<open>simp add: worker_step_def\<close>)
  next
    case (Releasing m pc)
    with releasing_inv_reachable [OF assms] that show ?thesis
      by (auto simp: worker_step_def releasing_inv_def split: if_splits)
  qed (use that in \<open>auto simp: worker_step_def split: if_splits list.splits\<close>)
  with r [of l] show ?thesis by (auto simp: uses_def)
qed

lemma log_trace_run:
  obtains s where "acts plain_log_fmt two_loggers log_trace worker_start = Inr s"
    "w_dtor s 0 = Returned" "w_pc s = Looping" "w_logs s = []" "length (w_queued s) = 3" "length (w_out s) = 3"
proof -
  have "case acts plain_log_fmt two_loggers log_trace worker_start of
      Inr s \<Rightarrow> w_dtor s 0 = Returned \<and> w_pc s = Looping \<and> w_logs s = [] \<and> length (w_queued s) = 3 \<and> length (w_out s) = 3
    | Inl f \<Rightarrow> False"
    by code_simp
  with that show ?thesis by (auto split: sum.splits)
qed

theorem loggers_outlive_their_records_witness:
  "\<exists>s. reachable plain_log_fmt two_loggers s \<and> w_dtor s 0 = Returned \<and>
    of_logger 0 (w_logging s @ w_pending s @ w_logs s @ in_hand (w_pc s)) = []"
proof -
  obtain s where "acts plain_log_fmt two_loggers log_trace worker_start = Inr s" "w_dtor s 0 = Returned"
    by (rule log_trace_run)
  with acts_reachable [OF this(1) start] loggers_outlive_their_records show ?thesis by blast
qed

text \<open>
  C14. Every record is written once and in order. In every reachable state what the standard output has of
  a logger is a beginning of the lines of its records in the order they were queued; it is all of
  them whenever the worker has nothing in its hands and the queue is empty, whatever the other
  threads did meanwhile.
\<close>

theorem records_written_in_order:
  assumes "reachable lib loggers s" "lg_file (loggers l) = []"
  shows "(\<exists>rest. lines_of lib loggers l (w_queued s) = written l s @ rest) \<and>
    (w_logs s = [] \<and> in_hand (w_pc s) = [] \<and> held (w_pc s) = [] \<longrightarrow>
       written l s = lines_of lib loggers l (w_queued s))"
proof -
  from in_order_reachable [OF assms(1)] assms(2)
  have "lines_of lib loggers l (w_queued s) = written l s @ concat (of_logger l (held (w_pc s))) @
      lines_of lib loggers l (in_hand (w_pc s)) @ lines_of lib loggers l (w_logs s)"
    by (simp add: in_order_def)
  then show ?thesis by auto
qed

theorem records_written_in_order_witness:
  "\<exists>s. reachable plain_log_fmt two_loggers s \<and> length (w_queued s) = 3 \<and>
    written 0 s = lines_of plain_log_fmt two_loggers 0 (w_queued s)"
proof -
  obtain s where s: "acts plain_log_fmt two_loggers log_trace worker_start = Inr s" "w_pc s = Looping"
    "w_logs s = []" "length (w_queued s) = 3"
    by (rule log_trace_run)
  have "reachable plain_log_fmt two_loggers s" by (rule acts_reachable [OF s(1) start])
  with records_written_in_order [OF this, of 0] s show ?thesis
    by (auto simp: two_loggers_def logger_ctor_def)
qed

text \<open>
  The level of a logger. A record below it leaves no trace in any state; one at or above it is counted
  and handed on with the topic of the logger. So with a logger as it is constructed, the default one
  for example, \<open>debug\<close> and \<open>info\<close> do nothing and the other three do not.
\<close>

theorem level_filters_records:
  "(logger_log loggers l r s = s \<longleftrightarrow> lr_level r < lg_level (loggers l)) \<and>
   (lg_level (loggers l) \<le> lr_level r \<longrightarrow> w_refs (logger_log loggers l r s) l = w_refs s l + 1 \<and>
      w_logging (logger_log loggers l r s) = w_logging s @ [(l, r\<lparr>lr_topic := lg_topic (loggers l)\<rparr>)]) \<and>
   (let loggers = (\<lambda>_. default_logger) in
      log_debug loggers None r s = s \<and> log_info loggers None r s = s \<and>
      log_warning loggers None r s \<noteq> s \<and> log_error loggers None r s \<noteq> s \<and> log_fatal loggers None r s \<noteq> s)"
proof -
  have changes: "logger_log loggers l r s \<noteq> s" if "\<not> lr_level r < lg_level (loggers l)" for loggers l r
  proof
    assume "logger_log loggers l r s = s"
    then have "w_logging (logger_log loggers l r s) = w_logging s" by simp
    with that show False by (simp add: logger_log_def)
  qed
  have drops: "logger_log loggers l r s = s" if "lr_level r < lg_level (loggers l)" for loggers l r
    using that by (simp add: logger_log_def)
  have default: "lg_level default_logger = WARNING" by (simp add: default_logger_def logger_ctor_def)
  have "log_debug (\<lambda>_. default_logger) None r s = s" "log_info (\<lambda>_. default_logger) None r s = s"
    unfolding log_debug_def log_info_def by (rule drops, simp add: default less_level_def)+
  moreover have "log_warning (\<lambda>_. default_logger) None r s \<noteq> s" "log_error (\<lambda>_. default_logger) None r s \<noteq> s"
      "log_fatal (\<lambda>_. default_logger) None r s \<noteq> s"
    unfolding log_warning_def log_error_def log_fatal_def by (rule changes, simp add: default less_level_def)+
  ultimately show ?thesis
    using changes [of r loggers l] drops [of r loggers l]
    by (auto simp: Let_def logger_log_def ref_inc_def)
qed

theorem level_filters_records_witness:
  "w_refs (logger_log two_loggers 0 (log_line FATAL ''x'') worker_start) 0 = 1 \<and>
   logger_log two_loggers 0 (log_line INFO ''x'') worker_start = worker_start"
  using level_filters_records [of two_loggers 0 "log_line FATAL ''x''" worker_start]
    level_filters_records [of two_loggers 0 "log_line INFO ''x''" worker_start]
  by (simp add: two_loggers_def logger_ctor_def log_line_def worker_start_def less_level_def less_eq_level_def)

end
