(* ===== verification/BC_Worker_Waits.thy ===== *)
theory BC_Worker_Waits
  imports BC_Worker
begin

text \<open>
  What waits for the writing thread and what wakes it: the end of a drain, the calls of \<open>flush\<close>, the
  destructors of loggers, and the worker itself. The transition system is that of \<open>BC_Worker\<close>.
\<close>

lemma case_returned:
  assumes "case r of Inr s \<Rightarrow> P s | Inl f \<Rightarrow> False"
  obtains s where "r = Inr s" "P s"
  using assms by (auto simp: case_Inr_iff)

section \<open>A drain ends\<close>

text \<open>A bound on the steps the worker has left until it is at the head of its loop, or has left it.\<close>

fun drain_left :: "worker_pc \<Rightarrow> nat" where
  "drain_left (Draining final ready ws bufs) = 4 * length ready + 2 * length bufs + 2 * length ws + 3"
| "drain_left (Writing final ws bufs) = 2 * length bufs + 2 * length ws + 2"
| "drain_left (Releasing l pc) = Suc (drain_left pc)"
| "drain_left (Waking final ws) = 2 * length ws + 1"
| "drain_left (Notifying final k ws) = 2 * length ws + 2"
| "drain_left _ = 0"

fun drains :: "worker_pc \<Rightarrow> bool" where
  "drains Looping = True"
| "drains Exited = True"
| "drains (Releasing l pc) = drains pc"
| "drains Waiting = False"
| "drains Falling = False"
| "drains Sleeping = False"
| "drains _ = True"

lemma length_buf_append: "length (buf_append l t bs) \<le> Suc (length bs)"
  by (induction l t bs rule: buf_append.induct) auto

lemma pc_unreference: "w_pc (unreference l pc s) = pc \<or> w_pc (unreference l pc s) = Releasing l pc"
  by (simp add: unreference_def Let_def)

lemma drain_left_unreference: "drain_left (w_pc (unreference l pc s)) \<le> Suc (drain_left pc)"
  by (simp add: unreference_def Let_def)

lemma drains_unreference [simp]: "drains (w_pc (unreference l pc s)) = drains pc"
  by (simp add: unreference_def Let_def)

lemma drain_left_work:
  assumes "worker_step lib loggers s = Inr s'" "drains (w_pc s)" "0 < drain_left (w_pc s)"
  shows "drain_left (w_pc s') < drain_left (w_pc s) \<and> drains (w_pc s')"
proof (cases "w_pc s")
  case (Draining final ready ws bufs)
  show ?thesis
  proof (cases ready)
    case (Cons x ready')
    obtain l r where x: "x = (l, r)" by fastforce
    from assms(1) Draining Cons x obtain bufs1 s1 where d: "drain_record lib loggers l r bufs s = Inr (bufs1, s1)"
      and s': "s' = unreference l (Draining final ready' ws bufs1) s1"
      by (auto simp: worker_step_def)
    from d obtain t where "bufs1 = buf_append l t bufs"
      by (auto simp: drain_record_def Let_def split: if_splits)
    with length_buf_append [of l t bufs] drain_left_unreference [of l "Draining final ready' ws bufs1" s1]
    show ?thesis using Draining Cons by (simp add: s')
  qed (use assms Draining in \<open>auto simp: worker_step_def\<close>)
next
  case (Writing final ws bufs)
  show ?thesis
  proof (cases bufs)
    case (Cons x bufs')
    obtain l t where "x = (l, t)" by fastforce
    with assms Writing Cons drain_left_unreference [of l "Writing final ws bufs'" "backend_write loggers l t s"]
    show ?thesis by (auto simp: worker_step_def split: if_splits)
  qed (use assms Writing in \<open>auto simp: worker_step_def\<close>)
qed (use assms in \<open>auto simp: worker_step_def split: if_splits list.splits\<close>)

lemma drains_done: "drains pc \<Longrightarrow> drain_left pc = 0 \<Longrightarrow> pc = Looping \<or> pc = Exited"
  by (cases pc) auto

lemma drain_record_queues:
  "drain_record lib loggers l r bufs s = Inr (bufs1, s1) \<Longrightarrow>
     w_queued s1 = w_queued s \<and> w_logs s1 = w_logs s \<and> w_phase s1 = w_phase s \<and> w_dtor s1 = w_dtor s \<and>
     w_sleepers s1 = w_sleepers s \<and> w_notifies s1 = w_notifies s \<and>
     w_refs s1 = (if buf_contains l bufs then w_refs s else (w_refs s)(l := Suc (w_refs s l)))"
  by (auto simp: drain_record_def Let_def ref_inc_def split: if_splits)

lemma drain_keeps_queues:
  assumes "worker_step lib loggers s = Inr s'" "drains (w_pc s)" "0 < drain_left (w_pc s)"
  shows "w_queued s' = w_queued s \<and> w_logs s' = w_logs s"
  using assms
  by (auto simp: worker_step_def backend_write_def dtor_wake_def dest: drain_record_queues
      split: worker_pc.splits list.splits if_splits prod.splits)

lemma work_phase:
  assumes "worker_step lib loggers s = Inr s'"
  shows "w_phase s' = w_phase s \<and> w_sleepers s' = w_sleepers s \<and> w_notifies s' = w_notifies s"
proof (cases "w_pc s")
  case (Draining final ready ws bufs)
  with assms show ?thesis
    by (cases ready) (auto simp: worker_step_def, (drule drain_record_queues, simp)+)
qed (use assms in \<open>auto simp: worker_step_def backend_write_def dtor_wake_def swap_queues_def
      split: if_splits list.splits\<close>)

text \<open>
  The calls of \<open>flush\<close> the worker has still to mark. One that has returned was marked, and one is
  marked once; so the condition variable the worker notifies next is still there unless its call returned
  between the two steps.
\<close>

fun waiters_in_hand :: "worker_pc \<Rightarrow> nat list" where
  "waiters_in_hand (Draining final ready ws bufs) = ws"
| "waiters_in_hand (Writing final ws bufs) = ws"
| "waiters_in_hand (Releasing l pc) = waiters_in_hand pc"
| "waiters_in_hand (Waking final ws) = ws"
| "waiters_in_hand (Notifying final k ws) = ws"
| "waiters_in_hand _ = []"

definition waiters_inv :: "wstate \<Rightarrow> bool" where
  "waiters_inv s \<longleftrightarrow> distinct (w_waiters s @ waiters_in_hand (w_pc s) @ w_flushed s) \<and>
     (\<forall>k \<in> set (w_waiters s @ waiters_in_hand (w_pc s) @ w_flushed s). w_phase s k \<noteq> Absent \<and> w_phase s k \<noteq> Admitted) \<and>
     (\<forall>k. w_phase s k = Returned \<longrightarrow> k \<in> set (w_flushed s))"

lemma waiters_unreference [simp]:
  "waiters_in_hand (w_pc (unreference l pc s)) = waiters_in_hand pc"
  "w_waiters (unreference l pc s) = w_waiters s" "w_flushed (unreference l pc s) = w_flushed s"
  by (simp_all add: unreference_def ref_dec_def Let_def)

lemma drain_record_waiters:
  "drain_record lib loggers l r bufs s = Inr (bufs1, s1) \<Longrightarrow>
     w_waiters s1 = w_waiters s \<and> w_flushed s1 = w_flushed s \<and> w_phase s1 = w_phase s"
  by (auto simp: drain_record_def Let_def ref_inc_def split: if_splits)

lemma work_waiters:
  assumes "worker_step lib loggers s = Inr s'"
  shows "set (w_waiters s' @ waiters_in_hand (w_pc s') @ w_flushed s') =
      set (w_waiters s @ waiters_in_hand (w_pc s) @ w_flushed s) \<and>
    length (w_waiters s' @ waiters_in_hand (w_pc s') @ w_flushed s') =
      length (w_waiters s @ waiters_in_hand (w_pc s) @ w_flushed s) \<and>
    set (w_flushed s) \<subseteq> set (w_flushed s') \<and> (drains (w_pc s) \<and> 0 < drain_left (w_pc s) \<longrightarrow> w_waiters s' = w_waiters s)"
proof (cases "w_pc s")
  case (Draining final ready ws bufs)
  with assms show ?thesis
    by (cases ready) (auto simp: worker_step_def, (drule drain_record_waiters, simp)+)
qed (use assms in \<open>auto simp: worker_step_def backend_write_def dtor_wake_def swap_queues_def
      split: if_splits list.splits\<close>)

lemma waiters_inv_reachable: "reachable lib loggers s \<Longrightarrow> waiters_inv s"
proof (induction rule: reachable.induct)
  case (step s a s')
  show ?case
  proof (cases a)
    case Work
    with step have w: "worker_step lib loggers s = Inr s'" by simp
    from work_waiters [OF w] have "distinct (w_waiters s' @ waiters_in_hand (w_pc s') @ w_flushed s')"
      using step.IH unfolding waiters_inv_def by (metis card_distinct distinct_card)
    with step.IH work_waiters [OF w] work_phase [OF w] show ?thesis unfolding waiters_inv_def by auto
  next
    case (Log l r)
    with step show ?thesis
      by (cases "lr_level r < lg_level (loggers l)") (auto simp: logger_log_def ref_inc_def waiters_inv_def)
  qed (use step in \<open>auto simp: app_steps notify_one_def dtor_wake_def waiters_inv_def Let_def may_wake_def
        split: if_splits option.splits sleeper.splits\<close>)
qed (simp add: worker_start_def waiters_inv_def)

text \<open>
  The worker is about to notify a condition variable that is gone: that of a logger whose destructor has
  returned, or of a call of \<open>flush\<close> that has.
\<close>

definition late :: "wstate \<Rightarrow> bool" where
  "late s =
     (case w_pc s of
        Releasing l pc \<Rightarrow> w_dtor s l = Returned
      | Notifying final k ws \<Rightarrow> w_phase s k = Returned
      | _ \<Rightarrow> False)"

definition formattable :: "log_fmt \<Rightarrow> (nat \<Rightarrow> logger) \<Rightarrow> (nat \<times> log_record) list \<Rightarrow> bool" where
  "formattable lib loggers xs = list_all (\<lambda>(l, r). \<exists>t. format lib (lg_formatter (loggers l)) r = Inr t) xs"

lemma late_unreference:
  assumes "w_dtor s l \<noteq> Returned" "\<not> (\<exists>m p. pc = Releasing m p)" "\<not> (\<exists>final k ws. pc = Notifying final k ws)"
  shows "\<not> late (unreference l pc s)"
  using assms by (cases pc) (auto simp: late_def unreference_def ref_dec_def Let_def)

lemma late_step: "late s \<Longrightarrow> worker_step lib loggers s = Inl Dangling"
  by (auto simp: late_def worker_step_def split: worker_pc.splits)

lemma drain_steps:
  assumes "reachable lib loggers s" "drains (w_pc s)" "0 < drain_left (w_pc s)"
    and "formattable lib loggers (in_hand (w_pc s))" "\<not> late s"
  shows "\<exists>s'. worker_step lib loggers s = Inr s' \<and> formattable lib loggers (in_hand (w_pc s')) \<and> \<not> late s'"
proof (cases "w_pc s")
  case (Draining final ready ws bufs)
  show ?thesis
  proof (cases ready)
    case (Cons x ready')
    obtain l r where x: "x = (l, r)" by fastforce
    from refs_exact_reachable [OF assms(1)] Draining Cons x have alive: "w_dtor s l \<noteq> Returned"
      by (auto simp: refs_exact_def uses_def)
    from assms(4) Draining Cons x obtain t where "format lib (lg_formatter (loggers l)) r = Inr t"
      by (auto simp: formattable_def)
    with alive have d: "drain_record lib loggers l r bufs s =
        Inr (buf_append l (t @ [CHR 0x0A]) bufs, if buf_contains l bufs then s else ref_inc l s)"
      by (simp add: drain_record_def Let_def)
    with alive have "w_dtor (if buf_contains l bufs then s else ref_inc l s) l \<noteq> Returned"
      by (simp add: ref_inc_def)
    with d assms(4) Draining Cons x late_unreference show ?thesis
      by (auto simp: worker_step_def formattable_def)
  qed (use Draining in \<open>auto simp: worker_step_def formattable_def late_def\<close>)
next
  case (Writing final ws bufs)
  show ?thesis
  proof (cases bufs)
    case (Cons x bufs')
    obtain l t where x: "x = (l, t)" by fastforce
    from refs_exact_reachable [OF assms(1)] Writing Cons x have alive: "w_dtor s l \<noteq> Returned"
      by (auto simp: refs_exact_def uses_def)
    then have "w_dtor (backend_write loggers l t s) l \<noteq> Returned" by (simp add: backend_write_def)
    with alive Writing Cons x late_unreference show ?thesis
      by (auto simp: worker_step_def formattable_def)
  qed (use Writing in \<open>auto simp: worker_step_def formattable_def late_def\<close>)
next
  case (Releasing l pc)
  with releasing_inv_reachable [OF assms(1)] obtain final ws bufs where "pc = Writing final ws bufs"
    by (auto simp: releasing_inv_def)
  with assms(5) Releasing show ?thesis by (auto simp: worker_step_def formattable_def late_def)
next
  case (Waking final ws)
  show ?thesis
  proof (cases ws)
    case (Cons k ws')
    with waiters_inv_reachable [OF assms(1)] Waking have "w_phase s k \<noteq> Returned"
      by (auto simp: waiters_inv_def)
    with Waking Cons show ?thesis by (simp add: worker_step_def formattable_def late_def)
  qed (use Waking in \<open>simp add: worker_step_def formattable_def late_def\<close>)
qed (use assms in \<open>simp_all add: worker_step_def formattable_def late_def\<close>)

lemma drain_runs:
  assumes "reachable lib loggers s" "drains (w_pc s)" "formattable lib loggers (in_hand (w_pc s))" "\<not> late s"
  shows "\<exists>n \<le> drain_left (w_pc s). \<exists>s'. acts lib loggers (replicate n Work) s = Inr s' \<and>
    (w_pc s' = Looping \<or> w_pc s' = Exited) \<and> w_queued s' = w_queued s \<and> w_logs s' = w_logs s \<and>
    set (w_flushed s') = set (waiters_in_hand (w_pc s)) \<union> set (w_flushed s)"
  using assms
proof (induction "drain_left (w_pc s)" arbitrary: s rule: less_induct)
  case less
  show ?case
  proof (cases "drain_left (w_pc s) = 0")
    case True
    with drains_done [OF less.prems(2)] show ?thesis by (auto intro: exI [of _ 0])
  next
    case False
    then have left: "0 < drain_left (w_pc s)" by simp
    from drain_steps [OF less.prems(1,2) left less.prems(3,4)] obtain s1
      where s1: "worker_step lib loggers s = Inr s1" "formattable lib loggers (in_hand (w_pc s1))" "\<not> late s1"
      by blast
    have reach: "reachable lib loggers s1" by (rule step [OF less.prems(1), of Work]) (use s1(1) in simp_all)
    note down = drain_left_work [OF s1(1) less.prems(2) left]
    from less.hyps [OF _ reach _ s1(2,3)] down obtain n s' where n: "n \<le> drain_left (w_pc s1)"
      and run: "acts lib loggers (replicate n Work) s1 = Inr s'" "w_pc s' = Looping \<or> w_pc s' = Exited"
        "w_queued s' = w_queued s1" "w_logs s' = w_logs s1"
        "set (w_flushed s') = set (waiters_in_hand (w_pc s1)) \<union> set (w_flushed s1)"
      by blast
    have dis: "distinct (w_waiters u @ waiters_in_hand (w_pc u) @ w_flushed u)" if "reachable lib loggers u" for u
      using waiters_inv_reachable [OF that] by (simp add: waiters_inv_def)
    from work_waiters [OF s1(1)] less.prems(2) left dis [OF reach] dis [OF less.prems(1)]
    have "set (w_waiters s) \<inter> (set (waiters_in_hand (w_pc s1)) \<union> set (w_flushed s1)) = {}"
      "set (w_waiters s) \<inter> (set (waiters_in_hand (w_pc s)) \<union> set (w_flushed s)) = {}"
      "set (w_waiters s) \<union> (set (waiters_in_hand (w_pc s1)) \<union> set (w_flushed s1)) =
        set (w_waiters s) \<union> (set (waiters_in_hand (w_pc s)) \<union> set (w_flushed s))"
      by auto
    then have "set (waiters_in_hand (w_pc s1)) \<union> set (w_flushed s1) =
        set (waiters_in_hand (w_pc s)) \<union> set (w_flushed s)"
      by blast
    with run n down drain_keeps_queues [OF s1(1) less.prems(2) left] s1(1) show ?thesis
      by (intro exI [of _ "Suc n"]) simp
  qed
qed

text \<open>
  C15. A drain ends with everything written. From every reachable state in which the worker drains records
  that can be formatted, the worker alone is back at the head of its loop, or has left it, after a
  number of steps bounded by what it has in hand, without a fault. Then the standard output has every
  record of every logger that was queued before the drain took the queue, in order, and the calls of
  \<open>flush\<close> the drain took are marked. The one exception is the state in which the destructor or the
  call of \<open>flush\<close> the worker is about to notify has returned already: there its next step is the fault.
\<close>

theorem drain_writes_everything:
  assumes "reachable lib loggers s" "drains (w_pc s)" "formattable lib loggers (in_hand (w_pc s))"
  shows "if late s then worker_step lib loggers s = Inl Dangling
    else \<exists>n \<le> drain_left (w_pc s). \<exists>s'. acts lib loggers (replicate n Work) s = Inr s' \<and>
      (w_pc s' = Looping \<or> w_pc s' = Exited) \<and>
      (\<forall>l. lg_file (loggers l) = [] \<longrightarrow>
        written l s' @ lines_of lib loggers l (w_logs s) = lines_of lib loggers l (w_queued s)) \<and>
      set (w_flushed s') = set (waiters_in_hand (w_pc s)) \<union> set (w_flushed s)"
proof (cases "late s")
  case False
  from drain_runs [OF assms False] obtain n s' where n: "n \<le> drain_left (w_pc s)"
    and run: "acts lib loggers (replicate n Work) s = Inr s'" "w_pc s' = Looping \<or> w_pc s' = Exited"
      "w_queued s' = w_queued s" "w_logs s' = w_logs s"
      "set (w_flushed s') = set (waiters_in_hand (w_pc s)) \<union> set (w_flushed s)"
    by blast
  from in_order_reachable [OF acts_reachable [OF run(1) assms(1)]] run(2-4)
  have "\<forall>l. lg_file (loggers l) = [] \<longrightarrow>
      written l s' @ lines_of lib loggers l (w_logs s) = lines_of lib loggers l (w_queued s)"
    by (auto simp: in_order_def)
  with n run False show ?thesis by auto
qed (simp add: late_step)

definition two_lines :: "action list" where
  "two_lines = [Log 0 (log_line ERROR ''x''), Log 1 (log_line FATAL ''y''), Check 0, Append 0, Check 0, Append 0,
     Flush 0, Enter 0, Work, Work]"

theorem drain_writes_everything_witness:
  "\<exists>s n s'. w_out s = [] \<and> w_flushed s = [] \<and> acts plain_log_fmt two_loggers (replicate n Work) s = Inr s' \<and>
    written 0 s' = ''ERROR a x'' @ [CHR 0x0A] \<and> written 1 s' = ''FATAL b y'' @ [CHR 0x0A] \<and> set (w_flushed s') = {0}"
proof -
  have "case acts plain_log_fmt two_loggers two_lines worker_start of
      Inr s \<Rightarrow> w_pc s = Draining False (w_queued s) [0] [] \<and> w_out s = [] \<and> w_flushed s = [] \<and> w_logs s = [] \<and>
        list_all (\<lambda>(l, r). case format plain_log_fmt (lg_formatter (two_loggers l)) r of Inr t \<Rightarrow> True | Inl f \<Rightarrow> False)
          (w_queued s) \<and>
        lines_of plain_log_fmt two_loggers 0 (w_queued s) = ''ERROR a x'' @ [CHR 0x0A] \<and>
        lines_of plain_log_fmt two_loggers 1 (w_queued s) = ''FATAL b y'' @ [CHR 0x0A]
    | Inl f \<Rightarrow> False"
    by code_simp
  then obtain s where s: "acts plain_log_fmt two_loggers two_lines worker_start = Inr s"
    "w_pc s = Draining False (w_queued s) [0] []" "w_out s = []" "w_flushed s = []" "w_logs s = []"
    and fmt: "list_all (\<lambda>(l, r). case format plain_log_fmt (lg_formatter (two_loggers l)) r of
        Inr t \<Rightarrow> True | Inl f \<Rightarrow> False) (w_queued s)"
    and lines: "lines_of plain_log_fmt two_loggers 0 (w_queued s) = ''ERROR a x'' @ [CHR 0x0A]"
      "lines_of plain_log_fmt two_loggers 1 (w_queued s) = ''FATAL b y'' @ [CHR 0x0A]"
    by (rule case_returned) blast
  from fmt have "formattable plain_log_fmt two_loggers (in_hand (w_pc s))"
    unfolding formattable_def s(2) in_hand.simps
    by (rule list.pred_mono_strong) (auto simp: case_Inr_iff)
  moreover have "drains (w_pc s)" by (simp add: s(2))
  moreover have "\<not> late s" by (simp add: late_def s(2))
  ultimately obtain n s' where run: "acts plain_log_fmt two_loggers (replicate n Work) s = Inr s'"
    and out: "\<forall>l. lg_file (two_loggers l) = [] \<longrightarrow> written l s' @ lines_of plain_log_fmt two_loggers l (w_logs s) =
      lines_of plain_log_fmt two_loggers l (w_queued s)"
    and flushed: "set (w_flushed s') = set (waiters_in_hand (w_pc s)) \<union> set (w_flushed s)"
    using drain_writes_everything [OF acts_reachable [OF s(1) start]] by (metis (no_types, lifting))
  have "lg_file (two_loggers l) = []" for l by (simp add: two_loggers_def logger_ctor_def)
  with out s(5) lines have "written 0 s' = ''ERROR a x'' @ [CHR 0x0A]" "written 1 s' = ''FATAL b y'' @ [CHR 0x0A]"
    by simp_all
  moreover from flushed s(2,4) have "set (w_flushed s') = {0}" by simp
  ultimately show ?thesis using run s(3,4) by blast
qed

section \<open>What wakes a thread\<close>

text \<open>An action that wakes a call of \<open>flush\<close>.\<close>

fun wakes_call :: "nat \<Rightarrow> action \<Rightarrow> bool" where
  "wakes_call k (Notify c) = (c = Some (Call k))"
| "wakes_call k (Leave j c) = (c = Some (Call k))"
| "wakes_call k (Spurious c) = (c = Call k)"
| "wakes_call k _ = False"

lemma act_phase:
  assumes "act lib loggers a s = Inr s'" "enabled a s" "w_phase s k = Asleep" "\<not> wakes_call k a"
  shows "w_phase s' k = Asleep"
proof (cases a)
  case Work
  with assms work_phase show ?thesis by auto
next
  case (Log l r)
  with assms show ?thesis by (auto simp: logger_log_def ref_inc_def)
qed (use assms in \<open>auto simp: app_steps notify_one_def dtor_wake_def Let_def
      split: if_splits option.splits sleeper.splits\<close>)

lemma acts_phase:
  "acts lib loggers as s = Inr s' \<Longrightarrow> w_phase s k = Asleep \<Longrightarrow> \<forall>a \<in> set as. \<not> wakes_call k a \<Longrightarrow>
     w_phase s' k = Asleep"
  by (induction as arbitrary: s) (auto split: if_splits dest: act_phase)

lemma worker_wakes_no_call: "\<forall>a \<in> set (replicate n Work). \<not> wakes_call k a"
  by auto

text \<open>
  C39. \<open>flush\<close> is woken by the wrong condition variable. It sleeps on the worker's \<open>cv_\<close>, but the worker,
  when it has written everything, notifies a variable in the frame of \<open>flush\<close> on which nobody
  sleeps. So a call that sleeps goes on sleeping whatever the threads do, unless another thread
  notifies \<open>cv_\<close> for a reason of its own or the system wakes it spuriously; in particular no step of
  the worker wakes it, and there is a run in which everything is written, the call is marked as flushed,
  no notification is under way, and it sleeps.
\<close>

theorem worker_never_wakes_flush:
  "(w_phase s k = Asleep \<and> (\<forall>a \<in> set as. \<not> wakes_call k a) \<longrightarrow>
      (\<forall>s'. acts lib loggers as s = Inr s' \<longrightarrow> w_phase s' k = Asleep)) \<and>
   (\<forall>a \<in> set (replicate n Work). \<not> wakes_call k a) \<and>
   (case acts plain_log_fmt two_loggers
       ([Log 0 (log_line ERROR ''x''), Check 0, Append 0, Flush 0, Enter 0, Work, Work, Leave 0 None, Test 0,
         Block 0] @ replicate 8 Work) worker_start of
      Inr s \<Rightarrow> w_phase s 0 = Asleep \<and> w_flushed s = [0] \<and> w_pc s = Looping \<and> w_logs s = [] \<and> w_waiters s = [] \<and>
        w_notifies s = 0
    | Inl f \<Rightarrow> False)"
proof (intro conjI)
  show "w_phase s k = Asleep \<and> (\<forall>a \<in> set as. \<not> wakes_call k a) \<longrightarrow>
      (\<forall>s'. acts lib loggers as s = Inr s' \<longrightarrow> w_phase s' k = Asleep)"
    by (blast intro: acts_phase)
  show "case acts plain_log_fmt two_loggers
       ([Log 0 (log_line ERROR ''x''), Check 0, Append 0, Flush 0, Enter 0, Work, Work, Leave 0 None, Test 0,
         Block 0] @ replicate 8 Work) worker_start of
      Inr s \<Rightarrow> w_phase s 0 = Asleep \<and> w_flushed s = [0] \<and> w_pc s = Looping \<and> w_logs s = [] \<and> w_waiters s = [] \<and>
        w_notifies s = 0
    | Inl f \<Rightarrow> False"
    by code_simp
qed (rule worker_wakes_no_call)

theorem worker_never_wakes_flush_witness:
  "\<exists>s s'. w_phase s 0 = Asleep \<and> acts plain_log_fmt two_loggers (replicate 5 Work) s = Inr s' \<and>
    w_pc s' = Sleeping \<and> w_phase s' 0 = Asleep"
proof -
  let ?s = "worker_start\<lparr>w_phase := (\<lambda>_. Asleep)\<rparr>"
  have "case acts plain_log_fmt two_loggers (replicate 5 Work) ?s of Inr s \<Rightarrow> w_pc s = Sleeping | Inl f \<Rightarrow> False"
    by code_simp
  then obtain s' where s': "acts plain_log_fmt two_loggers (replicate 5 Work) ?s = Inr s'" "w_pc s' = Sleeping"
    by (auto split: sum.splits)
  have "w_phase s' 0 = Asleep"
    using worker_never_wakes_flush [of ?s 0 "replicate 5 Work" plain_log_fmt two_loggers 5] s'(1) by auto
  with s' show ?thesis by (intro exI [of _ ?s] exI [of _ s']) simp
qed

text \<open>
  \<open>flush\<close> may return before the worker is done with it. A call that tests its flag right after the
  worker has set it returns, and the worker then notifies a condition variable in a frame that is gone.
\<close>

theorem flush_returns_too_early:
  "case acts plain_log_fmt two_loggers
      [Log 0 (log_line ERROR ''x''), Check 0, Append 0, Flush 0, Enter 0, Leave 0 None, Work, Work, Work, Work,
       Work, Work, Work, Work, Test 0, Work] worker_start of
     Inl f \<Rightarrow> f = Dangling | Inr s \<Rightarrow> False"
  by code_simp

section \<open>The destructor of a logger\<close>

text \<open>Its destructor sleeps, nothing is left that counts for it, and nobody is about to notify it.\<close>

definition forgotten :: "nat \<Rightarrow> wstate \<Rightarrow> bool" where
  "forgotten l s \<longleftrightarrow> w_dtor s l = Asleep \<and> uses s l = 0 \<and> (\<forall>pc. w_pc s \<noteq> Releasing l pc)"

lemma work_forgotten:
  assumes "worker_step lib loggers s = Inr s'" "refs_exact s" "releasing_inv (w_pc s)" "forgotten l s"
  shows "w_dtor s' l = Asleep \<and> (\<forall>pc. w_pc s' \<noteq> Releasing l pc) \<and> w_refs s' l = w_refs s l"
proof (cases "w_pc s")
  case (Draining final ready ws bufs)
  show ?thesis
  proof (cases ready)
    case (Cons x ready')
    obtain m r where x: "x = (m, r)" by fastforce
    with assms(4) Draining Cons have "m \<noteq> l" by (auto simp: forgotten_def uses_def)
    moreover from assms(1) Draining Cons x obtain bufs1 s1 where
      d: "drain_record lib loggers m r bufs s = Inr (bufs1, s1)"
      and s': "s' = unreference m (Draining final ready' ws bufs1) s1"
      by (auto simp: worker_step_def)
    ultimately show ?thesis
      using drain_record_queues [OF d] assms(4) pc_unreference [of m "Draining final ready' ws bufs1" s1]
      by (auto simp: s' forgotten_def)
  qed (use assms Draining in \<open>auto simp: worker_step_def forgotten_def\<close>)
next
  case (Writing final ws bufs)
  show ?thesis
  proof (cases bufs)
    case (Cons x bufs')
    obtain m t where x: "x = (m, t)" by fastforce
    with assms(4) Writing Cons have "m \<noteq> l" by (auto simp: forgotten_def uses_def)
    with assms Writing Cons x show ?thesis
      using pc_unreference [of m "Writing final ws bufs'" "backend_write loggers m t s"]
      by (auto simp: worker_step_def forgotten_def backend_write_def split: if_splits)
  qed (use assms Writing in \<open>auto simp: worker_step_def forgotten_def\<close>)
next
  case (Releasing m pc)
  with assms show ?thesis
    by (auto simp: worker_step_def forgotten_def releasing_inv_def dtor_wake_def split: if_splits)
qed (use assms in \<open>auto simp: worker_step_def forgotten_def swap_queues_def split: if_splits list.splits\<close>)

lemma act_forgotten:
  assumes "reachable lib loggers s" "act lib loggers a s = Inr s'" "enabled a s" "forgotten l s" "a \<noteq> Spurious_dtor l"
  shows "forgotten l s'"
proof -
  have reach': "reachable lib loggers s'" by (rule step [OF assms(1,3,2)])
  note exact = refs_exact_reachable [OF assms(1)]
  have "w_dtor s' l = Asleep \<and> (\<forall>pc. w_pc s' \<noteq> Releasing l pc) \<and> w_refs s' l = w_refs s l"
  proof (cases a)
    case Work
    with assms have w: "worker_step lib loggers s = Inr s'" by simp
    show ?thesis by (rule work_forgotten [OF w exact releasing_inv_reachable [OF assms(1)] assms(4)])
  next
    case (Log m r)
    with assms show ?thesis
      by (cases "lr_level r < lg_level (loggers m)") (auto simp: logger_log_def ref_inc_def forgotten_def)
  qed (use assms in \<open>auto simp: app_steps forgotten_def notify_one_def dtor_wake_def Let_def may_wake_def
        split: if_splits option.splits sleeper.splits\<close>)
  with exact refs_exact_reachable [OF reach'] assms(4) show ?thesis
    by (simp add: forgotten_def refs_exact_def)
qed

lemma acts_forgotten:
  assumes "acts lib loggers as s = Inr s'" "reachable lib loggers s" "forgotten l s" "Spurious_dtor l \<notin> set as"
  shows "forgotten l s'"
  using assms
proof (induction as arbitrary: s)
  case (Cons a as)
  show ?case
  proof (cases "enabled a s")
    case True
    with Cons.prems obtain s1 where s1: "act lib loggers a s = Inr s1" "acts lib loggers as s1 = Inr s'" by auto
    have "reachable lib loggers s1" by (rule step [OF Cons.prems(2) True s1(1)])
    moreover have "forgotten l s1"
      by (rule act_forgotten [OF Cons.prems(2) s1(1) True Cons.prems(3)]) (use Cons.prems(4) in auto)
    ultimately show ?thesis using Cons.IH [OF s1(2)] Cons.prems(4) by simp
  qed (use Cons in auto)
qed auto

text \<open>
  C37. The destructor of a logger races with the worker's last notification. \<open>unreference_\<close> counts down and
  then notifies, both without the mutex. If that falls between the destructor's test and its sleep, the
  notification is lost: a destructor that sleeps when nothing counts for its logger, with nobody about to notify
  it, sleeps for ever, whatever the threads do, unless the system wakes it spuriously; and there is a
  run of one record that leads there. If the destructor ends between the two, the worker notifies a
  destroyed condition variable.
\<close>

theorem destructor_races:
  "(reachable lib loggers s \<and> w_dtor s l = Asleep \<and> w_refs s l = 0 \<and> (\<forall>pc. w_pc s \<noteq> Releasing l pc) \<and>
      Spurious_dtor l \<notin> set as \<longrightarrow>
      (\<forall>s'. acts lib loggers as s = Inr s' \<longrightarrow> w_dtor s' l = Asleep \<and> w_refs s' l = 0)) \<and>
   (case acts plain_log_fmt two_loggers
       ([Log 0 (log_line ERROR ''x''), Check 0, Append 0, Destroy 0, Test_dtor 0] @ replicate 6 Work @
        [Block_dtor 0] @ replicate 4 Work) worker_start of
      Inr s \<Rightarrow> w_dtor s 0 = Asleep \<and> w_refs s 0 = 0 \<and> w_pc s = Falling \<and> length (w_out s) = 1
    | Inl f \<Rightarrow> False) \<and>
   (case acts plain_log_fmt two_loggers
       ([Log 0 (log_line ERROR ''x''), Check 0, Append 0] @ replicate 5 Work @ [Destroy 0, Work]) worker_start of
      Inl f \<Rightarrow> f = Dangling | Inr s \<Rightarrow> False)"
proof (intro conjI)
  show "reachable lib loggers s \<and> w_dtor s l = Asleep \<and> w_refs s l = 0 \<and> (\<forall>pc. w_pc s \<noteq> Releasing l pc) \<and>
      Spurious_dtor l \<notin> set as \<longrightarrow>
      (\<forall>s'. acts lib loggers as s = Inr s' \<longrightarrow> w_dtor s' l = Asleep \<and> w_refs s' l = 0)"
  proof (intro impI allI, elim conjE)
    fix s' assume reach: "reachable lib loggers s" and s: "w_dtor s l = Asleep" "w_refs s l = 0"
      "\<forall>pc. w_pc s \<noteq> Releasing l pc" "Spurious_dtor l \<notin> set as" and run: "acts lib loggers as s = Inr s'"
    from refs_exact_reachable [OF reach] s have "forgotten l s" by (simp add: forgotten_def refs_exact_def)
    with acts_forgotten [OF run reach _ s(4)] have "forgotten l s'" by simp
    with refs_exact_reachable [OF acts_reachable [OF run reach]] show "w_dtor s' l = Asleep \<and> w_refs s' l = 0"
      by (simp add: forgotten_def refs_exact_def)
  qed
  show "case acts plain_log_fmt two_loggers
       ([Log 0 (log_line ERROR ''x''), Check 0, Append 0, Destroy 0, Test_dtor 0] @ replicate 6 Work @
        [Block_dtor 0] @ replicate 4 Work) worker_start of
      Inr s \<Rightarrow> w_dtor s 0 = Asleep \<and> w_refs s 0 = 0 \<and> w_pc s = Falling \<and> length (w_out s) = 1
    | Inl f \<Rightarrow> False"
    by code_simp
  show "case acts plain_log_fmt two_loggers
       ([Log 0 (log_line ERROR ''x''), Check 0, Append 0] @ replicate 5 Work @ [Destroy 0, Work]) worker_start of
      Inl f \<Rightarrow> f = Dangling | Inr s \<Rightarrow> False"
    by code_simp
qed

definition lost_destructor :: "action list" where
  "lost_destructor = [Log 0 (log_line ERROR ''x''), Check 0, Append 0, Destroy 0, Test_dtor 0] @ replicate 6 Work @
     [Block_dtor 0, Work, Work]"

theorem destructor_races_witness:
  "\<exists>s s'. reachable plain_log_fmt two_loggers s \<and> w_refs s 0 = 0 \<and> w_logs s = [] \<and>
    acts plain_log_fmt two_loggers [Work, Test_dtor 0, Work] s = Inr s' \<and> w_dtor s' 0 = Asleep"
proof -
  have "case acts plain_log_fmt two_loggers lost_destructor worker_start of
      Inr s \<Rightarrow> w_dtor s 0 = Asleep \<and> w_refs s 0 = 0 \<and> w_pc s = Looping \<and> w_logs s = [] \<and> w_stop s = False
    | Inl f \<Rightarrow> False"
    by code_simp
  then obtain s where s: "acts plain_log_fmt two_loggers lost_destructor worker_start = Inr s" "w_dtor s 0 = Asleep"
    "w_refs s 0 = 0" "w_pc s = Looping" "w_logs s = []" "w_stop s = False" by (rule case_returned) blast
  have reach: "reachable plain_log_fmt two_loggers s" by (rule acts_reachable [OF s(1) start])
  let ?as = "[Work, Test_dtor 0, Work]"
  obtain s' where s': "acts plain_log_fmt two_loggers ?as s = Inr s'"
    using s by (simp add: worker_step_def)
  have "\<forall>s'. acts plain_log_fmt two_loggers ?as s = Inr s' \<longrightarrow> w_dtor s' 0 = Asleep \<and> w_refs s' 0 = 0"
    by (rule destructor_races [THEN conjunct1, THEN mp]) (use reach s(2-4) in simp)
  with s' have "w_dtor s' 0 = Asleep" by blast
  with reach s s' show ?thesis by blast
qed

section \<open>The wait of the worker\<close>

text \<open>As long as nobody calls \<open>flush\<close>, a full queue does not meet a worker that sleeps without a notification on its way.\<close>

definition wakeful :: "wstate \<Rightarrow> bool" where
  "wakeful s \<longleftrightarrow> (\<forall>k. w_phase s k = Absent) \<and> w_sleepers s = [] \<and> (w_pc s = Falling \<longrightarrow> w_logs s = []) \<and>
     (w_pc s = Sleeping \<and> 20 < length (w_logs s) \<longrightarrow> 0 < w_notifies s)"

lemma work_wakeful:
  assumes "worker_step lib loggers s = Inr s'" "releasing_inv (w_pc s)" "wakeful s"
  shows "wakeful s'"
proof -
  have "(w_pc s' = Falling \<longrightarrow> w_logs s' = []) \<and>
      (w_pc s' = Sleeping \<longrightarrow> (w_pc s = Falling \<or> w_pc s = Sleeping) \<and> w_logs s' = w_logs s)"
  proof (cases "w_pc s")
    case (Draining final ready ws bufs)
    show ?thesis
    proof (cases ready)
      case (Cons x ready')
      obtain m r where x: "x = (m, r)" by fastforce
      with assms(1) Draining Cons obtain bufs1 s1 where "s' = unreference m (Draining final ready' ws bufs1) s1"
        by (auto simp: worker_step_def)
      with pc_unreference [of m "Draining final ready' ws bufs1" s1] show ?thesis by auto
    qed (use assms(1) Draining in \<open>auto simp: worker_step_def\<close>)
  next
    case (Writing final ws bufs)
    show ?thesis
    proof (cases bufs)
      case (Cons x bufs')
      obtain m t where x: "x = (m, t)" by fastforce
      with assms(1) Writing Cons pc_unreference [of m "Writing final ws bufs'" "backend_write loggers m t s"]
      show ?thesis by (auto simp: worker_step_def split: if_splits)
    qed (use assms(1) Writing in \<open>auto simp: worker_step_def\<close>)
  qed (use assms(1,2) in \<open>auto simp: worker_step_def swap_queues_def releasing_inv_def
        split: if_splits list.splits\<close>)
  with work_phase [OF assms(1)] assms(3) show ?thesis by (auto simp: wakeful_def)
qed

lemma acts_wakeful:
  assumes "acts lib loggers as s = Inr s'" "reachable lib loggers s" "wakeful s" "\<forall>k. Flush k \<notin> set as"
  shows "wakeful s'"
  using assms
proof (induction as arbitrary: s)
  case (Cons a as)
  show ?case
  proof (cases "enabled a s")
    case True
    with Cons.prems obtain s1 where s1: "act lib loggers a s = Inr s1" "acts lib loggers as s1 = Inr s'" by auto
    have reach: "reachable lib loggers s1" by (rule step [OF Cons.prems(2) True s1(1)])
    have "wakeful s1"
    proof (cases a)
      case Work
      with s1 work_wakeful [OF _ releasing_inv_reachable [OF Cons.prems(2)] Cons.prems(3)] show ?thesis by simp
    next
      case (Log l r)
      with s1 Cons.prems(3) show ?thesis
        by (cases "lr_level r < lg_level (loggers l)") (auto simp: logger_log_def ref_inc_def wakeful_def)
    qed (use s1 True Cons.prems in \<open>auto simp: app_steps wakeful_def notify_one_def dtor_wake_def Let_def may_wake_def
          split: if_splits option.splits sleeper.splits\<close>)
    with Cons.IH [OF s1(2) reach] Cons.prems(4) show ?thesis by simp
  qed (use Cons in auto)
qed auto

definition full_queue :: "action list" where
  "full_queue = concat (replicate 21 [Log 0 (log_line ERROR ''x''), Check 0, Append 0])"

text \<open>
  C38. What wakes the worker. As long as nobody has called \<open>flush\<close>, a worker that sleeps while more than
  twenty records are queued has a notification on its way, and that notification wakes it. A call of
  \<open>flush\<close> that sleeps on the same condition variable can take it: then the worker sleeps with a full
  queue and no notification under way, until its time is up. The notification of the destructor is sent
  without the mutex and is lost between the worker's test and its sleep: the worker sleeps though it
  is told to stop, and the destructor waits for it.
\<close>

theorem worker_wakeups:
  "(acts lib loggers as worker_start = Inr s \<and> (\<forall>k. Flush k \<notin> set as) \<and> w_pc s = Sleeping \<and>
      20 < length (w_logs s) \<longrightarrow>
      0 < w_notifies s \<and> (\<forall>c. may_wake c s \<longrightarrow> w_pc (notify_one c s) = Waiting)) \<and>
   (case acts plain_log_fmt two_loggers
       ([Flush 0, Enter 0, Leave 0 None, Test 0, Block 0, Work, Work, Work] @ full_queue @ [Notify (Some (Call 0))])
       worker_start of
      Inr s \<Rightarrow> w_pc s = Sleeping \<and> length (w_logs s) = 21 \<and> w_notifies s = 0
    | Inl f \<Rightarrow> False) \<and>
   (case acts plain_log_fmt two_loggers [Work, Work, Stop_worker, Notify None, Work] worker_start of
      Inr s \<Rightarrow> w_pc s = Sleeping \<and> w_stop s \<and> w_notifies s = 0
    | Inl f \<Rightarrow> False)"
proof (intro conjI)
  show "acts lib loggers as worker_start = Inr s \<and> (\<forall>k. Flush k \<notin> set as) \<and> w_pc s = Sleeping \<and>
      20 < length (w_logs s) \<longrightarrow>
      0 < w_notifies s \<and> (\<forall>c. may_wake c s \<longrightarrow> w_pc (notify_one c s) = Waiting)"
  proof (intro impI, elim conjE)
    assume run: "acts lib loggers as worker_start = Inr s" and no_flush: "\<forall>k. Flush k \<notin> set as"
      and s: "w_pc s = Sleeping" "20 < length (w_logs s)"
    have "wakeful worker_start" by (simp add: wakeful_def worker_start_def)
    with acts_wakeful [OF run start _ no_flush] have "wakeful s" by simp
    with s show "0 < w_notifies s \<and> (\<forall>c. may_wake c s \<longrightarrow> w_pc (notify_one c s) = Waiting)"
      by (auto simp: wakeful_def may_wake_def notify_one_def split: option.splits sleeper.splits)
  qed
  show "case acts plain_log_fmt two_loggers
       ([Flush 0, Enter 0, Leave 0 None, Test 0, Block 0, Work, Work, Work] @ full_queue @ [Notify (Some (Call 0))])
       worker_start of
      Inr s \<Rightarrow> w_pc s = Sleeping \<and> length (w_logs s) = 21 \<and> w_notifies s = 0
    | Inl f \<Rightarrow> False"
    by code_simp
  show "case acts plain_log_fmt two_loggers [Work, Work, Stop_worker, Notify None, Work] worker_start of
      Inr s \<Rightarrow> w_pc s = Sleeping \<and> w_stop s \<and> w_notifies s = 0
    | Inl f \<Rightarrow> False"
    by code_simp
qed

definition unflushed :: "action list" where
  "unflushed = [Work, Work, Work] @ full_queue"

theorem worker_wakeups_witness:
  "\<exists>s. acts plain_log_fmt two_loggers unflushed worker_start = Inr s \<and> w_pc s = Sleeping \<and> 0 < w_notifies s"
proof -
  have "case acts plain_log_fmt two_loggers unflushed worker_start of
      Inr s \<Rightarrow> w_pc s = Sleeping \<and> length (w_logs s) = 21 | Inl f \<Rightarrow> False"
    by code_simp
  then obtain s where s: "acts plain_log_fmt two_loggers unflushed worker_start = Inr s" "w_pc s = Sleeping"
    "length (w_logs s) = 21" by (rule case_returned) blast
  moreover have "\<forall>k. Flush k \<notin> set unflushed" by (simp add: unflushed_def full_queue_def)
  ultimately have "0 < w_notifies s"
    using worker_wakeups [of plain_log_fmt two_loggers unflushed s, THEN conjunct1] by simp
  with s show ?thesis by blast
qed

end
