(* ===== verification/BC_Socket.thy ===== *)
theory BC_Socket
  imports BC_Address BC_Handlers
begin

text \<open>
  Sockets: \<open>include/bc/network/socket.hpp\<close>. The class \<open>socket\<close> with its moves and its destructor, the
  awaiters for connecting, accepting, reading and writing, and the ownership of descriptors by the
  sockets of a program.
\<close>

section \<open>The network calls\<close>

text \<open>
  The system calls the sockets use: an \<open>errno\<close> or 0, or \<open>Inl errno\<close> where there is a result.
  \<open>net_res\<close> is an assignment to the result that an accepting awaiter holds (given by the handle of the
  coroutine that waits). Addresses are passed whole, with their length.
\<close>

datatype protocol = TCP | UDP

primrec protocol_value :: "protocol \<Rightarrow> int" where
  "protocol_value TCP = 1"
| "protocol_value UDP = 2"

datatype role = UNDETERMINED | SERVER | PEER

record sock =
  sk_fd :: int
  sk_domain :: ip_domain
  sk_role :: role

record 'w net =
  net_sys :: "'w sys"
  net_socket :: "nat \<Rightarrow> int \<Rightarrow> 'w \<Rightarrow> (int + int) \<times> 'w"
  net_reuse :: "int \<Rightarrow> 'w \<Rightarrow> int \<times> 'w"
  net_bind :: "int \<Rightarrow> address \<Rightarrow> nat \<Rightarrow> 'w \<Rightarrow> int \<times> 'w"
  net_listen :: "int \<Rightarrow> nat \<Rightarrow> 'w \<Rightarrow> int \<times> 'w"
  net_connect :: "int \<Rightarrow> address \<Rightarrow> nat \<Rightarrow> 'w \<Rightarrow> int \<times> 'w"
  net_accept :: "int \<Rightarrow> 'w \<Rightarrow> (int + int) \<times> 'w"
  net_read :: "int \<Rightarrow> nat \<Rightarrow> 'w \<Rightarrow> (int + string) \<times> 'w"
  net_write :: "int \<Rightarrow> string \<Rightarrow> 'w \<Rightarrow> (int + nat) \<times> 'w"
  net_res :: "nat \<Rightarrow> (sock, error_code) expected \<Rightarrow> 'w \<Rightarrow> 'w"

text \<open>\<open>EINTR\<close>, \<open>EAGAIN\<close> (the same number as \<open>EWOULDBLOCK\<close>) and \<open>EINPROGRESS\<close>; the flags of \<open>socket\<close>.\<close>

definition negligible :: "int \<Rightarrow> bool" where
  "negligible errno \<longleftrightarrow> errno = 11 \<or> errno = 4"

definition socket_flags :: int where
  "socket_flags = 0x80000 + 0x800"

section \<open>The class\<close>

text \<open>
  The member functions that may throw change the socket also when they do, so they return the
  fault, if any, with the new state.
\<close>

type_synonym 'w sock_step = "fault option \<times> sock \<times> 'w"

fun sock_then :: "'w sock_step \<Rightarrow> (sock \<times> 'w \<Rightarrow> 'w sock_step) \<Rightarrow> 'w sock_step" where
  "sock_then (None, st) k = k st"
| "sock_then (Some f, st) k = (Some f, st)"

text \<open>The default constructor leaves \<open>domain_\<close> uninitialised, with any value.\<close>

definition sock_default :: "ip_domain \<Rightarrow> sock" where
  "sock_default dm = \<lparr>sk_fd = 0, sk_domain = dm, sk_role = UNDETERMINED\<rparr>"

definition sock_wrap :: "int \<Rightarrow> ip_domain \<Rightarrow> role \<Rightarrow> sock" where
  "sock_wrap fd dm role = \<lparr>sk_fd = fd, sk_domain = dm, sk_role = role\<rparr>"

definition sock_clear :: "sock \<Rightarrow> sock" where
  "sock_clear sk = sk\<lparr>sk_fd := 0, sk_role := UNDETERMINED\<rparr>"

text \<open>Move construction and assignment: the new socket, and what is left of the other.\<close>

definition sock_move :: "sock \<Rightarrow> sock \<times> sock" where
  "sock_move other = (other, sock_clear other)"

definition sock_assign :: "sock \<Rightarrow> sock \<Rightarrow> (sock \<times> sock) result" where
  "sock_assign sk other =
     (if sk_fd sk \<noteq> 0 then Inl Assert_failed
      else if sk_role sk \<noteq> UNDETERMINED then Inl Assert_failed
      else Inr (sk\<lparr>sk_fd := sk_fd other, sk_domain := sk_domain other, sk_role := sk_role other\<rparr>, sock_clear other))"

text \<open>The destructor is \<open>noexcept\<close>; a failing \<open>close\<close> is only logged.\<close>

definition sock_dtor :: "'w net \<Rightarrow> sock \<Rightarrow> sched \<times> 'w \<Rightarrow> (sched \<times> 'w) result" where
  "sock_dtor net sk st =
     (if sk_fd sk = 0 then Inr st
      else res_bind (contain (sched_unsubscribe (net_sys net) (sk_fd sk) st)) (\<lambda>(s, w).
        Inr (s, snd (sys_close (net_sys net) (sk_fd sk) w))))"

definition use_domain :: "'w net \<Rightarrow> protocol \<Rightarrow> ip_domain \<Rightarrow> sock \<times> 'w \<Rightarrow> 'w sock_step" where
  "use_domain net proto dm = (\<lambda>(sk, w).
     if sk_fd sk \<noteq> 0 then (Some Assert_failed, sk, w)
     else case net_socket net (domain_value dm) (protocol_value proto + socket_flags) w of
       (Inl errno, w1) \<Rightarrow> (Some (Thrown (trans_error_code errno)), sk\<lparr>sk_fd := -1\<rparr>, w1)
     | (Inr fd, w1) \<Rightarrow> (None, sk\<lparr>sk_fd := fd, sk_domain := dm\<rparr>, w1))"

definition sock_bind :: "'w net \<Rightarrow> protocol \<Rightarrow> address \<Rightarrow> sock \<times> 'w \<Rightarrow> 'w sock_step" where
  "sock_bind net proto addr st =
     sock_then (use_domain net proto (address_domain addr) st) (\<lambda>(sk, w).
       case net_reuse net (sk_fd sk) w of (errno, w1) \<Rightarrow>
         if errno \<noteq> 0 then (Some (Thrown (trans_error_code errno)), sk, w1)
         else case net_bind net (sk_fd sk) addr (socklen addr) w1 of (errno, w2) \<Rightarrow>
           if errno \<noteq> 0 then (Some (Thrown (trans_error_code errno)), sk, w2) else (None, sk, w2))"

definition sock_listen :: "'w net \<Rightarrow> nat \<Rightarrow> sock \<times> 'w \<Rightarrow> 'w sock_step" where
  "sock_listen net backlog = (\<lambda>(sk, w).
     if sk_role sk \<noteq> UNDETERMINED then (Some Assert_failed, sk, w)
     else case net_listen net (sk_fd sk) backlog w of (errno, w1) \<Rightarrow>
       if errno \<noteq> 0 then (Some (Thrown (trans_error_code errno)), sk, w1)
       else (None, sk\<lparr>sk_role := SERVER\<rparr>, w1))"

definition sock_bind_listen :: "'w net \<Rightarrow> protocol \<Rightarrow> address \<Rightarrow> nat \<Rightarrow> sock \<times> 'w \<Rightarrow> 'w sock_step" where
  "sock_bind_listen net proto addr backlog st =
     sock_then (sock_bind net proto addr st) (sock_listen net backlog)"

text \<open>\<open>async_connect\<close>: what it does before the awaiter is returned.\<close>

definition sock_async_connect :: "'w net \<Rightarrow> protocol \<Rightarrow> address \<Rightarrow> sock \<times> 'w \<Rightarrow> 'w sock_step" where
  "sock_async_connect net proto addr st =
     sock_then
       (if sk_fd (fst st) = 0 then use_domain net proto (address_domain addr) st
        else if sk_domain (fst st) \<noteq> address_domain addr then (Some Assert_failed, st)
        else if sk_role (fst st) \<noteq> UNDETERMINED then (Some Assert_failed, st)
        else (None, st))
       (\<lambda>(sk, w). (None, sk\<lparr>sk_role := PEER\<rparr>, w))"

text \<open>\<open>read\<close> and \<open>write\<close>: the bytes read, or the number written; the negligible errors m as none.\<close>

definition sock_read :: "'w net \<Rightarrow> int \<Rightarrow> nat \<Rightarrow> 'w \<Rightarrow> (string, error_code) expected \<times> 'w" where
  "sock_read net fd len w =
     (case net_read net fd len w of
        (Inl errno, w1) \<Rightarrow> (if negligible errno then Value [] else Error (trans_error_code errno), w1)
      | (Inr bytes, w1) \<Rightarrow> (Value bytes, w1))"

definition sock_write :: "'w net \<Rightarrow> int \<Rightarrow> string \<Rightarrow> 'w \<Rightarrow> (nat, error_code) expected \<times> 'w" where
  "sock_write net fd data w =
     (case net_write net fd data w of
        (Inl errno, w1) \<Rightarrow> (if negligible errno then Value 0 else Error (trans_error_code errno), w1)
      | (Inr m, w1) \<Rightarrow> (Value m, w1))"

section \<open>The awaiters\<close>

text \<open>
  \<open>async_connect_awaiter::await_ready\<close>; the \<open>throw\<close> without an exception terminates. The loop repeats
  an interrupted call.
\<close>

fun connect_ready :: "nat \<Rightarrow> 'w net \<Rightarrow> int \<Rightarrow> address \<Rightarrow> 'w \<Rightarrow> (bool \<times> 'w) result" where
  "connect_ready 0 net fd addr w = Inl Out_of_fuel"
| "connect_ready (Suc n) net fd addr w =
     (case net_connect net fd addr (socklen addr) w of (errno, w1) \<Rightarrow>
        if errno = 0 then Inr (True, w1)
        else if errno = 4 then connect_ready n net fd addr w1
        else if errno = 115 then Inr (False, w1)
        else Inl Terminated)"

definition connect_suspend :: "int \<Rightarrow> nat \<Rightarrow> nat \<Rightarrow> 'w co" where
  "connect_suspend fd revent h =
     Post_descriptor fd (ev_WRITE OR ev_ERROR OR ev_HANGUP) revent (Handle h) (Stop True)"

definition connect_resume :: "'w net \<Rightarrow> int \<Rightarrow> address \<Rightarrow> event \<Rightarrow> 'w \<Rightarrow> bool \<times> 'w" where
  "connect_resume net fd addr revent w =
     (if revent AND ev_ERROR \<noteq> 0 then (False, w)
      else if revent AND (ev_HANGUP OR ev_RDHANGUP) \<noteq> 0 then (False, w)
      else case net_connect net fd addr (socklen addr) w of (errno, w1) \<Rightarrow> (errno = 0, w1))"

text \<open>The rest of a coroutine that is resumed inside a callable: the callable answers yes after it.\<close>

primrec co_then_yes :: "'w co \<Rightarrow> 'w co" where
  "co_then_yes (Stop b) = Stop True"
| "co_then_yes (Effect g k) = Effect g (\<lambda>w. co_then_yes (k w))"
| "co_then_yes (Post_timer tp h c) = Post_timer tp h (co_then_yes c)"
| "co_then_yes (Post_descriptor fd e re nx c) = Post_descriptor fd e re nx (co_then_yes c)"
| "co_then_yes (Unsubscribe fd c) = Unsubscribe fd (co_then_yes c)"
| "co_then_yes (Die d) = Die d"

text \<open>The lambda \<open>async_accept_awaiter\<close> posts, for the socket \<open>sk\<close> and the waiting coroutine \<open>h\<close>.\<close>

definition accept_proxy :: "'w net \<Rightarrow> sock \<Rightarrow> nat \<Rightarrow> 'w co" where
  "accept_proxy net sk h =
     Effect (\<lambda>w. snd (net_accept net (sk_fd sk) w)) (\<lambda>w.
       case fst (net_accept net (sk_fd sk) w) of
         Inl errno \<Rightarrow>
           if negligible errno then Stop False
           else Effect (net_res net h (Error (trans_error_code errno)))
                  (\<lambda>_. co_then_yes (sys_resume (net_sys net) h))
       | Inr fd \<Rightarrow>
           Effect (net_res net h (Value (sock_wrap fd (sk_domain sk) PEER)))
             (\<lambda>_. co_then_yes (sys_resume (net_sys net) h)))"

text \<open>\<open>async_accept_awaiter::await_resume\<close> moves the result out: a socket leaves a cleared one behind.\<close>

definition accept_resume :: "(sock, error_code) expected \<Rightarrow> (sock, error_code) expected \<times> (sock, error_code) expected" where
  "accept_resume res = expected_move sock_clear (\<lambda>ec. ec) res"

definition accept_suspend :: "sock \<Rightarrow> nat \<Rightarrow> nat \<Rightarrow> 'w co" where
  "accept_suspend sk revent p = Post_descriptor (sk_fd sk) ev_READ revent (Proxy p) (Stop True)"

definition read_suspend :: "sock \<Rightarrow> nat \<Rightarrow> nat \<Rightarrow> 'w co" where
  "read_suspend sk revent h =
     Post_descriptor (sk_fd sk) (ev_READ OR ev_ERROR OR ev_HANGUP OR ev_RDHANGUP) revent (Handle h) (Stop True)"

definition read_resume ::
    "'w net \<Rightarrow> sock \<Rightarrow> nat \<Rightarrow> event \<Rightarrow> 'w \<Rightarrow> ((string, error_code) expected \<times> 'w) result" where
  "read_resume net sk len revent w =
     (if revent = 0 then Inl Assert_failed
      else if revent AND ev_ERROR \<noteq> 0 then Inr (Error (trans_error_code (errc_value epoll_error)), w)
      else if revent AND (ev_HANGUP OR ev_RDHANGUP) \<noteq> 0 then
        Inr (Error (trans_error_code (errc_value closed_by_peer)), w)
      else case net_read net (sk_fd sk) len w of
        (Inl errno, w1) \<Rightarrow> Inr (if negligible errno then Value [] else Error (trans_error_code errno), w1)
      | (Inr bytes, w1) \<Rightarrow> Inr (Value bytes, w1))"

definition write_suspend :: "sock \<Rightarrow> nat \<Rightarrow> nat \<Rightarrow> 'w co" where
  "write_suspend sk revent h =
     Post_descriptor (sk_fd sk) (ev_WRITE OR ev_ERROR OR ev_HANGUP) revent (Handle h) (Stop True)"

definition write_resume ::
    "'w net \<Rightarrow> sock \<Rightarrow> string \<Rightarrow> event \<Rightarrow> 'w \<Rightarrow> (nat, error_code) expected \<times> 'w" where
  "write_resume net sk data revent w =
     (if revent AND ev_ERROR \<noteq> 0 then (Error (trans_error_code (errc_value epoll_error)), w)
      else if revent AND (ev_HANGUP OR ev_RDHANGUP) \<noteq> 0 then
        (Error (trans_error_code (errc_value closed_by_peer)), w)
      else case net_write net (sk_fd sk) data w of
        (Inl errno, w1) \<Rightarrow> (if negligible errno then Value 0 else Error (trans_error_code errno), w1)
      | (Inr m, w1) \<Rightarrow> (Value m, w1))"

section \<open>Programs with sockets\<close>

text \<open>
  What a program does with its socket objects, which are numbers: it makes, moves, uses and destroys
  them. An exception is caught and the object, in the state it was left, stays.
\<close>

datatype sock_op =
    New nat ip_domain
  | Bind_listen nat address nat
  | Connect nat address
  | Accepted nat nat
  | Move nat nat
  | Assign nat nat
  | Destroyed nat

type_synonym 'w program_state = "(nat \<Rightarrow> sock option) \<times> sched \<times> 'w"

text \<open>Using object \<open>i\<close>: only assertions and \<open>terminate\<close> stop the program.\<close>

definition use_sock ::
    "nat \<Rightarrow> (sock \<times> 'w \<Rightarrow> 'w sock_step) \<Rightarrow> 'w program_state \<Rightarrow> 'w program_state result" where
  "use_sock i f = (\<lambda>(socks, s, w).
     case socks i of
       None \<Rightarrow> Inr (socks, s, w)
     | Some sk \<Rightarrow>
         (case f (sk, w) of
            (None, sk1, w1) \<Rightarrow> Inr (socks(i \<mapsto> sk1), s, w1)
          | (Some (Thrown ec), sk1, w1) \<Rightarrow> Inr (socks(i \<mapsto> sk1), s, w1)
          | (Some fault, sk1, w1) \<Rightarrow> Inl fault))"

fun sock_op_step :: "'w net \<Rightarrow> protocol \<Rightarrow> sock_op \<Rightarrow> 'w program_state \<Rightarrow> 'w program_state result" where
  "sock_op_step net proto (New i dm) (socks, s, w) =
     Inr (if socks i = None then (socks(i \<mapsto> sock_default dm), s, w) else (socks, s, w))"
| "sock_op_step net proto (Bind_listen i addr backlog) st = use_sock i (sock_bind_listen net proto addr backlog) st"
| "sock_op_step net proto (Connect i addr) st = use_sock i (sock_async_connect net proto addr) st"
| "sock_op_step net proto (Accepted i j) (socks, s, w) =
     (case (socks i, socks j) of
        (Some sk, None) \<Rightarrow>
          (case net_accept net (sk_fd sk) w of
             (Inl errno, w1) \<Rightarrow> Inr (socks, s, w1)
           | (Inr fd, w1) \<Rightarrow> Inr (socks(j \<mapsto> sock_wrap fd (sk_domain sk) PEER), s, w1))
      | _ \<Rightarrow> Inr (socks, s, w))"
| "sock_op_step net proto (Move i j) (socks, s, w) =
     (case (socks i, socks j) of
        (Some other, None) \<Rightarrow> Inr (socks(j \<mapsto> fst (sock_move other), i \<mapsto> snd (sock_move other)), s, w)
      | _ \<Rightarrow> Inr (socks, s, w))"
| "sock_op_step net proto (Assign i j) (socks, s, w) =
     (case (socks i, socks j) of
        (Some other, Some sk) \<Rightarrow>
          if i = j then Inr (socks, s, w)
          else res_bind (sock_assign sk other) (\<lambda>(sk1, other1). Inr (socks(j \<mapsto> sk1, i \<mapsto> other1), s, w))
      | _ \<Rightarrow> Inr (socks, s, w))"
| "sock_op_step net proto (Destroyed i) (socks, s, w) =
     (case socks i of
        None \<Rightarrow> Inr (socks, s, w)
      | Some sk \<Rightarrow> res_bind (sock_dtor net sk (s, w)) (\<lambda>(s1, w1). Inr (socks(i := None), s1, w1)))"

fun sock_ops :: "'w net \<Rightarrow> protocol \<Rightarrow> sock_op list \<Rightarrow> 'w program_state \<Rightarrow> 'w program_state result" where
  "sock_ops net proto [] st = Inr st"
| "sock_ops net proto (p # ps) st = res_bind (sock_op_step net proto p st) (sock_ops net proto ps)"

section \<open>Ownership of descriptors\<close>

text \<open>
  The kernel's descriptors: \<open>socket\<close> and \<open>accept4\<close> return one that is not open (never 0, which is
  taken), \<open>close\<close> frees its own, also when it reports an error, and the other calls none.
\<close>

definition descriptor_contract :: "'w net \<Rightarrow> ('w \<Rightarrow> int set) \<Rightarrow> bool" where
  "descriptor_contract net opened \<longleftrightarrow>
     (\<forall>d p w fd w'. net_socket net d p w = (Inr fd, w') \<longrightarrow>
        0 < fd \<and> fd \<notin> opened w \<and> opened w' = insert fd (opened w)) \<and>
     (\<forall>d p w errno w'. net_socket net d p w = (Inl errno, w') \<longrightarrow> opened w' = opened w) \<and>
     (\<forall>l w fd w'. net_accept net l w = (Inr fd, w') \<longrightarrow>
        0 < fd \<and> fd \<notin> opened w \<and> opened w' = insert fd (opened w)) \<and>
     (\<forall>l w errno w'. net_accept net l w = (Inl errno, w') \<longrightarrow> opened w' = opened w) \<and>
     (\<forall>fd w r w'. sys_close (net_sys net) fd w = (r, w') \<longrightarrow> opened w' = opened w - {fd}) \<and>
     (\<forall>fd w r w'. net_reuse net fd w = (r, w') \<longrightarrow> opened w' = opened w) \<and>
     (\<forall>fd a n w r w'. net_bind net fd a n w = (r, w') \<longrightarrow> opened w' = opened w) \<and>
     (\<forall>fd n w r w'. net_listen net fd n w = (r, w') \<longrightarrow> opened w' = opened w) \<and>
     (\<forall>ep c fd e w r w'. sys_epoll_ctl (net_sys net) ep c fd e w = (r, w') \<longrightarrow> opened w' = opened w)"

lemma descriptor_contractD:
  assumes "descriptor_contract net opened"
  shows "net_socket net d p w = (Inr fd, w') \<Longrightarrow> 0 < fd \<and> fd \<notin> opened w \<and> opened w' = insert fd (opened w)"
    "net_socket net d p w = (Inl errno, w') \<Longrightarrow> opened w' = opened w"
    "net_accept net l w = (Inr fd, w') \<Longrightarrow> 0 < fd \<and> fd \<notin> opened w \<and> opened w' = insert fd (opened w)"
    "net_accept net l w = (Inl errno, w') \<Longrightarrow> opened w' = opened w"
    "sys_close (net_sys net) fd w = (r, w') \<Longrightarrow> opened w' = opened w - {fd}"
    "net_reuse net fd w = (r, w') \<Longrightarrow> opened w' = opened w"
    "net_bind net fd a n w = (r, w') \<Longrightarrow> opened w' = opened w"
    "net_listen net fd n w = (r, w') \<Longrightarrow> opened w' = opened w"
    "sys_epoll_ctl (net_sys net) ep c fd e w = (r, w') \<Longrightarrow> opened w' = opened w"
proof -
  note c = assms [unfolded descriptor_contract_def]
  show "net_socket net d p w = (Inr fd, w') \<Longrightarrow> 0 < fd \<and> fd \<notin> opened w \<and> opened w' = insert fd (opened w)"
    using c by simp
  show "net_socket net d p w = (Inl errno, w') \<Longrightarrow> opened w' = opened w" using c by simp
  show "net_accept net l w = (Inr fd, w') \<Longrightarrow> 0 < fd \<and> fd \<notin> opened w \<and> opened w' = insert fd (opened w)"
    using c by simp
  show "net_accept net l w = (Inl errno, w') \<Longrightarrow> opened w' = opened w" using c by simp
  show "sys_close (net_sys net) fd w = (r, w') \<Longrightarrow> opened w' = opened w - {fd}" using c by simp
  show "net_reuse net fd w = (r, w') \<Longrightarrow> opened w' = opened w" using c by simp
  show "net_bind net fd a n w = (r, w') \<Longrightarrow> opened w' = opened w" using c by simp
  show "net_listen net fd n w = (r, w') \<Longrightarrow> opened w' = opened w" using c by simp
  show "sys_epoll_ctl (net_sys net) ep c fd e w = (r, w') \<Longrightarrow> opened w' = opened w" using c by simp
qed

lemma descriptor_keeps:
  assumes "descriptor_contract net opened"
  shows "opened (snd (net_reuse net fd w)) = opened w" "opened (snd (net_bind net fd a n w)) = opened w"
    "opened (snd (net_listen net fd b w)) = opened w"
    "opened (snd (sys_epoll_ctl (net_sys net) ep c fd e w)) = opened w"
  by (rule descriptor_contractD(6) [OF assms] descriptor_contractD(7) [OF assms]
      descriptor_contractD(8) [OF assms] descriptor_contractD(9) [OF assms], rule surjective_pairing)+

text \<open>The descriptor of each object, and the ownership of the descriptors opened since \<open>old\<close>.\<close>

definition fd_of :: "(nat \<Rightarrow> sock option) \<Rightarrow> nat \<Rightarrow> int" where
  "fd_of socks i = (case socks i of None \<Rightarrow> 0 | Some sk \<Rightarrow> sk_fd sk)"

definition owning :: "int set \<Rightarrow> (nat \<Rightarrow> int) \<Rightarrow> int set \<Rightarrow> bool" where
  "owning old f new \<longleftrightarrow> new = old \<union> {fd. 0 < fd \<and> fd \<in> range f} \<and>
     (\<forall>i. 0 < f i \<longrightarrow> f i \<notin> old) \<and> (\<forall>i j. 0 < f i \<longrightarrow> f i = f j \<longrightarrow> i = j)"

lemma owning_D:
  assumes "owning old f new"
  shows "fd \<in> new \<longleftrightarrow> fd \<in> old \<or> 0 < fd \<and> (\<exists>i. f i = fd)" "0 < f i \<Longrightarrow> f i \<notin> old"
    "0 < f i \<Longrightarrow> f i = f j \<Longrightarrow> i = j"
  using assms unfolding owning_def by (blast, blast, blast)

lemma owning_I:
  assumes "\<And>fd. fd \<in> new \<longleftrightarrow> fd \<in> old \<or> 0 < fd \<and> (\<exists>i. f i = fd)" "\<And>i. 0 < f i \<Longrightarrow> f i \<notin> old"
    "\<And>i j. 0 < f i \<Longrightarrow> f i = f j \<Longrightarrow> i = j"
  shows "owning old f new"
  unfolding owning_def using assms by blast

lemma owning_none: "owning old f new \<Longrightarrow> f i \<le> 0 \<Longrightarrow> x \<le> 0 \<Longrightarrow> owning old (f(i := x)) new"
proof (rule owning_I)
  fix fd
  assume o: "owning old f new" and "f i \<le> 0" "x \<le> 0"
  then have "0 < fd \<and> (\<exists>j. (f(i := x)) j = fd) \<longleftrightarrow> 0 < fd \<and> (\<exists>j. f j = fd)"
    by (metis fun_upd_apply leD)
  with owning_D(1) [OF o] show "fd \<in> new \<longleftrightarrow> fd \<in> old \<or> 0 < fd \<and> (\<exists>j. (f(i := x)) j = fd)" by simp
qed (auto simp: owning_D(2,3) split: if_splits)

lemma owning_new:
  "owning old f new \<Longrightarrow> f i \<le> 0 \<Longrightarrow> 0 < x \<Longrightarrow> x \<notin> new \<Longrightarrow> owning old (f(i := x)) (insert x new)"
proof (rule owning_I)
  assume o: "owning old f new" and i: "f i \<le> 0" and x: "0 < x" "x \<notin> new"
  note d = owning_D [OF o]
  have no: "f j \<noteq> x" for j using d(1) x by blast
  show "fd \<in> insert x new \<longleftrightarrow> fd \<in> old \<or> 0 < fd \<and> (\<exists>j. (f(i := x)) j = fd)" for fd
    unfolding insert_iff d(1) using i x by (metis fun_upd_apply leD)
  show "0 < (f(i := x)) j \<Longrightarrow> (f(i := x)) j \<notin> old" for j using d(1,2) x by auto
  show "0 < (f(i := x)) j \<Longrightarrow> (f(i := x)) j = (f(i := x)) k \<Longrightarrow> j = k" for j k
    using d(3) no by (auto split: if_splits)
qed

lemma owning_move:
  "owning old f new \<Longrightarrow> f j \<le> 0 \<Longrightarrow> i \<noteq> j \<Longrightarrow> owning old (f(j := f i, i := 0)) new"
proof (rule owning_I)
  assume o: "owning old f new" and j: "f j \<le> 0" "i \<noteq> j"
  note d = owning_D [OF o]
  show "fd \<in> new \<longleftrightarrow> fd \<in> old \<or> 0 < fd \<and> (\<exists>k. (f(j := f i, i := 0)) k = fd)" for fd
    unfolding d(1) using j by (metis fun_upd_apply leD less_irrefl)
  show "0 < (f(j := f i, i := 0)) k \<Longrightarrow> (f(j := f i, i := 0)) k \<notin> old" for k using d(2) by (auto split: if_splits)
  show "0 < (f(j := f i, i := 0)) k \<Longrightarrow> (f(j := f i, i := 0)) k = (f(j := f i, i := 0)) l \<Longrightarrow> k = l" for k l
    using d(3) j by (auto split: if_splits)
qed

lemma owning_close: "owning old f new \<Longrightarrow> 0 < f i \<Longrightarrow> owning old (f(i := 0)) (new - {f i})"
proof (rule owning_I)
  assume o: "owning old f new" and i: "0 < f i"
  note d = owning_D [OF o]
  show "fd \<in> new - {f i} \<longleftrightarrow> fd \<in> old \<or> 0 < fd \<and> (\<exists>j. (f(i := 0)) j = fd)" for fd
    unfolding Diff_iff singleton_iff d(1) using d(2) [OF i] d(3) [OF i] by (metis fun_upd_apply less_irrefl)
  show "0 < (f(i := 0)) j \<Longrightarrow> (f(i := 0)) j \<notin> old" for j using d(2) by (auto split: if_splits)
  show "0 < (f(i := 0)) j \<Longrightarrow> (f(i := 0)) j = (f(i := 0)) k \<Longrightarrow> j = k" for j k
    using d(3) by (auto split: if_splits)
qed

lemma fd_of_upd [simp]:
  "fd_of (socks(i \<mapsto> sk)) = (fd_of socks)(i := sk_fd sk)" "fd_of (socks(i := None)) = (fd_of socks)(i := 0)"
  by (auto simp: fd_of_def)

lemma fd_of_Some: "socks i = Some sk \<Longrightarrow> fd_of socks i = sk_fd sk"
  and fd_of_None: "socks i = None \<Longrightarrow> fd_of socks i = 0"
  by (simp_all add: fd_of_def)

text \<open>A use of one object that keeps its descriptor, or opens one for an object without.\<close>

definition keeps_or_opens :: "('w \<Rightarrow> int set) \<Rightarrow> (sock \<times> 'w \<Rightarrow> 'w sock_step) \<Rightarrow> bool" where
  "keeps_or_opens opened f \<longleftrightarrow>
     (\<forall>sk w r sk' w'. f (sk, w) = (r, sk', w') \<longrightarrow>
        (sk_fd sk' = sk_fd sk \<and> opened w' = opened w) \<or>
        (sk_fd sk = 0 \<and> sk_fd sk' \<le> 0 \<and> opened w' = opened w) \<or>
        (sk_fd sk = 0 \<and> 0 < sk_fd sk' \<and> sk_fd sk' \<notin> opened w \<and> opened w' = insert (sk_fd sk') (opened w)))"

lemma keeps_or_opens_use_domain:
  "descriptor_contract net opened \<Longrightarrow> keeps_or_opens opened (use_domain net proto dm)"
  by (auto simp: keeps_or_opens_def use_domain_def descriptor_contractD split: prod.splits sum.splits if_splits)

lemma keeps_or_opens_then:
  assumes "keeps_or_opens opened f"
    and "\<And>sk w r sk' w'. k (sk, w) = (r, sk', w') \<Longrightarrow> sk_fd sk' = sk_fd sk \<and> opened w' = opened w"
  shows "keeps_or_opens opened (\<lambda>st. sock_then (f st) k)"
  unfolding keeps_or_opens_def
proof (intro allI impI)
  fix sk w r sk' w'
  assume run: "sock_then (f (sk, w)) k = (r, sk', w')"
  obtain r1 sk1 w1 where f: "f (sk, w) = (r1, sk1, w1)" by (cases "f (sk, w)")
  have "sk_fd sk' = sk_fd sk1 \<and> opened w' = opened w1"
  proof (cases r1)
    case None
    with run f have "k (sk1, w1) = (r, sk', w')" by simp
    then show ?thesis by (rule assms(2))
  next
    case (Some fault)
    with run f show ?thesis by simp
  qed
  with assms(1) [unfolded keeps_or_opens_def, rule_format, OF f]
  show "(sk_fd sk' = sk_fd sk \<and> opened w' = opened w) \<or>
        (sk_fd sk = 0 \<and> sk_fd sk' \<le> 0 \<and> opened w' = opened w) \<or>
        (sk_fd sk = 0 \<and> 0 < sk_fd sk' \<and> sk_fd sk' \<notin> opened w \<and> opened w' = insert (sk_fd sk') (opened w))"
    by simp
qed

lemma keeps_or_opens_bind:
  assumes "descriptor_contract net opened"
  shows "keeps_or_opens opened (sock_bind net proto addr)"
  unfolding sock_bind_def
  by (rule keeps_or_opens_then [OF keeps_or_opens_use_domain [OF assms]])
    (auto simp: split_beta descriptor_keeps [OF assms] split: if_splits)

lemma keeps_or_opens_bind_listen:
  assumes "descriptor_contract net opened"
  shows "keeps_or_opens opened (sock_bind_listen net proto addr backlog)"
  unfolding sock_bind_listen_def
  by (rule keeps_or_opens_then [OF keeps_or_opens_bind [OF assms]])
    (auto simp: sock_listen_def split_beta descriptor_keeps [OF assms] split: if_splits)

lemma keeps_or_opens_connect:
  assumes "descriptor_contract net opened"
  shows "keeps_or_opens opened (sock_async_connect net proto addr)"
  unfolding sock_async_connect_def
proof (rule keeps_or_opens_then)
  show "keeps_or_opens opened (\<lambda>st. if sk_fd (fst st) = 0 then use_domain net proto (address_domain addr) st
        else if sk_domain (fst st) \<noteq> address_domain addr then (Some Assert_failed, st)
        else if sk_role (fst st) \<noteq> UNDETERMINED then (Some Assert_failed, st)
        else (None, st))"
    unfolding keeps_or_opens_def fst_conv
  proof (intro allI impI, goal_cases)
    case (1 sk w r sk' w')
    show ?case
    proof (cases "sk_fd sk = 0")
      case True
      with 1 have "use_domain net proto (address_domain addr) (sk, w) = (r, sk', w')" by simp
      then show ?thesis by (rule keeps_or_opens_use_domain [OF assms, unfolded keeps_or_opens_def, rule_format])
    next
      case False
      with 1 show ?thesis by (auto split: if_splits)
    qed
  qed
qed auto

lemma use_sock_owning:
  assumes "keeps_or_opens opened f" "owning old (fd_of socks) (opened w)"
    and "use_sock i f (socks, s, w) = Inr (socks', s', w')"
  shows "owning old (fd_of socks') (opened w')"
proof (cases "socks i")
  case None
  with assms show ?thesis by (simp add: use_sock_def)
next
  case (Some sk)
  obtain r sk1 w1 where f: "f (sk, w) = (r, sk1, w1)" by (cases "f (sk, w)")
  with assms(3) Some have res: "socks' = socks(i \<mapsto> sk1)" "w' = w1"
    by (auto simp: use_sock_def split: option.splits fault.splits)
  consider "sk_fd sk1 = sk_fd sk" "opened w1 = opened w"
    | "sk_fd sk = 0" "sk_fd sk1 \<le> 0" "opened w1 = opened w"
    | "sk_fd sk = 0" "0 < sk_fd sk1" "sk_fd sk1 \<notin> opened w" "opened w1 = insert (sk_fd sk1) (opened w)"
    using assms(1) [unfolded keeps_or_opens_def, rule_format, OF f] by blast
  then show ?thesis
  proof cases
    case 1
    then have "fd_of socks' = fd_of socks" using res Some by (auto simp: fd_of_Some)
    with 1 res assms(2) show ?thesis by simp
  next
    case 2
    then show ?thesis using owning_none [OF assms(2), of i "sk_fd sk1"] res Some by (simp add: fd_of_Some)
  next
    case 3
    then show ?thesis using owning_new [OF assms(2), of i "sk_fd sk1"] res Some by (simp add: fd_of_Some)
  qed
qed

lemma unsubscribe_opened:
  assumes "descriptor_contract net opened" "sched_unsubscribe (net_sys net) fd (s, w) = Inr (s', w')"
  shows "0 < fd" "opened w' = opened w"
proof -
  note r = poller_subscribe_Inr [OF sched_unsubscribe_effect(1) [OF assms(2)]]
  show "0 < fd" by (rule r(1))
  show "opened w' = opened w"
    using r(4) descriptor_contractD(9) [OF assms(1)] by (auto split: option.splits)
qed

lemma sock_dtor_owning:
  assumes contract: "descriptor_contract net opened" and own: "owning old (fd_of socks) (opened w)"
    and "socks i = Some sk" "sock_dtor net sk (s, w) = Inr (s', w')"
  shows "owning old (fd_of (socks(i := None))) (opened w')"
proof (cases "sk_fd sk = 0")
  case True
  with assms have "fd_of (socks(i := None)) = fd_of socks" "w' = w"
    by (auto simp: sock_dtor_def fd_of_Some)
  with own show ?thesis by simp
next
  case False
  with assms(4) obtain s1 w1 where un: "sched_unsubscribe (net_sys net) (sk_fd sk) (s, w) = Inr (s1, w1)"
    and w': "w' = snd (sys_close (net_sys net) (sk_fd sk) w1)"
    by (auto simp: sock_dtor_def)
  obtain r where "sys_close (net_sys net) (sk_fd sk) w1 = (r, w')" using w' by (metis surjective_pairing)
  then have "opened w' = opened w - {sk_fd sk}"
    using descriptor_contractD(5) [OF contract] unsubscribe_opened(2) [OF contract un] by simp
  then show ?thesis
    using owning_close [OF own, of i] unsubscribe_opened(1) [OF contract un] assms(3) by (simp add: fd_of_Some)
qed

lemma sock_op_owning:
  assumes contract: "descriptor_contract net opened" and own: "owning old (fd_of socks) (opened w)"
    and step: "sock_op_step net proto p (socks, s, w) = Inr (socks', s', w')"
  shows "owning old (fd_of socks') (opened w')"
proof (cases p)
  case (New i dm)
  show ?thesis
  proof (cases "socks i")
    case None
    then have "(fd_of socks)(i := 0) = fd_of socks" by (auto simp: fd_of_None)
    with None New step own show ?thesis by (auto simp: sock_default_def)
  qed (use New step own in auto)
next
  case (Bind_listen i addr backlog)
  with step show ?thesis
    using use_sock_owning [OF keeps_or_opens_bind_listen [OF contract] own] by simp
next
  case (Connect i addr)
  with step show ?thesis
    using use_sock_owning [OF keeps_or_opens_connect [OF contract] own] by simp
next
  case (Accepted i j)
  show ?thesis
  proof (cases "\<exists>sk. socks i = Some sk \<and> socks j = None")
    case True
    then obtain sk where sk: "socks i = Some sk" "socks j = None" by blast
    obtain res w1 where acc: "net_accept net (sk_fd sk) w = (res, w1)" by fastforce
    show ?thesis
    proof (cases res)
      case (Inl errno)
      with acc sk Accepted step own show ?thesis
        using descriptor_contractD(4) [OF contract] by auto
    next
      case (Inr fd)
      from descriptor_contractD(3) [OF contract acc [unfolded Inr]] have "0 < fd" "fd \<notin> opened w"
        "opened w1 = insert fd (opened w)" by simp_all
      with Inr acc sk Accepted step owning_new [OF own, of j fd] show ?thesis
        by (auto simp: fd_of_None sock_wrap_def)
    qed
  next
    case False
    with Accepted step own show ?thesis by (auto split: option.splits)
  qed
next
  case (Move i j)
  show ?thesis
  proof (cases "\<exists>sk. socks i = Some sk \<and> socks j = None")
    case True
    then obtain sk where sk: "socks i = Some sk" "socks j = None" by blast
    then have "i \<noteq> j" by auto
    with sk Move step owning_move [OF own, of j i] show ?thesis
      by (auto simp: sock_move_def sock_clear_def fd_of_None fd_of_Some)
  next
    case False
    with Move step own show ?thesis by (auto split: option.splits)
  qed
next
  case (Assign i j)
  show ?thesis
  proof (cases "\<exists>other sk. socks i = Some other \<and> socks j = Some sk \<and> i \<noteq> j")
    case True
    then obtain other sk where sk: "socks i = Some other" "socks j = Some sk" "i \<noteq> j" by blast
    with Assign step owning_move [OF own, of j i] show ?thesis
      by (auto simp: sock_assign_def sock_clear_def fd_of_Some split: if_splits)
  next
    case False
    with Assign step own show ?thesis by (auto split: option.splits)
  qed
next
  case (Destroyed i)
  with step own sock_dtor_owning [OF contract own] show ?thesis by (auto split: option.splits)
qed

lemma sock_ops_owning:
  assumes "descriptor_contract net opened"
  shows "owning old (fd_of socks) (opened w) \<Longrightarrow> sock_ops net proto ps (socks, s, w) = Inr (socks', s', w') \<Longrightarrow>
    owning old (fd_of socks') (opened w')"
proof (induction ps arbitrary: socks s w)
  case (Cons p ps)
  from Cons.prems(2) obtain socks1 s1 w1 where "sock_op_step net proto p (socks, s, w) = Inr (socks1, s1, w1)"
    and rest: "sock_ops net proto ps (socks1, s1, w1) = Inr (socks', s', w')" by auto
  from sock_op_owning [OF assms Cons.prems(1) this(1)] rest show ?case by (rule Cons.IH)
qed simp

section \<open>A concrete network\<close>

text \<open>
  For closed examples: a kernel that hands out the next descriptor, has a script of the connections
  that arrive (\<open>False\<close>: the connection is gone when it is accepted) and of the data that is
  read, and keeps what is written and what awaiters were given.
\<close>

record net_world =
  nw_open :: "int list"
  nw_arriving :: "bool list"
  nw_input :: "(int + string) list"
  nw_sent :: "(int \<times> string) list"
  nw_results :: "(nat \<times> (sock, error_code) expected) list"
  nw_stored :: "(nat \<times> event) list"

definition net_start :: net_world where
  "net_start = \<lparr>nw_open = [3, 2, 1], nw_arriving = [], nw_input = [], nw_sent = [], nw_results = [], nw_stored = []\<rparr>"

definition nw_fresh :: "net_world \<Rightarrow> int" where
  "nw_fresh w = foldr max (nw_open w) 0 + 1"

definition nw_take :: "net_world \<Rightarrow> (int + int) \<times> net_world" where
  "nw_take w = (Inr (nw_fresh w), w\<lparr>nw_open := nw_fresh w # nw_open w\<rparr>)"

definition nw_accept :: "net_world \<Rightarrow> (int + int) \<times> net_world" where
  "nw_accept w =
     (case nw_arriving w of
        [] \<Rightarrow> (Inl 11, w)
      | a # rest \<Rightarrow>
          if a then nw_take (w\<lparr>nw_arriving := rest\<rparr>) else (Inl 11, w\<lparr>nw_arriving := rest\<rparr>))"

definition nw_read :: "nat \<Rightarrow> net_world \<Rightarrow> (int + string) \<times> net_world" where
  "nw_read len w =
     (case nw_input w of
        [] \<Rightarrow> (Inl 11, w)
      | Inl errno # rest \<Rightarrow> (Inl errno, w\<lparr>nw_input := rest\<rparr>)
      | Inr bytes # rest \<Rightarrow> (Inr (take len bytes), w\<lparr>nw_input := rest\<rparr>))"

definition net_sys_of :: "(nat \<Rightarrow> net_world co) \<Rightarrow> (nat \<Rightarrow> net_world co) \<Rightarrow> net_world sys" where
  "net_sys_of bodies calls =
     \<lparr>sys_epoll_create = (\<lambda>w. (Inr 3, w)),
      sys_close = (\<lambda>fd w. (0, w\<lparr>nw_open := filter (\<lambda>x. x \<noteq> fd) (nw_open w)\<rparr>)),
      sys_epoll_ctl = (\<lambda>ep op fd e w. (0, w)), sys_epoll_wait = (\<lambda>ep n t w. (Inr [], w)),
      sys_now = (\<lambda>w. (0, w)), sys_sleep = (\<lambda>ns w. w),
      sys_store = (\<lambda>r e w. w\<lparr>nw_stored := (r, e) # nw_stored w\<rparr>),
      sys_resume = bodies, sys_call = calls, sys_done = (\<lambda>h w. False)\<rparr>"

definition net_of :: "(nat \<Rightarrow> net_world co) \<Rightarrow> (nat \<Rightarrow> net_world co) \<Rightarrow> net_world net" where
  "net_of bodies calls =
     \<lparr>net_sys = net_sys_of bodies calls, net_socket = (\<lambda>d p. nw_take), net_reuse = (\<lambda>fd w. (0, w)),
      net_bind = (\<lambda>fd a n w. (0, w)), net_listen = (\<lambda>fd n w. (0, w)), net_connect = (\<lambda>fd a n w. (115, w)),
      net_accept = (\<lambda>fd. nw_accept), net_read = (\<lambda>fd. nw_read),
      net_write = (\<lambda>fd bytes w. (Inr (length bytes), w\<lparr>nw_sent := nw_sent w @ [(fd, bytes)]\<rparr>)),
      net_res = (\<lambda>h r w. w\<lparr>nw_results := (h, r) # nw_results w\<rparr>)\<rparr>"

lemma foldr_max_ge: "0 \<le> foldr max xs (0 :: int)" "x \<in> set xs \<Longrightarrow> x \<le> foldr max xs (0 :: int)"
  by (induction xs) (auto simp: le_max_iff_disj)

lemma nw_fresh_new: "nw_fresh w \<notin> set (nw_open w)" "0 < nw_fresh w"
  using foldr_max_ge(1) [of "nw_open w"] foldr_max_ge(2) [of "nw_fresh w" "nw_open w"]
  by (auto simp: nw_fresh_def)

lemma nw_fresh_frame [simp]: "nw_fresh (w\<lparr>nw_arriving := xs\<rparr>) = nw_fresh w"
  by (simp add: nw_fresh_def)

lemma nw_take_opens:
  "nw_take w = (Inr fd, w') \<Longrightarrow> 0 < fd \<and> fd \<notin> set (nw_open w) \<and> set (nw_open w') = insert fd (set (nw_open w))"
  "nw_take w \<noteq> (Inl errno, w')"
  using nw_fresh_new [of w] by (auto simp: nw_take_def)

lemma nw_accept_opens:
  "nw_accept w = (Inr fd, w') \<Longrightarrow> 0 < fd \<and> fd \<notin> set (nw_open w) \<and> set (nw_open w') = insert fd (set (nw_open w))"
  "nw_accept w = (Inl errno, w') \<Longrightarrow> nw_open w' = nw_open w"
proof -
  assume "nw_accept w = (Inr fd, w')"
  then obtain rest where "nw_take (w\<lparr>nw_arriving := rest\<rparr>) = (Inr fd, w')"
    unfolding nw_accept_def by (cases "nw_arriving w") (simp_all split: if_splits)
  from nw_take_opens(1) [OF this]
  show "0 < fd \<and> fd \<notin> set (nw_open w) \<and> set (nw_open w') = insert fd (set (nw_open w))" by simp
next
  assume "nw_accept w = (Inl errno, w')"
  then show "nw_open w' = nw_open w"
    by (cases "nw_arriving w") (auto simp: nw_accept_def nw_take_opens(2) split: if_splits)
qed

lemma net_of_contract: "descriptor_contract (net_of bodies calls) (set \<circ> nw_open)"
  unfolding descriptor_contract_def
proof (intro conjI allI impI)
  fix l w fd w'
  assume "net_accept (net_of bodies calls) l w = (Inr fd, w')"
  then have "nw_accept w = (Inr fd, w')" by (simp add: net_of_def)
  from nw_accept_opens(1) [OF this] show "0 < fd" "fd \<notin> (set \<circ> nw_open) w"
    "(set \<circ> nw_open) w' = insert fd ((set \<circ> nw_open) w)" by simp_all
next
  fix l w errno w'
  assume "net_accept (net_of bodies calls) l w = (Inl errno, w')"
  then show "(set \<circ> nw_open) w' = (set \<circ> nw_open) w"
    using nw_accept_opens(2) by (simp add: net_of_def)
next
  fix d p w fd w'
  assume "net_socket (net_of bodies calls) d p w = (Inr fd, w')"
  then have "nw_take w = (Inr fd, w')" by (simp add: net_of_def)
  from nw_take_opens(1) [OF this] show "0 < fd" "fd \<notin> (set \<circ> nw_open) w"
    "(set \<circ> nw_open) w' = insert fd ((set \<circ> nw_open) w)" by simp_all
qed (auto simp: net_of_def net_sys_of_def nw_take_opens(2))

section \<open>Properties\<close>

text \<open>
  C12. Sockets own their descriptors. In a program that makes, connects, binds, accepts, moves, assigns and
  destroys sockets in any order and catches what they throw, the descriptors open are those from
  before and those of the sockets, each of the latter belonging to exactly one socket. So none is
  closed twice or while another socket has it, and when the sockets are gone none has leaked.
\<close>

theorem sockets_own_descriptors:
  assumes "descriptor_contract net opened"
    and "sock_ops net proto ps ((\<lambda>_. None), s0, w0) = Inr (socks, s, w)"
  shows "opened w = opened w0 \<union> {fd. 0 < fd \<and> (\<exists>i sk. socks i = Some sk \<and> sk_fd sk = fd)} \<and>
    (socks i = Some sk \<and> 0 < sk_fd sk \<longrightarrow> sk_fd sk \<notin> opened w0 \<and>
      (\<forall>j sk'. socks j = Some sk' \<and> sk_fd sk' = sk_fd sk \<longrightarrow> j = i)) \<and>
    ((\<forall>i. socks i = None) \<longrightarrow> opened w = opened w0)"
proof -
  have "owning (opened w0) (fd_of (\<lambda>_. None)) (opened w0)" by (auto simp: owning_def fd_of_def)
  from sock_ops_owning [OF assms(1) this assms(2)] have own: "owning (opened w0) (fd_of socks) (opened w)" .
  have pos: "0 < fd \<and> (\<exists>i. fd_of socks i = fd) \<longleftrightarrow> 0 < fd \<and> (\<exists>i sk. socks i = Some sk \<and> sk_fd sk = fd)" for fd
    unfolding fd_of_def by (auto split: option.splits) (metis option.inject)
  have all: "opened w = opened w0 \<union> {fd. 0 < fd \<and> (\<exists>i sk. socks i = Some sk \<and> sk_fd sk = fd)}"
    using owning_D(1) [OF own] pos by blast
  have "sk_fd sk \<notin> opened w0 \<and> (\<forall>j sk'. socks j = Some sk' \<and> sk_fd sk' = sk_fd sk \<longrightarrow> j = i)"
    if "socks i = Some sk" "0 < sk_fd sk"
    using owning_D(2,3) [OF own, of i] that by (metis fd_of_Some)
  with all show ?thesis by auto
qed

text \<open>A program that accepts a connection, moves the socket, connects another and destroys them all.\<close>

definition sock_program :: "sock_op list" where
  "sock_program = [New 0 IPv4, Bind_listen 0 (V4 \<lparr>sin_family = 2, sin_port = 80, s_addr = 1\<rparr>) 100, Accepted 0 1,
     New 2 IPv6, Assign 1 2, Connect 1 (V4 \<lparr>sin_family = 2, sin_port = 80, s_addr = 1\<rparr>), Move 2 3]"

theorem sockets_own_descriptors_witness:
  "\<exists>socks s w. sock_ops (net_of (\<lambda>_. Stop True) (\<lambda>_. Stop True)) TCP sock_program
      ((\<lambda>_. None), new_sched \<lparr>epfd = 3, focus = [], evs = []\<rparr>, net_start\<lparr>nw_arriving := [True]\<rparr>) = Inr (socks, s, w) \<and>
    map_option sk_fd (socks 3) = Some 5 \<and> (\<forall>j sk'. socks j = Some sk' \<and> sk_fd sk' = 5 \<longrightarrow> j = 3)"
proof -
  let ?net = "net_of (\<lambda>_. Stop True) (\<lambda>_. Stop True)"
  let ?st = "((\<lambda>_. None), new_sched \<lparr>epfd = 3, focus = [], evs = []\<rparr>, net_start\<lparr>nw_arriving := [True]\<rparr>)"
  have "case sock_ops ?net TCP sock_program ?st of
      Inr (socks, s, w) \<Rightarrow> map_option sk_fd (socks 3) = Some 5 | Inl f \<Rightarrow> False"
    by code_simp
  then obtain socks s w where run: "sock_ops ?net TCP sock_program ?st = Inr (socks, s, w)"
    and three: "map_option sk_fd (socks 3) = Some 5"
    by (auto split: sum.splits)
  from three obtain sk where "socks 3 = Some sk" "sk_fd sk = 5" by auto
  with sockets_own_descriptors [OF net_of_contract run, of 3 sk] run three show ?thesis by auto
qed

text \<open>
  A socket that could not be made cannot be destroyed. When the kernel refuses a socket, \<open>use_domain_\<close>
  throws and leaves -1 as the descriptor; the destructor takes that for a descriptor and the
  assertion of \<open>poller::subscribe\<close> fails. So \<open>bind\<close> and \<open>async_connect\<close> report the error by an
  exception, and the process ends while it propagates.
\<close>

lemma failed_socket_breaks_destructor:
  assumes "sk_fd sk = 0"
    and "net_socket net (domain_value (address_domain addr)) (protocol_value proto + socket_flags) w = (Inl errno, w1)"
  shows "sock_bind net proto addr (sk, w) = (Some (Thrown (trans_error_code errno)), sk\<lparr>sk_fd := -1\<rparr>, w1) \<and>
    sock_async_connect net proto addr (sk, w) = (Some (Thrown (trans_error_code errno)), sk\<lparr>sk_fd := -1\<rparr>, w1) \<and>
    sock_dtor net (sk\<lparr>sk_fd := -1\<rparr>) (s, w1) = Inl Assert_failed"
  using assms
  by (simp add: sock_bind_def sock_async_connect_def use_domain_def sock_dtor_def sched_unsubscribe_def
      poller_unsubscribe_def poller_subscribe_def)

text \<open>A network without free descriptors: \<open>EMFILE\<close> is 24.\<close>

lemma failed_socket_breaks_destructor_witness:
  "sock_dtor ((net_of (\<lambda>_. Stop True) (\<lambda>_. Stop True))\<lparr>net_socket := (\<lambda>d p w. (Inl 24, w))\<rparr>)
     ((sock_default IPv4)\<lparr>sk_fd := -1\<rparr>) (new_sched \<lparr>epfd = 3, focus = [], evs = []\<rparr>, net_start) = Inl Assert_failed"
  using failed_socket_breaks_destructor [of "sock_default IPv4"
      "(net_of (\<lambda>_. Stop True) (\<lambda>_. Stop True))\<lparr>net_socket := (\<lambda>d p w. (Inl 24, w))\<rparr>"
      "V4 \<lparr>sin_family = 2, sin_port = 80, s_addr = 1\<rparr>" TCP net_start 24 net_start
      "new_sched \<lparr>epfd = 3, focus = [], evs = []\<rparr>"]
  by (simp add: sock_default_def)

text \<open>
  C25. Reading and writing through the awaiters. With an event that has neither the error nor a hang-up
  bit the awaiters do what \<open>socket::read\<close> and \<open>socket::write\<close> do. With a hang-up bit the reader
  gets the error \<open>closed by peer\<close> without reading: what the peer sent before it closed, which
  \<open>socket::read\<close> would have returned, is lost.
\<close>

theorem awaiters_agree_with_socket:
  assumes "revent \<noteq> 0" "revent AND ev_ERROR = 0"
  shows "(revent AND (ev_HANGUP OR ev_RDHANGUP) = 0 \<longrightarrow>
      read_resume net sk len revent w = Inr (sock_read net (sk_fd sk) len w) \<and>
      write_resume net sk bytes revent w = sock_write net (sk_fd sk) bytes w) \<and>
    (revent AND (ev_HANGUP OR ev_RDHANGUP) \<noteq> 0 \<longrightarrow>
      read_resume net sk len revent w = Inr (Error (trans_error_code 201), w) \<and>
      write_resume net sk bytes revent w = (Error (trans_error_code 201), w) \<and>
      error_code_message (trans_error_code 201) = Inr ''closed by peer'')"
proof -
  have "message 201 = Inr ''closed by peer''" by code_simp
  then show ?thesis
    using assms
    by (auto simp: read_resume_def write_resume_def sock_read_def sock_write_def error_code_message_def
        split: prod.split sum.split)
qed

theorem awaiters_agree_with_socket_witness:
  "read_resume (net_of (\<lambda>_. Stop True) (\<lambda>_. Stop True)) (sock_wrap 5 IPv4 PEER) 10 0x2001
      (net_start\<lparr>nw_input := [Inr ''bye'']\<rparr>) =
    Inr (Error (trans_error_code 201), net_start\<lparr>nw_input := [Inr ''bye'']\<rparr>) \<and>
   fst (sock_read (net_of (\<lambda>_. Stop True) (\<lambda>_. Stop True)) 5 10 (net_start\<lparr>nw_input := [Inr ''bye'']\<rparr>)) = Value ''bye''"
proof
  have "(0x2001 :: event) \<noteq> 0" "(0x2001 :: event) AND ev_ERROR = 0"
    "(0x2001 :: event) AND (ev_HANGUP OR ev_RDHANGUP) \<noteq> 0"
    by (simp_all add: event_defs)
  then show "read_resume (net_of (\<lambda>_. Stop True) (\<lambda>_. Stop True)) (sock_wrap 5 IPv4 PEER) 10 0x2001
      (net_start\<lparr>nw_input := [Inr ''bye'']\<rparr>) =
    Inr (Error (trans_error_code 201), net_start\<lparr>nw_input := [Inr ''bye'']\<rparr>)"
    using awaiters_agree_with_socket [of "0x2001" "net_of (\<lambda>_. Stop True) (\<lambda>_. Stop True)"
        "sock_wrap 5 IPv4 PEER" 10 "net_start\<lparr>nw_input := [Inr ''bye'']\<rparr>" "[]"] by blast
qed (simp add: sock_read_def net_of_def nw_read_def)

text \<open>The kernel interrupts \<open>connect\<close> a number of times.\<close>

fun interrupted :: "nat \<Rightarrow> 'w net \<Rightarrow> int \<Rightarrow> address \<Rightarrow> 'w \<Rightarrow> 'w \<Rightarrow> bool" where
  "interrupted 0 net fd addr w w' = (w' = w)"
| "interrupted (Suc k) net fd addr w w' =
     (fst (net_connect net fd addr (socklen addr) w) = 4 \<and>
      interrupted k net fd addr (snd (net_connect net fd addr (socklen addr) w)) w')"

lemma connect_ready_interrupted:
  assumes "interrupted k net fd addr w w1" "net_connect net fd addr (socklen addr) w1 = (errno, w2)"
    and "errno \<noteq> 4" "k < n"
  shows "connect_ready n net fd addr w =
    (if errno = 0 then Inr (True, w2) else if errno = 115 then Inr (False, w2) else Inl Terminated)"
  using assms
proof (induction k arbitrary: n w)
  case 0
  then show ?case by (cases n) auto
next
  case (Suc k)
  then obtain m where "n = Suc m" "k < m" by (cases n) auto
  with Suc show ?case by (cases "net_connect net fd addr (socklen addr) w") auto
qed

text \<open>
  C27. Connecting. However often \<open>connect\<close> is interrupted, \<open>await_ready\<close> repeats it until it is not, in
  one more step than that; it then knows that the connection is made, or that it is under way and
  the coroutine has to wait. Any other error, a refused connection for example, terminates the
  process, since the \<open>throw\<close> there has no exception to throw again. When the connection is made at
  once, \<open>await_resume\<close> calls \<open>connect\<close> again: the kernel answers \<open>EISCONN\<close>, and \<open>co_await\<close> reports
  the connection as failed.
\<close>

theorem connect_outcome:
  assumes "interrupted k net fd addr w w1" "net_connect net fd addr (socklen addr) w1 = (errno, w2)"
    and "errno \<noteq> 4" "k < n"
  shows "connect_ready n net fd addr w =
      (if errno = 0 then Inr (True, w2) else if errno = 115 then Inr (False, w2) else Inl Terminated) \<and>
    (net_connect net fd addr (socklen addr) w2 = (106, w3) \<longrightarrow> connect_resume net fd addr ev_NONE w2 = (False, w3))"
proof
  show "net_connect net fd addr (socklen addr) w2 = (106, w3) \<longrightarrow> connect_resume net fd addr ev_NONE w2 = (False, w3)"
    by (simp add: connect_resume_def ev_NONE_def)
  show "connect_ready n net fd addr w =
      (if errno = 0 then Inr (True, w2) else if errno = 115 then Inr (False, w2) else Inl Terminated)"
    using assms by (rule connect_ready_interrupted)
qed

theorem connect_outcome_witness:
  "connect_ready 3 ((net_of (\<lambda>_. Stop True) (\<lambda>_. Stop True))\<lparr>net_connect := (\<lambda>fd a n w.
      (if nw_open w = [3, 2, 1] then 4 else 111, w\<lparr>nw_open := [4]\<rparr>))\<rparr>) 5
     (V4 \<lparr>sin_family = 2, sin_port = 80, s_addr = 1\<rparr>) net_start = Inl Terminated"
  by (subst connect_outcome [where k = 1 and errno = 111 and ?w1.0 = "net_start\<lparr>nw_open := [4]\<rparr>"
      and ?w2.0 = "net_start\<lparr>nw_open := [4]\<rparr>"]) (simp_all add: net_start_def)

text \<open>A coroutine that waits to read from descriptor 5, and whose resumption fails.\<close>

definition stale_net :: "net_world net" where
  "stale_net = net_of (\<lambda>_. Post_descriptor 0 0 0 (Handle 0) (Stop True)) (\<lambda>_. Stop True)"

definition stale_sched :: sched where
  "stale_sched = \<lparr>coro_count = 1, time_nodes = [],
     descriptor_nodes = (replicate 8 [])[5 := [\<lparr>nd_ev = ev_READ, nd_revent = 0, nd_next = Handle 0\<rparr>]],
     the_poller = \<lparr>epfd = 3, focus = (replicate 8 0)[5 := ev_READ], evs = replicate 8 \<lparr>ee_events = 0, ee_fd = -1\<rparr>\<rparr>\<rparr>"

text \<open>
  C40. A destroyed socket leaves its waiters behind. The destructor removes the descriptor from the kernel's
  interest list, but the nodes of the coroutines that wait on it stay in the scheduler and are
  counted, so \<open>run\<close> does not return any more. When the kernel gives the number to a new socket and a
  coroutine waits on that, the first event for it resumes the coroutine that waited on the old
  one, destroyed or not.
\<close>

theorem destroyed_socket_leaves_waiters:
  assumes "sock_dtor net sk (s, w) = Inr (s1, w1)" "0 < sk_fd sk"
    and "nodes_of s (sk_fd sk) = \<lparr>nd_ev = e, nd_revent = r, nd_next = Handle h\<rparr> # rest"
    and "post_descriptor (net_sys net) (sk_fd sk) e2 r2 nx (s1, w2) = Inr (s3, w3)"
    and "e AND revent \<noteq> 0" "\<And>st. resume (net_sys net) h st = Inl fault"
  shows "nodes_of s1 = nodes_of s \<and> coro_count s1 = coro_count s \<and>
    nodes_of s3 (sk_fd sk) = nodes_of s (sk_fd sk) @ [\<lparr>nd_ev = e2, nd_revent = r2, nd_next = nx\<rparr>] \<and>
    handle_event (Suc n) (net_sys net) (sk_fd sk) revent (s3, w4) = Inl fault"
proof -
  from assms(1,2) obtain w' where un: "sched_unsubscribe (net_sys net) (sk_fd sk) (s, w) = Inr (s1, w')"
    by (auto simp: sock_dtor_def)
  note same = sched_unsubscribe_effect(2,4) [OF un]
  from post_descriptor_effect(1) [OF assms(4)] same
  have posted: "nodes_of s3 (sk_fd sk) = nodes_of s (sk_fd sk) @ [\<lparr>nd_ev = e2, nd_revent = r2, nd_next = nx\<rparr>]"
    by simp
  then have "nodes_of s3 (sk_fd sk) \<noteq> []" by simp
  then have "nat (sk_fd sk) < length (descriptor_nodes s3)"
    "descriptor_nodes s3 ! nat (sk_fd sk) = nodes_of s3 (sk_fd sk)"
    by (auto simp: nodes_of_def split: if_splits)
  with posted assms(2,3,5,6)
  have "handle_event (Suc n) (net_sys net) (sk_fd sk) revent (s3, w4) = Inl fault"
    by (simp add: handle_event_def Let_def vec_get_in_range run_next_def)
  with same posted show ?thesis by blast
qed

theorem destroyed_socket_leaves_waiters_witness:
  "\<exists>s1 w1 s3 w3. sock_dtor stale_net (sock_wrap 5 IPv4 PEER) (stale_sched, net_start) = Inr (s1, w1) \<and>
     post_descriptor (net_sys stale_net) 5 ev_READ 1 (Handle 1) (s1, w1) = Inr (s3, w3) \<and>
     coro_count s1 = 1 \<and> handle_event 7 (net_sys stale_net) 5 ev_READ (s3, w3) = Inl Assert_failed"
proof -
  have "case sock_dtor stale_net (sock_wrap 5 IPv4 PEER) (stale_sched, net_start) of
      Inl f \<Rightarrow> False
    | Inr st \<Rightarrow> case post_descriptor (net_sys stale_net) 5 ev_READ 1 (Handle 1) st of Inl f \<Rightarrow> False | Inr st3 \<Rightarrow> True"
    by code_simp
  then obtain s1 w1 s3 w3 where dtor: "sock_dtor stale_net (sock_wrap 5 IPv4 PEER) (stale_sched, net_start) = Inr (s1, w1)"
    and post: "post_descriptor (net_sys stale_net) (sk_fd (sock_wrap 5 IPv4 PEER)) ev_READ 1 (Handle 1) (s1, w1) = Inr (s3, w3)"
    by (auto simp: sock_wrap_def split: sum.splits)
  have node: "nodes_of stale_sched (sk_fd (sock_wrap 5 IPv4 PEER)) = \<lparr>nd_ev = ev_READ, nd_revent = 0, nd_next = Handle 0\<rparr> # []"
    and fd: "0 < sk_fd (sock_wrap 5 IPv4 PEER)" and ev: "ev_READ AND ev_READ \<noteq> 0"
    by (simp_all add: nodes_of_def stale_sched_def sock_wrap_def ev_READ_def)
  have fails: "resume (net_sys stale_net) 0 st = Inl Assert_failed" for st
    by (simp add: resume_def stale_net_def net_of_def net_sys_of_def post_descriptor_def)
  from destroyed_socket_leaves_waiters [OF dtor fd node post ev fails, of 6 w3]
  have "coro_count s1 = 1" "handle_event 7 (net_sys stale_net) 5 ev_READ (s3, w3) = Inl Assert_failed"
    by (simp_all add: stale_sched_def sock_wrap_def)
  with dtor post show ?thesis by (simp add: sock_wrap_def)
qed

lemma run_co_then_yes:
  "run_co sys (co_then_yes c) st = res_bind (run_co sys c st) (\<lambda>(b, st1). Inr (True, st1))"
proof (induction c arbitrary: st)
  case (Post_descriptor fd e re nx c)
  show ?case by (cases "contain (post_descriptor sys fd e re nx st)") (simp_all add: Post_descriptor)
next
  case (Unsubscribe fd c)
  show ?case by (cases "contain (sched_unsubscribe sys fd st)") (simp_all add: Unsubscribe)
qed simp_all

text \<open>
  C26. Accepting. The callable that waits for connections makes one attempt per call. A connection is
  wrapped in a socket of the listening one's domain, given to the waiting coroutine, and the coroutine
  is resumed before the callable answers yes; an error is given to it in the same way. When there is
  no connection any more the callable answers no and has given nothing to the coroutine; while
  the kernel has none the descriptor handler then calls it for ever.
\<close>

theorem accept_proxy_outcome:
  "run_co (net_sys net) (accept_proxy net sk h) (s, w) =
     (case net_accept net (sk_fd sk) w of
        (Inl errno, w1) \<Rightarrow>
          if negligible errno then Inr (False, s, w1)
          else res_bind (resume (net_sys net) h (s, net_res net h (Error (trans_error_code errno)) w1))
                 (\<lambda>st. Inr (True, st))
      | (Inr fd, w1) \<Rightarrow>
          res_bind (resume (net_sys net) h (s, net_res net h (Value (sock_wrap fd (sk_domain sk) PEER)) w1))
            (\<lambda>st. Inr (True, st))) \<and>
   ((\<forall>w. \<exists>errno w'. net_accept net (sk_fd sk) w = (Inl errno, w') \<and> negligible errno) \<and>
    sys_call (net_sys net) p = accept_proxy net sk h \<longrightarrow>
    handle_nodes n (net_sys net) ev_READ [] [\<lparr>nd_ev = ev_READ, nd_revent = r, nd_next = Proxy p\<rparr>] (s, w)
      = Inl Out_of_fuel)"
proof
  have yes: "res_bind (run_co sys c st) (\<lambda>(b, st1). Inr (True, st1)) =
      res_bind (res_bind (run_co sys c st) (\<lambda>(b, st1). Inr st1)) (\<lambda>st. Inr (True, st))" for sys :: "'a sys" and c st
    by (cases "run_co sys c st") auto
  show run: "run_co (net_sys net) (accept_proxy net sk h) (s, w) =
     (case net_accept net (sk_fd sk) w of
        (Inl errno, w1) \<Rightarrow>
          if negligible errno then Inr (False, s, w1)
          else res_bind (resume (net_sys net) h (s, net_res net h (Error (trans_error_code errno)) w1))
                 (\<lambda>st. Inr (True, st))
      | (Inr fd, w1) \<Rightarrow>
          res_bind (resume (net_sys net) h (s, net_res net h (Value (sock_wrap fd (sk_domain sk) PEER)) w1))
            (\<lambda>st. Inr (True, st)))" for s w
    by (cases "net_accept net (sk_fd sk) w"; cases "fst (net_accept net (sk_fd sk) w)")
      (auto simp: accept_proxy_def run_co_then_yes resume_def yes)
  show "(\<forall>w. \<exists>errno w'. net_accept net (sk_fd sk) w = (Inl errno, w') \<and> negligible errno) \<and>
    sys_call (net_sys net) p = accept_proxy net sk h \<longrightarrow>
    handle_nodes n (net_sys net) ev_READ [] [\<lparr>nd_ev = ev_READ, nd_revent = r, nd_next = Proxy p\<rparr>] (s, w)
      = Inl Out_of_fuel"
  proof
    assume none: "(\<forall>w. \<exists>errno w'. net_accept net (sk_fd sk) w = (Inl errno, w') \<and> negligible errno) \<and>
      sys_call (net_sys net) p = accept_proxy net sk h"
    have no: "\<exists>w'. run_co (net_sys net) (sys_call (net_sys net) p) (s, w) = Inr (False, s, w')" for s w
    proof -
      from none obtain errno w' where "net_accept net (sk_fd sk) w = (Inl errno, w')" "negligible errno" by blast
      with run [of s w] none show ?thesis by simp
    qed
    have event: "ev_READ AND ev_READ \<noteq> 0" by (simp add: ev_READ_def)
    show "handle_nodes n (net_sys net) ev_READ [] [\<lparr>nd_ev = ev_READ, nd_revent = r, nd_next = Proxy p\<rparr>] (s, w)
        = Inl Out_of_fuel"
    proof (induction n arbitrary: s w)
      case (Suc n)
      obtain w' where "run_co (net_sys net) (sys_call (net_sys net) p) (s, sys_store (net_sys net) r ev_READ w)
          = Inr (False, s, w')" using no by blast
      with Suc event show ?case by (simp add: run_next_def)
    qed simp
  qed
qed

text \<open>A kernel on which every connection is gone when it is accepted.\<close>

definition gone_net :: "net_world net" where
  "gone_net = (net_of (\<lambda>_. Stop True) (\<lambda>_. Stop True))\<lparr>net_accept := (\<lambda>fd w. (Inl 11, w))\<rparr>"

definition gone_server :: "net_world net" where
  "gone_server = gone_net\<lparr>net_sys := net_sys_of (\<lambda>_. Stop True)
     (\<lambda>p. Effect (\<lambda>w. w) (\<lambda>w. Stop False))\<rparr>"

theorem accept_proxy_outcome_witness:
  "handle_nodes 1000 (net_sys gone_server) ev_READ [] [\<lparr>nd_ev = ev_READ, nd_revent = 0, nd_next = Proxy 0\<rparr>]
     (new_sched \<lparr>epfd = 3, focus = [], evs = []\<rparr>, net_start) = Inl Out_of_fuel"
proof -
  have "accept_proxy gone_server (sock_wrap 4 IPv4 SERVER) 0 = sys_call (net_sys gone_server) 0"
    by (simp add: accept_proxy_def gone_server_def gone_net_def net_sys_of_def negligible_def)
  moreover have "\<forall>w. \<exists>errno w'. net_accept gone_server 4 w = (Inl errno, w') \<and> negligible errno"
    by (simp add: gone_server_def gone_net_def negligible_def)
  ultimately show ?thesis
    using accept_proxy_outcome [of gone_server "sock_wrap 4 IPv4 SERVER" 0] by (simp add: sock_wrap_def)
qed

end
