(* ===== verification/BC_Task.thy ===== *)
theory BC_Task
  imports BC_Prelude
begin

text \<open>
  Coroutine tasks: \<open>include/bc/async/task.hpp\<close>. The promise with the handle of the coroutine that awaits it,
  the awaiters, the class \<open>task\<close>, and the transitions of a program of coroutines: which of them
  run, wait for the scheduler, or await another.

  Under a discipline (a task is awaited by one coroutine at a time and destroyed when it is done)
  every coroutine is in exactly one of these states and no handle is ever dangling; without it a
  coroutine can be lost.
\<close>

section \<open>Promises and tasks\<close>

text \<open>
  The frame of a coroutine: its promise (\<open>result\<close>, \<open>prev\<close>) and whether it is at its final
  suspension. Handles are numbers; a frame that was destroyed is gone from the store.
\<close>

record 'a frame =
  fr_result :: 'a
  fr_prev :: "nat option"
  fr_done :: bool

type_synonym 'a frames = "nat \<Rightarrow> 'a frame option"

definition promise_new :: "'a \<Rightarrow> 'a frame" where
  "promise_new dflt = \<lparr>fr_result = dflt, fr_prev = None, fr_done = False\<rparr>"

definition return_value :: "'a \<Rightarrow> 'a frame \<Rightarrow> 'a frame" where
  "return_value v fr = fr\<lparr>fr_result := v\<rparr>"

text \<open>\<open>final_awaiter::await_suspend\<close>: the handle to continue with, or none for the \<open>noop\<close> coroutine.\<close>

definition final_await_suspend :: "'a frame \<Rightarrow> nat option" where
  "final_await_suspend fr = (case fr_prev fr of Some h \<Rightarrow> Some h | None \<Rightarrow> None)"

text \<open>The frame behind a handle.\<close>

definition frame_at :: "'a frames \<Rightarrow> nat \<Rightarrow> 'a frame result" where
  "frame_at frames h = (case frames h of None \<Rightarrow> Inl Dangling | Some fr \<Rightarrow> Inr fr)"

text \<open>\<open>task_awaiter\<close>; \<open>await_ready\<close> is also \<open>task::done\<close>.\<close>

definition task_done :: "'a frames \<Rightarrow> nat \<Rightarrow> bool result" where
  "task_done frames k = res_bind (frame_at frames k) (\<lambda>fr. Inr (fr_done fr))"

definition task_await_suspend :: "nat \<Rightarrow> nat \<Rightarrow> 'a frames \<Rightarrow> 'a frames result" where
  "task_await_suspend k h frames =
     res_bind (frame_at frames k) (\<lambda>fr. Inr (frames(k \<mapsto> fr\<lparr>fr_prev := Some h\<rparr>)))"

text \<open>
  How \<open>operator()\<close> ends: the result is moved out of the promise, \<open>moved\<close> being what the move leaves
  there. \<open>await_resume\<close> returns nothing: the result of an awaited task is read by \<open>operator()\<close>.
\<close>

definition task_take_result :: "('a \<Rightarrow> 'a) \<Rightarrow> nat \<Rightarrow> 'a frames \<Rightarrow> ('a \<times> 'a frames) result" where
  "task_take_result moved k frames =
     res_bind (frame_at frames k) (\<lambda>fr.
       Inr (fr_result fr, frames(k \<mapsto> fr\<lparr>fr_result := moved (fr_result fr)\<rparr>)))"

text \<open>The class \<open>task\<close>: a handle or none. Moves return the new and the old object.\<close>

type_synonym task = "nat option"

definition task_of_handle :: "nat option \<Rightarrow> task result" where
  "task_of_handle h = (if h = None then Inl Assert_failed else Inr h)"

definition task_move :: "task \<Rightarrow> task \<times> task" where
  "task_move other = (other, None)"

definition task_assign :: "task \<Rightarrow> task \<Rightarrow> (task \<times> task) result" where
  "task_assign t other = (if t \<noteq> None then Inl Assert_failed else Inr (other, None))"

definition task_dtor :: "task \<Rightarrow> 'a frames \<Rightarrow> 'a frames result" where
  "task_dtor t frames =
     (case t of None \<Rightarrow> Inr frames
      | Some h \<Rightarrow> res_bind (frame_at frames h) (\<lambda>fr. Inr (frames(h := None))))"

text \<open>
  The default constructor, and \<open>task::done\<close>, which for a task without a coroutine asks a null handle.
\<close>

definition task_none :: task where
  "task_none = None"

definition task_finished :: "task \<Rightarrow> 'a frames \<Rightarrow> bool result" where
  "task_finished t frames = (case t of None \<Rightarrow> Inl Dangling | Some h \<Rightarrow> task_done frames h)"

text \<open>\<open>promise<void>\<close>: a frame without a result, in which returning stores nothing.\<close>

type_synonym void_frame = "unit frame"

definition void_promise_new :: void_frame where
  "void_promise_new = promise_new ()"

definition return_void :: "void_frame \<Rightarrow> void_frame" where
  "return_void fr = fr"

definition void_final_await_suspend :: "void_frame \<Rightarrow> nat option" where
  "void_final_await_suspend fr = (case fr_prev fr of Some h \<Rightarrow> Some h | None \<Rightarrow> None)"

lemma void_promise_is_promise:
  "return_void fr = return_value v fr" "void_final_await_suspend fr = final_await_suspend fr"
  by (simp_all add: return_void_def return_value_def void_final_await_suspend_def final_await_suspend_def)

section \<open>Programs of coroutines\<close>

text \<open>
  The coroutines that run, the innermost first: each is resumed or started by the one below it. And
  those that are suspended with their handle posted with the scheduler.
\<close>

record 'a tstate =
  ts_frames :: "'a frames"
  ts_running :: "nat list"
  ts_posted :: "nat \<Rightarrow> bool"

definition tasks_start :: "'a tstate" where
  "tasks_start = \<lparr>ts_frames = (\<lambda>_. None), ts_running = [], ts_posted = (\<lambda>_. False)\<rparr>"

datatype 'a taction =
    Start nat 'a          \<comment> \<open>call a coroutine function: \<open>initial_suspend\<close> never suspends\<close>
  | Post                  \<comment> \<open>the innermost coroutine posts itself and suspends\<close>
  | Resume nat            \<comment> \<open>the scheduler resumes a posted coroutine\<close>
  | Await nat             \<comment> \<open>the innermost coroutine awaits a task\<close>
  | Finish 'a             \<comment> \<open>the innermost coroutine returns\<close>
  | Call nat              \<comment> \<open>\<open>task::operator()\<close>\<close>
  | Drop nat              \<comment> \<open>the destructor of a task\<close>

fun task_step :: "'a taction \<Rightarrow> 'a tstate \<Rightarrow> 'a tstate result" where
  "task_step (Start h dflt) s =
     Inr (s\<lparr>ts_frames := (ts_frames s)(h \<mapsto> promise_new dflt), ts_running := h # ts_running s\<rparr>)"
| "task_step Post s =
     (case ts_running s of
        [] \<Rightarrow> Inr s
      | h # rest \<Rightarrow> Inr (s\<lparr>ts_running := rest, ts_posted := (ts_posted s)(h := True)\<rparr>))"
| "task_step (Resume h) s =
     res_bind (task_done (ts_frames s) h) (\<lambda>finished.
       if finished then Inl Dangling
       else Inr (s\<lparr>ts_running := h # ts_running s, ts_posted := (ts_posted s)(h := False)\<rparr>))"
| "task_step (Await k) s =
     (case ts_running s of
        [] \<Rightarrow> Inr s
      | h # rest \<Rightarrow>
          res_bind (task_done (ts_frames s) k) (\<lambda>finished.
            if finished then Inr s
            else res_bind (task_await_suspend k h (ts_frames s)) (\<lambda>frames.
              Inr (s\<lparr>ts_frames := frames, ts_running := rest\<rparr>))))"
| "task_step (Finish v) s =
     (case ts_running s of
        [] \<Rightarrow> Inr s
      | h # rest \<Rightarrow>
          res_bind (frame_at (ts_frames s) h) (\<lambda>fr.
            let frames = (ts_frames s)(h \<mapsto> (return_value v fr)\<lparr>fr_done := True\<rparr>) in
            case final_await_suspend fr of
              None \<Rightarrow> Inr (s\<lparr>ts_frames := frames, ts_running := rest\<rparr>)
            | Some p \<Rightarrow>
                res_bind (task_done frames p) (\<lambda>finished.
                  if finished then Inl Dangling
                  else Inr (s\<lparr>ts_frames := frames, ts_running := p # rest\<rparr>))))"
| "task_step (Call k) s =
     res_bind (task_done (ts_frames s) k) (\<lambda>finished.
       if finished then Inr s else Inr (s\<lparr>ts_running := k # ts_running s\<rparr>))"
| "task_step (Drop k) s =
     (if k \<in> set (ts_running s) then Inl Dangling
      else res_bind (task_dtor (Some k) (ts_frames s)) (\<lambda>frames. Inr (s\<lparr>ts_frames := frames\<rparr>)))"

text \<open>What the language allows: a handle of a new frame is new; the scheduler resumes what was posted.\<close>

fun possible :: "'a taction \<Rightarrow> 'a tstate \<Rightarrow> bool" where
  "possible (Start h dflt) s = (ts_frames s h = None)"
| "possible (Resume h) s = (ts_running s = [] \<and> ts_posted s h)"
| "possible a s = True"

text \<open>
  Orderly use: a coroutine awaits a task that exists, a task is dropped when it is done, and nobody
  calls \<open>operator()\<close>. The discipline asks, besides, that nobody else awaits the task.
\<close>

fun orderly :: "'a taction \<Rightarrow> 'a tstate \<Rightarrow> bool" where
  "orderly (Await k) s = (ts_frames s k \<noteq> None)"
| "orderly (Drop k) s = (case ts_frames s k of None \<Rightarrow> False | Some fr \<Rightarrow> fr_done fr)"
| "orderly (Call k) s = False"
| "orderly a s = True"

fun disciplined :: "'a taction \<Rightarrow> 'a tstate \<Rightarrow> bool" where
  "disciplined (Await k) s =
     (case ts_frames s k of
        None \<Rightarrow> False
      | Some fr \<Rightarrow> fr_done fr \<or> fr_prev fr = None)"
| "disciplined a s = orderly a s"

fun task_run :: "('a taction \<Rightarrow> 'a tstate \<Rightarrow> bool) \<Rightarrow> 'a taction list \<Rightarrow> 'a tstate \<Rightarrow> 'a tstate result" where
  "task_run ok [] s = Inr s"
| "task_run ok (a # as) s = (if ok a s then res_bind (task_step a s) (task_run ok as) else task_run ok as s)"

section \<open>Where a coroutine is\<close>

text \<open>A coroutine that has not finished, and one that is awaited by another.\<close>

definition live :: "'a frames \<Rightarrow> nat \<Rightarrow> bool" where
  "live frames h \<longleftrightarrow> (case frames h of None \<Rightarrow> False | Some fr \<Rightarrow> \<not> fr_done fr)"

definition awaits :: "'a frames \<Rightarrow> nat \<Rightarrow> nat \<Rightarrow> bool" where
  "awaits frames h k \<longleftrightarrow> (case frames k of None \<Rightarrow> False | Some fr \<Rightarrow> \<not> fr_done fr \<and> fr_prev fr = Some h)"

lemma task_done_Inr [simp]: "task_done frames k = Inr b \<longleftrightarrow> (\<exists>fr. frames k = Some fr \<and> b = fr_done fr)"
  by (auto simp: task_done_def frame_at_def split: option.splits)

text \<open>
  The live coroutines are divided into the lost ones \<open>X\<close>, those that run, those that are posted and
  those that await exactly one live coroutine, over sets and the relation of awaiting.
\<close>

definition apart ::
    "nat set \<Rightarrow> (nat \<Rightarrow> bool) \<Rightarrow> nat list \<Rightarrow> (nat \<Rightarrow> bool) \<Rightarrow> (nat \<Rightarrow> nat \<Rightarrow> bool) \<Rightarrow> bool" where
  "apart X L R P A \<longleftrightarrow> distinct R \<and> (\<forall>h. L h \<and> h \<notin> X \<longleftrightarrow> h \<in> set R \<or> P h \<or> (\<exists>k. A h k)) \<and>
     (\<forall>h \<in> X. L h) \<and> (\<forall>h \<in> set R. \<not> P h) \<and> (\<forall>h k. A h k \<longrightarrow> L k \<and> h \<notin> set R \<and> \<not> P h) \<and>
     (\<forall>h k j. A h k \<and> A h j \<longrightarrow> k = j) \<and> (\<forall>h i k. A h k \<and> A i k \<longrightarrow> h = i)"

lemmas apart_simps = apart_def list.set insert_iff empty_iff distinct.simps fun_upd_apply

lemma apart_start: "apart X L R P A \<Longrightarrow> \<not> L h \<Longrightarrow> apart X (L(h := True)) (h # R) P A"
  unfolding apart_simps by (elim conjE, intro conjI) (simp; metis | metis)+

lemma apart_post: "apart X L (h # R) P A \<Longrightarrow> apart X L R (P(h := True)) A"
  unfolding apart_simps by (elim conjE, intro conjI) (simp; metis | metis)+

lemma apart_resume: "apart X L [] P A \<Longrightarrow> P h \<Longrightarrow> apart X L [h] (P(h := False)) A"
  unfolding apart_simps by (elim conjE, intro conjI) (simp; metis | metis)+

lemma apart_await:
  "apart X L (h # R) P A \<Longrightarrow> L k \<Longrightarrow> \<forall>i. \<not> A i k \<Longrightarrow> apart X L R P (\<lambda>i j. if j = k then i = h else A i j)"
  unfolding apart_simps by (elim conjE, intro conjI) (simp; metis | metis)+

lemma apart_overwrite:
  "apart X L (h # R) P A \<Longrightarrow> A i k \<Longrightarrow>
   apart (insert i X) L R P (\<lambda>g j. if j = k then g = h else A g j)"
  unfolding apart_simps by (elim conjE, intro conjI) (simp; metis | metis)+

lemma apart_finish: "apart X L (h # R) P A \<Longrightarrow> \<forall>i. \<not> A i h \<Longrightarrow> apart X (L(h := False)) R P A"
  unfolding apart_simps by (elim conjE, intro conjI) (simp; metis | metis)+

lemma apart_transfer:
  "apart X L (h # R) P A \<Longrightarrow> A p h \<Longrightarrow> apart X (L(h := False)) (p # R) P (\<lambda>i j. j \<noteq> h \<and> A i j)"
  unfolding apart_simps by (elim conjE, intro conjI) (simp; metis | metis)+

definition settled :: "nat set \<Rightarrow> 'a tstate \<Rightarrow> bool" where
  "settled X s \<longleftrightarrow> apart X (live (ts_frames s)) (ts_running s) (ts_posted s) (awaits (ts_frames s))"

lemma settled_upd:
  "live (frames(k \<mapsto> fr)) = (live frames)(k := \<not> fr_done fr)"
  "live (frames(k := None)) = (live frames)(k := False)"
  "awaits (frames(k \<mapsto> fr)) = (\<lambda>h j. if j = k then \<not> fr_done fr \<and> fr_prev fr = Some h else awaits frames h j)"
  "awaits (frames(k := None)) = (\<lambda>h j. j \<noteq> k \<and> awaits frames h j)"
  by (auto simp: live_def awaits_def fun_eq_iff)

lemma frame_facts:
  "frames k = Some fr \<Longrightarrow> live frames k = (\<not> fr_done fr)"
  "frames k = Some fr \<Longrightarrow> awaits frames h k = (\<not> fr_done fr \<and> fr_prev fr = Some h)"
  "frames k = None \<Longrightarrow> \<not> live frames k" "frames k = None \<Longrightarrow> \<not> awaits frames h k"
  by (simp_all add: live_def awaits_def)

lemma live_frame: "live frames h \<Longrightarrow> \<exists>fr. frames h = Some fr \<and> \<not> fr_done fr"
  by (simp add: live_def split: option.splits)

lemma settled_start: "settled {} tasks_start"
  by (simp add: settled_def tasks_start_def apart_def live_def awaits_def)

lemma settled_running: "settled X s \<Longrightarrow> h \<in> set (ts_running s) \<Longrightarrow> live (ts_frames s) h"
  unfolding settled_def apart_def by metis

lemma settled_posted: "settled X s \<Longrightarrow> ts_posted s h \<Longrightarrow> live (ts_frames s) h"
  unfolding settled_def apart_def by metis

lemma settled_awaiting: "settled X s \<Longrightarrow> awaits (ts_frames s) p h \<Longrightarrow> live (ts_frames s) p \<and> p \<notin> set (ts_running s)"
  unfolding settled_def apart_def by metis

lemma settled_await:
  assumes "settled X s" "ts_running s = h # rest" "ts_frames s k = Some fr" "\<not> fr_done fr"
  shows "settled (case fr_prev fr of None \<Rightarrow> X | Some i \<Rightarrow> insert i X)
           (s\<lparr>ts_frames := (ts_frames s)(k \<mapsto> fr\<lparr>fr_prev := Some h\<rparr>), ts_running := rest\<rparr>)"
proof -
  let ?f = "ts_frames s" and ?X = "case fr_prev fr of None \<Rightarrow> X | Some i \<Rightarrow> insert i X"
  have "apart ?X (live ?f) rest (ts_posted s) (\<lambda>i j. if j = k then i = h else awaits ?f i j)"
  proof (cases "fr_prev fr")
    case None
    with assms apart_await [of X "live ?f" h rest "ts_posted s" "awaits ?f" k] show ?thesis
      by (simp add: settled_def frame_facts)
  next
    case (Some i)
    with assms apart_overwrite [of X "live ?f" h rest "ts_posted s" "awaits ?f" i k] show ?thesis
      by (simp add: settled_def frame_facts)
  qed
  moreover have "live (?f(k \<mapsto> fr\<lparr>fr_prev := Some h\<rparr>)) = live ?f"
    using assms by (auto simp: settled_upd frame_facts fun_eq_iff)
  moreover have "awaits (?f(k \<mapsto> fr\<lparr>fr_prev := Some h\<rparr>)) = (\<lambda>i j. if j = k then i = h else awaits ?f i j)"
    using assms by (auto simp: settled_upd frame_facts fun_eq_iff)
  ultimately show ?thesis by (simp add: settled_def)
qed

lemma settled_finish:
  assumes "settled X s" "ts_running s = h # rest" "ts_frames s h = Some fr" "fr_prev fr = None" "fr_done fr'"
  shows "settled X (s\<lparr>ts_frames := (ts_frames s)(h \<mapsto> fr'), ts_running := rest\<rparr>)"
proof -
  let ?f = "ts_frames s"
  have "apart X ((live ?f)(h := False)) rest (ts_posted s) (awaits ?f)"
    using assms apart_finish [of X "live ?f" h rest "ts_posted s" "awaits ?f"]
    by (simp add: settled_def frame_facts)
  moreover have "awaits (?f(h \<mapsto> fr')) = awaits ?f"
    using assms by (auto simp: settled_upd frame_facts fun_eq_iff)
  ultimately show ?thesis using assms(5) by (simp add: settled_def settled_upd(1))
qed

lemma settled_transfer:
  assumes "settled X s" "ts_running s = h # rest" "ts_frames s h = Some fr" "fr_prev fr = Some p" "fr_done fr'"
  shows "settled X (s\<lparr>ts_frames := (ts_frames s)(h \<mapsto> fr'), ts_running := p # rest\<rparr>)"
proof -
  let ?f = "ts_frames s"
  have "live ?f h" using settled_running [OF assms(1), of h] assms(2) by simp
  with assms(3,4) have "awaits ?f p h" by (simp add: frame_facts)
  then have "apart X ((live ?f)(h := False)) (p # rest) (ts_posted s) (\<lambda>i j. j \<noteq> h \<and> awaits ?f i j)"
    using assms(1,2) apart_transfer [of X "live ?f" h rest "ts_posted s" "awaits ?f" p]
    by (simp add: settled_def)
  moreover have "awaits (?f(h \<mapsto> fr')) = (\<lambda>i j. j \<noteq> h \<and> awaits ?f i j)"
    using assms(5) by (auto simp: settled_upd fun_eq_iff)
  ultimately show ?thesis using assms(5) by (simp add: settled_def settled_upd(1))
qed

lemma disciplined_orderly: "disciplined a s \<Longrightarrow> orderly a s"
  by (cases a) (auto split: option.splits)

text \<open>The coroutine that an action makes lost, if any.\<close>

fun loses :: "'a taction \<Rightarrow> 'a tstate \<Rightarrow> nat set" where
  "loses (Await k) s =
     (if ts_running s = [] then {} else {i. awaits (ts_frames s) i k})"
| "loses a s = {}"

lemma loses_disciplined: "disciplined a s \<Longrightarrow> loses a s = {}"
  by (cases a) (auto simp: awaits_def split: option.splits)

lemma settled_step:
  assumes "settled X s" "possible a s" "orderly a s"
  shows "\<exists>s'. task_step a s = Inr s' \<and> settled (loses a s \<union> X) s'"
proof (cases a)
  case (Start h dflt)
  with assms(2) have none: "ts_frames s h = None" by simp
  have "live ((ts_frames s)(h \<mapsto> promise_new dflt)) = (live (ts_frames s))(h := True)"
    "awaits ((ts_frames s)(h \<mapsto> promise_new dflt)) = awaits (ts_frames s)"
    using none by (auto simp: settled_upd frame_facts promise_new_def fun_eq_iff)
  with assms(1) apart_start [of X "live (ts_frames s)" _ _ _ h] frame_facts(3) [where frames = "ts_frames s" and k = h, OF none] Start show ?thesis
    by (simp add: settled_def)
next
  case Post
  with assms(1) show ?thesis
    by (cases "ts_running s") (auto simp: settled_def intro: apart_post)
next
  case (Resume h)
  with assms settled_posted obtain fr where "ts_frames s h = Some fr" "\<not> fr_done fr"
    using live_frame by fastforce
  with Resume assms show ?thesis by (simp add: task_done_def frame_at_def settled_def apart_resume)
next
  case (Await k)
  with assms(3) obtain fr where k: "ts_frames s k = Some fr" by auto
  show ?thesis
  proof (cases "ts_running s")
    case (Cons h rest)
    moreover have "loses a s \<union> X = (if fr_done fr then X else case fr_prev fr of None \<Rightarrow> X | Some i \<Rightarrow> insert i X)"
      using Await Cons k by (auto simp: frame_facts split: option.splits)
    ultimately show ?thesis
      using k Await assms(1) settled_await [OF assms(1) Cons k]
      by (cases "fr_done fr") (simp_all add: task_done_def frame_at_def task_await_suspend_def)
  qed (use Await assms(1) in simp)
next
  case (Finish v)
  show ?thesis
  proof (cases "ts_running s")
    case (Cons h rest)
    then obtain fr where h: "ts_frames s h = Some fr" "\<not> fr_done fr"
      using settled_running [OF assms(1), of h] live_frame by fastforce
    show ?thesis
    proof (cases "fr_prev fr")
      case None
      with Cons h Finish settled_finish [OF assms(1) Cons h(1)] show ?thesis
        by (simp add: frame_at_def final_await_suspend_def)
    next
      case (Some p)
      with h have "awaits (ts_frames s) p h" by (simp add: frame_facts)
      from settled_awaiting [OF assms(1) this] have "live (ts_frames s) p" "p \<noteq> h" using Cons by auto
      then obtain frp where p: "ts_frames s p = Some frp" "\<not> fr_done frp" "p \<noteq> h"
        using live_frame by blast
      with Some Cons h Finish settled_transfer [OF assms(1) Cons h(1) Some] show ?thesis
        by (simp add: frame_at_def final_await_suspend_def task_done_def)
    qed
  qed (use Finish assms(1) in simp)
next
  case (Call k)
  with assms(3) show ?thesis by simp
next
  case (Drop k)
  with assms(3) obtain fr where k: "ts_frames s k = Some fr" "fr_done fr" by (auto split: option.splits)
  then have "k \<notin> set (ts_running s)" using settled_running [OF assms(1), of k] by (auto simp: frame_facts)
  moreover have "live ((ts_frames s)(k := None)) = live (ts_frames s)"
    "awaits ((ts_frames s)(k := None)) = awaits (ts_frames s)"
    using k by (auto simp: settled_upd frame_facts fun_eq_iff)
  ultimately show ?thesis using Drop k assms(1) by (simp add: task_dtor_def frame_at_def settled_def)
qed

lemma settled_run:
  "settled X s \<Longrightarrow> \<exists>s'. task_run (\<lambda>a s. possible a s \<and> disciplined a s) as s = Inr s' \<and> settled X s'"
proof (induction as arbitrary: s)
  case (Cons a as)
  show ?case
  proof (cases "possible a s \<and> disciplined a s")
    case True
    then have "loses a s \<union> X = X" "orderly a s" by (simp_all add: loses_disciplined disciplined_orderly)
    with settled_step [OF Cons.prems, of a] True
    obtain s1 where s1: "task_step a s = Inr s1" "settled X s1" by metis
    from Cons.IH [OF s1(2)] True s1(1) show ?thesis by simp
  qed (use Cons in auto)
qed auto

lemma settled_orderly:
  "settled X s \<Longrightarrow> \<exists>s' X'. task_run (\<lambda>a s. possible a s \<and> orderly a s) as s = Inr s' \<and> X \<subseteq> X' \<and> settled X' s'"
proof (induction as arbitrary: s X)
  case (Cons a as)
  show ?case
  proof (cases "possible a s \<and> orderly a s")
    case True
    with settled_step [OF Cons.prems] obtain s1 where s1: "task_step a s = Inr s1" "settled (loses a s \<union> X) s1"
      by blast
    from Cons.IH [OF s1(2)] obtain s' X' where
      "task_run (\<lambda>a s. possible a s \<and> orderly a s) as s1 = Inr s'" "loses a s \<union> X \<subseteq> X'" "settled X' s'"
      by blast
    with True s1(1) show ?thesis by (intro exI [of _ s'] exI [of _ X']) simp
  qed (use Cons in auto)
qed auto

lemma task_run_append:
  "task_run ok (as @ bs) s = res_bind (task_run ok as s) (task_run ok bs)"
  by (induction as arbitrary: s) (simp_all add: res_bind_assoc cong: res_bind_cong)

text \<open>What \<open>settled\<close> says, spelled out over the frames.\<close>

lemma settled_facts:
  assumes "settled X s"
  shows "distinct (ts_running s)"
    and "(\<exists>fr. ts_frames s h = Some fr \<and> \<not> fr_done fr) \<and> h \<notin> X \<longleftrightarrow>
       h \<in> set (ts_running s) \<or> ts_posted s h \<or> (\<exists>k. awaits (ts_frames s) h k)"
    and "\<not> (h \<in> set (ts_running s) \<and> ts_posted s h)"
    and "\<not> (h \<in> set (ts_running s) \<and> awaits (ts_frames s) h k)"
    and "\<not> (ts_posted s h \<and> awaits (ts_frames s) h k)"
    and "awaits (ts_frames s) h k \<Longrightarrow> awaits (ts_frames s) i k \<Longrightarrow> h = i"
    and "awaits (ts_frames s) i h \<Longrightarrow> awaits (ts_frames s) i k \<Longrightarrow> h = k"
    and "h \<in> X \<Longrightarrow> \<exists>fr. ts_frames s h = Some fr \<and> \<not> fr_done fr"
proof -
  have live: "live (ts_frames s) h \<longleftrightarrow> (\<exists>fr. ts_frames s h = Some fr \<and> \<not> fr_done fr)" for h
    by (simp add: live_def split: option.splits)
  note apart = assms [unfolded settled_def apart_def live]
  show "distinct (ts_running s)" using apart by simp
  show "(\<exists>fr. ts_frames s h = Some fr \<and> \<not> fr_done fr) \<and> h \<notin> X \<longleftrightarrow>
       h \<in> set (ts_running s) \<or> ts_posted s h \<or> (\<exists>k. awaits (ts_frames s) h k)" using apart by simp
  show "\<not> (h \<in> set (ts_running s) \<and> ts_posted s h)" using apart by metis
  show "\<not> (h \<in> set (ts_running s) \<and> awaits (ts_frames s) h k)" using apart by metis
  show "\<not> (ts_posted s h \<and> awaits (ts_frames s) h k)" using apart by metis
  show "awaits (ts_frames s) h k \<Longrightarrow> awaits (ts_frames s) i k \<Longrightarrow> h = i" using apart by metis
  show "awaits (ts_frames s) i h \<Longrightarrow> awaits (ts_frames s) i k \<Longrightarrow> h = k" using apart by metis
  show "h \<in> X \<Longrightarrow> \<exists>fr. ts_frames s h = Some fr \<and> \<not> fr_done fr" using apart by metis
qed

definition two_awaiters :: "int taction list" where
  "two_awaiters = [Start 0 0, Post, Start 1 0, Await 0, Start 2 0]"

definition awaited_runs :: "int taction list" where
  "awaited_runs = [Start 0 0, Post, Start 1 0, Await 0, Resume 0]"

section \<open>Properties\<close>

text \<open>
  C5. No coroutine is lost or resumed twice. In every disciplined program, whatever its coroutines do, no
  handle that is used is dangling, and at every moment a coroutine has not finished exactly when it
  runs, is posted with the scheduler, or awaits another one that has not finished; it is only one of
  these, it awaits only one other, and is the only one that awaits it.
\<close>

theorem coroutines_accounted_for:
  "\<exists>s. task_run (\<lambda>a s. possible a s \<and> disciplined a s) as tasks_start = Inr s \<and>
     distinct (ts_running s) \<and>
     (\<forall>h. (\<exists>fr. ts_frames s h = Some fr \<and> \<not> fr_done fr) \<longleftrightarrow>
        h \<in> set (ts_running s) \<or> ts_posted s h \<or> (\<exists>k. awaits (ts_frames s) h k)) \<and>
     (\<forall>h. \<not> (h \<in> set (ts_running s) \<and> ts_posted s h) \<and>
        \<not> (h \<in> set (ts_running s) \<and> (\<exists>k. awaits (ts_frames s) h k)) \<and>
        \<not> (ts_posted s h \<and> (\<exists>k. awaits (ts_frames s) h k))) \<and>
     (\<forall>h i k. \<not> (awaits (ts_frames s) h k \<and> awaits (ts_frames s) i k \<and> h \<noteq> i) \<and>
        \<not> (awaits (ts_frames s) i h \<and> awaits (ts_frames s) i k \<and> h \<noteq> k))"
proof -
  obtain s where run: "task_run (\<lambda>a s. possible a s \<and> disciplined a s) as tasks_start = Inr s" and "settled {} s"
    using settled_run [OF settled_start] by blast
  note facts = settled_facts [OF this(2)]
  show ?thesis
    by (intro exI [of _ s] conjI allI) (use run facts in \<open>simp; fail | metis empty_iff\<close>)+
qed

text \<open>
  C29. \<open>task_awaiter::await_suspend\<close> overwrites \<open>prev\<close>. In every orderly program, when a coroutine \<open>h\<close> awaits a task that has not
  finished and a running coroutine awaits it too, \<open>h\<close> never continues, whatever happens next: it
  has not finished, does not run, is not posted with the scheduler and awaits nobody.
\<close>

theorem second_awaiter_loses_first:
  assumes "task_run (\<lambda>a s. possible a s \<and> orderly a s) as tasks_start = Inr s"
    and "awaits (ts_frames s) h k" "ts_running s = g # rest"
  shows "\<exists>s'. task_run (\<lambda>a s. possible a s \<and> orderly a s) (Await k # bs) s = Inr s' \<and>
     (\<exists>fr. ts_frames s' h = Some fr \<and> \<not> fr_done fr) \<and> h \<notin> set (ts_running s') \<and> \<not> ts_posted s' h \<and>
     (\<forall>j. \<not> awaits (ts_frames s') h j)"
proof -
  from settled_orderly [OF settled_start, of as] assms(1) obtain X where X: "settled X s" by auto
  have orderly: "orderly (Await k) s" using assms(2) by (auto simp: awaits_def split: option.splits)
  have possible: "possible (Await k) s" by simp
  from settled_step [OF X possible orderly] obtain s1 where
    s1: "task_step (Await k) s = Inr s1" "settled (loses (Await k) s \<union> X) s1" by blast
  from settled_orderly [OF s1(2), of bs] obtain s' X' where
    run: "task_run (\<lambda>a s. possible a s \<and> orderly a s) bs s1 = Inr s'" and "loses (Await k) s \<union> X \<subseteq> X'"
    and settled: "settled X' s'" by blast
  moreover have "h \<in> loses (Await k) s" using assms(2,3) by simp
  ultimately have "h \<in> X'" by blast
  with settled_facts(2,8) [OF settled, of h]
  have "(\<exists>fr. ts_frames s' h = Some fr \<and> \<not> fr_done fr) \<and> h \<notin> set (ts_running s') \<and> \<not> ts_posted s' h \<and>
     (\<forall>j. \<not> awaits (ts_frames s') h j)" by blast
  moreover have "task_run (\<lambda>a s. possible a s \<and> orderly a s) (Await k # bs) s = Inr s'"
    using s1(1) orderly run by (simp del: task_step.simps orderly.simps)
  ultimately show ?thesis by blast
qed

lemma second_awaiter_loses_first_witness:
  "\<exists>s s'. task_run (\<lambda>a s. possible a s \<and> orderly a s) two_awaiters tasks_start = Inr s \<and>
     task_run (\<lambda>a s. possible a s \<and> orderly a s) [Await 0, Resume 0, Finish 5] s = Inr s' \<and>
     (\<exists>fr. ts_frames s' 1 = Some fr \<and> \<not> fr_done fr) \<and> 1 \<notin> set (ts_running s') \<and> \<not> ts_posted s' 1 \<and>
     (\<forall>j. \<not> awaits (ts_frames s') 1 j)"
proof -
  obtain s where s: "task_run (\<lambda>a s. possible a s \<and> orderly a s) two_awaiters tasks_start = Inr s"
    "awaits (ts_frames s) 1 0" "ts_running s = 2 # []"
    by (simp add: two_awaiters_def tasks_start_def frame_at_def task_done_def task_await_suspend_def
        promise_new_def awaits_def)
  from second_awaiter_loses_first [OF s, of "[Resume 0, Finish 5]"] s(1) show ?thesis by blast
qed

text \<open>
  C28. The value of a task reaches the coroutine that awaits it. In every disciplined program, when the
  innermost coroutine returns \<open>v\<close> and \<open>h\<close> awaits it, \<open>h\<close> continues at once in its place, before the
  coroutines below it; \<open>operator()\<close> on the finished task then resumes nothing and returns \<open>v\<close>.
\<close>

theorem awaiter_continues_with_result:
  assumes "task_run (\<lambda>a s. possible a s \<and> disciplined a s) as tasks_start = Inr s"
    and "ts_running s = k # rest" "awaits (ts_frames s) h k"
  shows "\<exists>s'. task_step (Finish v) s = Inr s' \<and> ts_running s' = h # rest \<and>
     task_step (Call k) s' = Inr s' \<and> (\<exists>frames. task_take_result moved k (ts_frames s') = Inr (v, frames)) \<and>
     \<not> awaits (ts_frames s') h k"
proof -
  from settled_run [OF settled_start, of as] assms(1) have settled: "settled {} s" by auto
  from assms(3) obtain fr where k: "ts_frames s k = Some fr" "fr_prev fr = Some h"
    by (auto simp: awaits_def split: option.splits)
  from settled_step [OF settled, of "Finish v"] obtain s' where "task_step (Finish v) s = Inr s'" by auto
  moreover from this assms(2) k have "ts_frames s' k = Some (fr\<lparr>fr_result := v, fr_done := True\<rparr>)"
    "ts_running s' = h # rest"
    by (auto simp: frame_at_def final_await_suspend_def return_value_def Let_def split: if_splits)
  ultimately show ?thesis by (simp add: task_take_result_def frame_at_def awaits_def task_done_def ex_bool_eq)
qed

lemma awaiter_continues_with_result_witness:
  "\<exists>s s'. task_run (\<lambda>a s. possible a s \<and> disciplined a s) awaited_runs tasks_start = Inr s \<and>
     task_step (Finish 5) s = Inr s' \<and> ts_running s' = [1] \<and>
     (\<exists>frames. task_take_result id 0 (ts_frames s') = Inr (5, frames))"
proof -
  obtain s where s: "task_run (\<lambda>a s. possible a s \<and> disciplined a s) awaited_runs tasks_start = Inr s"
    "ts_running s = 0 # []" "awaits (ts_frames s) 1 0"
    by (simp add: awaited_runs_def tasks_start_def frame_at_def task_done_def task_await_suspend_def
        promise_new_def awaits_def)
  from awaiter_continues_with_result [OF s, of 5] s(1) show ?thesis by blast
qed

end
