(* ===== verification/BC_Server.thy ===== *)
theory BC_Server
  imports BC_Socket BC_Task
begin

text \<open>
  The server and the client: \<open>include/bc/network/server.hpp\<close>, \<open>client.hpp\<close>. The coroutine \<open>run_\<close>
  from one acceptance to the next, the list of clients and its sweep, and which descriptors the
  server holds.
\<close>

section \<open>The server\<close>

text \<open>
  What the application gives a server: the handler, as what it does with a client's socket until it
  suspends or ends; the handle of the task that \<open>async_session_\<close> makes for it; and the
  destruction of that task's frame with what its local variables own.
\<close>

record 'w app =
  app_handler :: "sock \<Rightarrow> 'w co"
  app_task :: "sock \<Rightarrow> 'w \<Rightarrow> nat"
  app_destroy :: "nat \<Rightarrow> 'w \<Rightarrow> 'w"

record client =
  cl_sock :: sock
  cl_task :: task

text \<open>A running server, suspended in \<open>co_await async_accept(sock)\<close>; \<open>None\<close> once it left its loop.\<close>

record server =
  srv_sock :: "sock option"
  srv_clients :: "client list"

definition s_backlog :: nat where
  "s_backlog = 100"

text \<open>
  The loop of \<open>async_session_\<close> from the test on, in the coroutine \<open>h\<close> with the handler's task \<open>k\<close>:
  whether it returned, or awaits the task.
\<close>

definition async_session_loop :: "nat \<Rightarrow> nat \<Rightarrow> 'a frames \<Rightarrow> (bool \<times> 'a frames) result" where
  "async_session_loop k h frames =
     res_bind (task_done frames k) (\<lambda>finished.
       if finished then Inr (True, frames)
       else res_bind (task_await_suspend k h frames) (\<lambda>frames1. Inr (False, frames1)))"

text \<open>
  Calling \<open>handler_\<close> on a socket; \<open>async_session_\<close> does so and then awaits the session, so it gives
  control back when the handler does.
\<close>

definition call_handler :: "'w net \<Rightarrow> 'w app \<Rightarrow> sock \<Rightarrow> sched \<times> 'w \<Rightarrow> (task \<times> sched \<times> 'w) result" where
  "call_handler net app sk st =
     res_bind (run_co (net_sys net) (app_handler app sk) st) (\<lambda>(_, st1).
       Inr (Some (app_task app sk (snd st)), st1))"

definition async_session :: "'w net \<Rightarrow> 'w app \<Rightarrow> sock \<Rightarrow> sched \<times> 'w \<Rightarrow> (task \<times> sched \<times> 'w) result" where
  "async_session net app client_sock st = call_handler net app client_sock st"

text \<open>\<open>add_client_\<close>; the moved-from socket is cleared and not used again.\<close>

definition add_client ::
    "'w net \<Rightarrow> 'w app \<Rightarrow> sock \<Rightarrow> client list \<Rightarrow> sched \<times> 'w \<Rightarrow> (client list \<times> sched \<times> 'w) result" where
  "add_client net app client_sock clients st =
     (let sk = fst (sock_move client_sock) in
      res_bind (async_session net app sk st) (\<lambda>(t, st1).
      res_bind (task_assign None t) (\<lambda>(t1, _).
        Inr (clients @ [\<lparr>cl_sock = sk, cl_task = t1\<rparr>], st1))))"

text \<open>The destructor of a client: its task, then its socket.\<close>

definition client_dtor :: "'w net \<Rightarrow> 'w app \<Rightarrow> client \<Rightarrow> sched \<times> 'w \<Rightarrow> (sched \<times> 'w) result" where
  "client_dtor net app c st =
     sock_dtor net (cl_sock c)
       (fst st, case cl_task c of None \<Rightarrow> snd st | Some h \<Rightarrow> app_destroy app h (snd st))"

text \<open>The sweep over the list of clients; a null handle has no \<open>done\<close>.\<close>

fun sweep :: "'w net \<Rightarrow> 'w app \<Rightarrow> client list \<Rightarrow> sched \<times> 'w \<Rightarrow> (client list \<times> sched \<times> 'w) result" where
  "sweep net app [] st = Inr ([], st)"
| "sweep net app (c # cs) st =
     (case cl_task c of
        None \<Rightarrow> Inl Dangling
      | Some h \<Rightarrow>
          if sys_done (net_sys net) h (snd st)
          then res_bind (client_dtor net app c st) (sweep net app cs)
          else res_bind (sweep net app cs st) (\<lambda>(cs1, st1). Inr (c # cs1, st1)))"

text \<open>\<open>co_await async_accept(sock)\<close>, with the places of the awaiter.\<close>

definition await_accept :: "'w net \<Rightarrow> nat \<Rightarrow> nat \<Rightarrow> sock \<Rightarrow> sched \<times> 'w \<Rightarrow> (sched \<times> 'w) result" where
  "await_accept net revent p sk st =
     res_bind (run_co (net_sys net) (accept_suspend sk revent p) st) (\<lambda>(_, st1). Inr st1)"

text \<open>
  A coroutine that makes a socket, listens with it and awaits a connection. An exception unwinds it,
  which destroys the socket, and then terminates.
\<close>

definition listen_and_accept ::
    "'w net \<Rightarrow> protocol \<Rightarrow> address \<Rightarrow> nat \<Rightarrow> ip_domain \<Rightarrow> nat \<Rightarrow> nat \<Rightarrow> sched \<times> 'w \<Rightarrow>
     (sock \<times> sched \<times> 'w) result" where
  "listen_and_accept net proto addr backlog dm revent p st =
     (case sock_bind_listen net proto addr backlog (sock_default dm, snd st) of
        (None, sk, w1) \<Rightarrow> res_bind (await_accept net revent p sk (fst st, w1)) (\<lambda>st1. Inr (sk, st1))
      | (Some (Thrown ec), sk, w1) \<Rightarrow> res_bind (sock_dtor net sk (fst st, w1)) (\<lambda>_. Inl Terminated)
      | (Some fault, sk, w1) \<Rightarrow> Inl fault)"

text \<open>\<open>start\<close>: \<open>run_\<close> up to its first suspension.\<close>

definition server_start ::
    "'w net \<Rightarrow> protocol \<Rightarrow> address \<Rightarrow> ip_domain \<Rightarrow> nat \<Rightarrow> nat \<Rightarrow> sched \<times> 'w \<Rightarrow> (server \<times> sched \<times> 'w) result" where
  "server_start net proto addr dm revent p st =
     res_bind (listen_and_accept net proto addr s_backlog dm revent p st) (\<lambda>(sk, st1).
       Inr (\<lparr>srv_sock = Some sk, srv_clients = []\<rparr>, st1))"

text \<open>
  \<open>run_\<close> from a resumption with the result of \<open>async_accept\<close> to the next one, or to its end; the
  message of an error is computed for the logger, whatever its level.
\<close>

definition server_resume ::
    "'w net \<Rightarrow> 'w app \<Rightarrow> nat \<Rightarrow> nat \<Rightarrow> (sock, error_code) expected \<Rightarrow> server \<times> sched \<times> 'w \<Rightarrow>
     (server \<times> sched \<times> 'w) result" where
  "server_resume net app revent p res = (\<lambda>(srv, st).
     case srv_sock srv of
       None \<Rightarrow> Inl Dangling
     | Some sk \<Rightarrow>
         (case res of
            Value client_sock \<Rightarrow>
              res_bind (add_client net app client_sock (srv_clients srv) st) (\<lambda>(clients1, st1).
              res_bind (sweep net app clients1 st1) (\<lambda>(clients2, st2).
              res_bind (await_accept net revent p sk st2) (\<lambda>st3.
                Inr (srv\<lparr>srv_clients := clients2\<rparr>, st3))))
          | Error ec \<Rightarrow>
              res_bind (error_code_message ec) (\<lambda>_.
              res_bind (sock_dtor net sk st) (\<lambda>st1. Inr (srv\<lparr>srv_sock := None\<rparr>, st1)))))"

text \<open>The callable of \<open>async_accept\<close>, with the server as the coroutine that it resumes.\<close>

definition server_accept ::
    "'w net \<Rightarrow> 'w app \<Rightarrow> nat \<Rightarrow> nat \<Rightarrow> server \<times> sched \<times> 'w \<Rightarrow> (server \<times> sched \<times> 'w) result" where
  "server_accept net app revent p = (\<lambda>(srv, s, w).
     case srv_sock srv of
       None \<Rightarrow> Inr (srv, s, w)
     | Some sk \<Rightarrow>
         (case net_accept net (sk_fd sk) w of
            (Inl errno, w1) \<Rightarrow>
              if negligible errno then Inr (srv, s, w1)
              else server_resume net app revent p (Error (trans_error_code errno)) (srv, s, w1)
          | (Inr fd, w1) \<Rightarrow>
              server_resume net app revent p (Value (sock_wrap fd (sk_domain sk) PEER)) (srv, s, w1)))"

text \<open>A server over time: its callable is called, or the rest of the program runs.\<close>

datatype 'w happening = Called | Elsewhere "sched \<times> 'w \<Rightarrow> sched \<times> 'w"

fun server_run ::
    "'w net \<Rightarrow> 'w app \<Rightarrow> nat \<Rightarrow> nat \<Rightarrow> 'w happening list \<Rightarrow> server \<times> sched \<times> 'w \<Rightarrow>
     (server \<times> sched \<times> 'w) result" where
  "server_run net app revent p [] x = Inr x"
| "server_run net app revent p (Called # hs) x =
     res_bind (server_accept net app revent p x) (server_run net app revent p hs)"
| "server_run net app revent p (Elsewhere g # hs) (srv, st) = server_run net app revent p hs (srv, g st)"

section \<open>The client\<close>

record net_client =
  cli_sock :: sock
  cli_task :: task

text \<open>The end of \<open>client::async_connect\<close>, after the \<open>co_await\<close>; assigning over a task fails.\<close>

definition client_handle ::
    "'w net \<Rightarrow> 'w app \<Rightarrow> net_client \<Rightarrow> sched \<times> 'w \<Rightarrow> (net_client \<times> sched \<times> 'w) result" where
  "client_handle net app c st =
     res_bind (call_handler net app (cli_sock c) st) (\<lambda>(t, st1).
     res_bind (task_assign (cli_task c) t) (\<lambda>(t1, _).
       Inr (c\<lparr>cli_task := t1\<rparr>, st1)))"

text \<open>
  \<open>client::async_connect\<close> up to its suspension, or to its end when the connection is made at once; an
  exception terminates. Then its resumption. What \<open>co_await\<close> returns is not used.
\<close>

definition client_connect ::
    "nat \<Rightarrow> 'w net \<Rightarrow> 'w app \<Rightarrow> protocol \<Rightarrow> address \<Rightarrow> nat \<Rightarrow> nat \<Rightarrow> net_client \<Rightarrow> sched \<times> 'w \<Rightarrow>
     (net_client \<times> sched \<times> 'w) result" where
  "client_connect n net app proto addr revent h c st =
     (case sock_async_connect net proto addr (cli_sock c, snd st) of
        (None, sk, w1) \<Rightarrow>
          res_bind (connect_ready n net (sk_fd sk) addr w1) (\<lambda>(ready, w2).
            if ready then client_handle net app (c\<lparr>cli_sock := sk\<rparr>) (fst st, snd (connect_resume net (sk_fd sk) addr 0 w2))
            else
              res_bind (run_co (net_sys net) (connect_suspend (sk_fd sk) revent h) (fst st, w2)) (\<lambda>(_, st3).
                Inr (c\<lparr>cli_sock := sk\<rparr>, st3)))
      | (Some (Thrown ec), sk, w1) \<Rightarrow> Inl Terminated
      | (Some fault, sk, w1) \<Rightarrow> Inl fault)"

definition client_resume ::
    "'w net \<Rightarrow> 'w app \<Rightarrow> address \<Rightarrow> event \<Rightarrow> net_client \<Rightarrow> sched \<times> 'w \<Rightarrow> (net_client \<times> sched \<times> 'w) result" where
  "client_resume net app addr revent c st =
     client_handle net app c (fst st, snd (connect_resume net (sk_fd (cli_sock c)) addr revent (snd st)))"

section \<open>Which descriptors the server holds\<close>

text \<open>\<open>fds\<close> are the descriptors opened since \<open>old\<close> was open, without repetition.\<close>

definition holds :: "int set \<Rightarrow> int list \<Rightarrow> int set \<Rightarrow> bool" where
  "holds old fds new \<longleftrightarrow>
     distinct fds \<and> (\<forall>fd \<in> set fds. 0 < fd \<and> fd \<notin> old) \<and> new = old \<union> set fds"

lemma holds_open: "holds old fds new \<Longrightarrow> 0 < fd \<Longrightarrow> fd \<notin> new \<Longrightarrow> holds old (fds @ [fd]) (insert fd new)"
  by (auto simp: holds_def)

lemma holds_close: "holds old (xs @ fd # ys) new \<Longrightarrow> holds old (xs @ ys) (new - {fd})"
  by (auto simp: holds_def)

text \<open>An application that leaves opening and closing descriptors to the sockets.\<close>

definition opens_nothing :: "('w \<Rightarrow> int set) \<Rightarrow> ('w \<Rightarrow> 'w) set" where
  "opens_nothing opened = {g. \<forall>w. opened (g w) = opened w}"

definition app_contract :: "'w app \<Rightarrow> ('w \<Rightarrow> int set) \<Rightarrow> bool" where
  "app_contract app opened \<longleftrightarrow>
     (\<forall>sk. co_within (opens_nothing opened) UNIV UNIV (app_handler app sk)) \<and>
     (\<forall>h w. opened (app_destroy app h w) = opened w)"

lemma subscribe_opened:
  assumes "descriptor_contract net opened" "poller_subscribe (net_sys net) fd e (q, w) = Inr (q', w')"
  shows "opened w' = opened w"
  using poller_subscribe_Inr(4) [OF assms(2)] descriptor_contractD(9) [OF assms(1)] by (auto split: option.splits)

lemma opened_api:
  assumes "descriptor_contract net opened"
  shows "api_invariant (net_sys net) (opens_nothing opened) UNIV UNIV (\<lambda>t d s w. opened w = X)"
proof (unfold_locales, goal_cases)
  case (3 fd t d s w e re nx s' w')
  with subscribe_opened [OF assms post_descriptor_effect(2)] show ?case by metis
next
  case (4 fd t d s w s' w')
  with unsubscribe_opened(2) [OF assms] show ?case by metis
qed (simp_all add: opens_nothing_def)

lemma run_co_opened:
  assumes "descriptor_contract net opened" "co_within (opens_nothing opened) UNIV UNIV c"
    and "run_co (net_sys net) c st = Inr (b, s', w')"
  shows "opened w' = opened (snd st)"
  using api_invariant.run_co_R [OF opened_api [OF assms(1)] assms(2) refl] assms(3) by (cases st) auto

lemma await_accept_opened:
  assumes "descriptor_contract net opened" "await_accept net revent p sk st = Inr (s', w')"
  shows "opened w' = opened (snd st)"
  using assms(2) run_co_opened [OF assms(1), of "accept_suspend sk revent p" st]
  by (auto simp: await_accept_def accept_suspend_def simp del: run_co.simps)

lemma sock_dtor_opened:
  assumes "descriptor_contract net opened" "sock_dtor net sk (s, w) = Inr (s', w')" "0 < sk_fd sk"
  shows "opened w' = opened w - {sk_fd sk}"
proof -
  from assms obtain s1 w1 where un: "sched_unsubscribe (net_sys net) (sk_fd sk) (s, w) = Inr (s1, w1)"
    and w': "w' = snd (sys_close (net_sys net) (sk_fd sk) w1)"
    by (auto simp: sock_dtor_def)
  then obtain r where "sys_close (net_sys net) (sk_fd sk) w1 = (r, w')" by (metis surjective_pairing)
  then show ?thesis
    using descriptor_contractD(5) [OF assms(1)] unsubscribe_opened(2) [OF assms(1) un] by simp
qed

abbreviation cl_fd :: "client \<Rightarrow> int" where
  "cl_fd c \<equiv> sk_fd (cl_sock c)"

lemma client_dtor_opened:
  assumes "descriptor_contract net opened" "app_contract app opened" "client_dtor net app c st = Inr (s', w')"
    and "0 < cl_fd c"
  shows "opened w' = opened (snd st) - {cl_fd c}"
  using sock_dtor_opened [OF assms(1) assms(3) [unfolded client_dtor_def] assms(4)] assms(2)
  by (simp add: app_contract_def split: option.splits)

lemma sweep_holds:
  assumes contract: "descriptor_contract net opened" "app_contract app opened"
  shows "holds old (pre @ map cl_fd cs) (opened (snd st)) \<Longrightarrow> sweep net app cs st = Inr (cs', s', w') \<Longrightarrow>
    holds old (pre @ map cl_fd cs') (opened w')"
proof (induction cs arbitrary: pre st cs')
  case (Cons c cs)
  from Cons.prems(2) obtain h where h: "cl_task c = Some h" by (auto split: option.splits)
  show ?case
  proof (cases "sys_done (net_sys net) h (snd st)")
    case True
    with Cons.prems(2) h obtain s1 w1 where dtor: "client_dtor net app c st = Inr (s1, w1)"
      and rest: "sweep net app cs (s1, w1) = Inr (cs', s', w')" by auto
    from Cons.prems(1) have "0 < cl_fd c" by (simp add: holds_def)
    with holds_close [of old pre "cl_fd c" "map cl_fd cs"] Cons.prems(1) client_dtor_opened [OF contract dtor]
    have "holds old (pre @ map cl_fd cs) (opened (snd (s1, w1)))" by simp
    from Cons.IH [OF this rest] show ?thesis .
  next
    case False
    with Cons.prems(2) h obtain cs1 where rest: "sweep net app cs st = Inr (cs1, s', w')" "cs' = c # cs1" by auto
    with Cons.IH [of "pre @ [cl_fd c]" st cs1] Cons.prems(1) show ?thesis by simp
  qed
qed simp

definition server_holds :: "('w \<Rightarrow> int set) \<Rightarrow> int set \<Rightarrow> server \<Rightarrow> 'w \<Rightarrow> bool" where
  "server_holds opened old srv w \<longleftrightarrow>
     holds old ((case srv_sock srv of None \<Rightarrow> [] | Some sk \<Rightarrow> [sk_fd sk]) @ map cl_fd (srv_clients srv)) (opened w)"

lemma call_handler_opened:
  assumes "descriptor_contract net opened" "app_contract app opened" "call_handler net app sk st = Inr (t, s', w')"
  shows "opened w' = opened (snd st)" "t \<noteq> None"
proof -
  from assms(3) obtain b where "run_co (net_sys net) (app_handler app sk) st = Inr (b, s', w')" and t: "t \<noteq> None"
    by (auto simp: call_handler_def)
  moreover have "co_within (opens_nothing opened) UNIV UNIV (app_handler app sk)"
    using assms(2) by (simp add: app_contract_def)
  ultimately show "opened w' = opened (snd st)" using run_co_opened [OF assms(1)] by blast
  show "t \<noteq> None" by (rule t)
qed

lemma add_client_effect:
  assumes "descriptor_contract net opened" "app_contract app opened"
    and "add_client net app sk clients st = Inr (clients', s', w')"
  obtains h where "clients' = clients @ [\<lparr>cl_sock = sk, cl_task = Some h\<rparr>]" "opened w' = opened (snd st)"
proof -
  from assms(3) obtain t where call: "call_handler net app sk st = Inr (t, s', w')"
    and clients: "clients' = clients @ [\<lparr>cl_sock = sk, cl_task = t\<rparr>]"
    by (auto simp: add_client_def async_session_def sock_move_def task_assign_def)
  from call_handler_opened [OF assms(1,2) call] clients that show ?thesis by auto
qed

lemma server_resume_holds:
  assumes contract: "descriptor_contract net opened" "app_contract app opened"
    and resume: "server_resume net app revent p res (srv, s, w) = Inr (srv', s', w')"
    and holds: "case res of
      Value client_sock \<Rightarrow> holds old ([sk_fd sk] @ map cl_fd (srv_clients srv) @ [sk_fd client_sock]) (opened w)
    | Error ec \<Rightarrow> server_holds opened old srv w"
    and sk: "srv_sock srv = Some sk"
  shows "server_holds opened old srv' w'"
proof (cases res)
  case (Value client_sock)
  with resume sk obtain clients1 s1 w1 clients2 s2 w2 where
    add: "add_client net app client_sock (srv_clients srv) (s, w) = Inr (clients1, s1, w1)"
    and sweep: "sweep net app clients1 (s1, w1) = Inr (clients2, s2, w2)"
    and wait: "await_accept net revent p sk (s2, w2) = Inr (s', w')"
    and srv': "srv' = srv\<lparr>srv_clients := clients2\<rparr>"
    by (auto simp: server_resume_def)
  obtain h where "clients1 = srv_clients srv @ [\<lparr>cl_sock = client_sock, cl_task = Some h\<rparr>]" "opened w1 = opened w"
    using add_client_effect [OF contract add] by auto
  with holds Value have "holds old ([sk_fd sk] @ map cl_fd clients1) (opened (snd (s1, w1)))" by simp
  from sweep_holds [OF contract this sweep] await_accept_opened [OF contract(1) wait] srv' sk
  show ?thesis by (simp add: server_holds_def)
next
  case (Error ec)
  with resume sk have dtor: "sock_dtor net sk (s, w) = Inr (s', w')" and srv': "srv' = srv\<lparr>srv_sock := None\<rparr>"
    by (auto simp: server_resume_def)
  from holds Error sk have list: "holds old ([] @ sk_fd sk # map cl_fd (srv_clients srv)) (opened w)"
    by (simp add: server_holds_def)
  then have "0 < sk_fd sk" by (simp add: holds_def)
  with holds_close [OF list] sock_dtor_opened [OF contract(1) dtor] srv' show ?thesis
    by (simp add: server_holds_def)
qed

lemma server_accept_holds:
  assumes contract: "descriptor_contract net opened" "app_contract app opened"
    and "server_holds opened old srv w" "server_accept net app revent p (srv, s, w) = Inr (srv', s', w')"
  shows "server_holds opened old srv' w'"
proof (cases "srv_sock srv")
  case None
  with assms show ?thesis by (simp add: server_accept_def)
next
  case (Some sk)
  obtain r w1 where acc: "net_accept net (sk_fd sk) w = (r, w1)" by fastforce
  show ?thesis
  proof (cases r)
    case (Inl errno)
    with descriptor_contractD(4) [OF contract(1)] acc have same: "opened w1 = opened w" by blast
    show ?thesis
    proof (cases "negligible errno")
      case True
      with Inl acc Some assms(3,4) same show ?thesis by (simp add: server_accept_def server_holds_def)
    next
      case False
      with Inl acc Some assms(4)
      have "server_resume net app revent p (Error (trans_error_code errno)) (srv, s, w1) = Inr (srv', s', w')"
        by (simp add: server_accept_def)
      from server_resume_holds [OF contract this _ Some] assms(3) same show ?thesis by (simp add: server_holds_def)
    qed
  next
    case (Inr fd)
    with descriptor_contractD(3) [OF contract(1)] acc
    have fd: "0 < fd" "fd \<notin> opened w" "opened w1 = insert fd (opened w)" by blast+
    from Inr acc Some assms(4) have
      "server_resume net app revent p (Value (sock_wrap fd (sk_domain sk) PEER)) (srv, s, w1) = Inr (srv', s', w')"
      by (simp add: server_accept_def)
    moreover have "holds old ([sk_fd sk] @ map cl_fd (srv_clients srv) @ [fd]) (opened w1)"
      using holds_open [OF _ fd(1,2), of old "sk_fd sk # map cl_fd (srv_clients srv)"] assms(3) fd(3) Some
      by (simp add: server_holds_def)
    ultimately show ?thesis
      using server_resume_holds [OF contract, where res = "Value (sock_wrap fd (sk_domain sk) PEER)"] Some
      by (simp add: sock_wrap_def)
  qed
qed

lemma server_run_holds:
  assumes contract: "descriptor_contract net opened" "app_contract app opened"
    and elsewhere: "\<And>g st. Elsewhere g \<in> set hs \<Longrightarrow> opened (snd (g st)) = opened (snd st)"
  shows "server_holds opened old srv w \<Longrightarrow> server_run net app revent p hs (srv, s, w) = Inr (srv', s', w') \<Longrightarrow>
    server_holds opened old srv' w'"
  using elsewhere
proof (induction hs arbitrary: srv s w)
  case (Cons h hs)
  show ?case
  proof (cases h)
    case Called
    with Cons.prems obtain srv1 s1 w1 where "server_accept net app revent p (srv, s, w) = Inr (srv1, s1, w1)"
      and rest: "server_run net app revent p hs (srv1, s1, w1) = Inr (srv', s', w')" by auto
    from server_accept_holds [OF contract Cons.prems(1) this(1)] rest show ?thesis
      using Cons.prems(3) by (intro Cons.IH) auto
  next
    case (Elsewhere g)
    obtain s1 w1 where g: "g (s, w) = (s1, w1)" by fastforce
    with Cons.prems(3) [of g "(s, w)"] Elsewhere have "opened w1 = opened w" by simp
    with Cons.prems(1) have "server_holds opened old srv w1" by (simp add: server_holds_def)
    with Cons.prems(2,3) Elsewhere g show ?thesis by (intro Cons.IH) auto
  qed
qed simp

lemma server_start_holds:
  assumes contract: "descriptor_contract net opened"
    and start: "server_start net proto addr dm revent p (s0, w0) = Inr (srv, s, w)"
  shows "server_holds opened (opened w0) srv w"
proof -
  from start obtain sk w1 where listen: "sock_bind_listen net proto addr s_backlog (sock_default dm, w0) = (None, sk, w1)"
    and wait: "await_accept net revent p sk (s0, w1) = Inr (s, w)"
    and srv: "srv = \<lparr>srv_sock = Some sk, srv_clients = []\<rparr>"
    by (cases "sock_bind_listen net proto addr s_backlog (sock_default dm, w0)")
      (auto simp: server_start_def listen_and_accept_def split: option.splits fault.splits)
  from wait have "post_descriptor (net_sys net) (sk_fd sk) ev_READ revent (Proxy p) (s0, w1) = Inr (s, w)"
    by (auto simp: await_accept_def accept_suspend_def)
  then have "0 < sk_fd sk" by (rule post_descriptor_Inr)
  with keeps_or_opens_bind_listen [OF contract, unfolded keeps_or_opens_def, rule_format, OF listen]
  have fd: "0 < sk_fd sk" "sk_fd sk \<notin> opened w0" "opened w1 = insert (sk_fd sk) (opened w0)"
    by (simp_all add: sock_default_def)
  have "opened w = opened w1" using await_accept_opened [OF contract wait] by simp
  with fd show ?thesis by (simp add: server_holds_def holds_def srv)
qed

lemma sweep_filter:
  assumes "\<And>c st st' h. client_dtor net app c st = Inr st' \<Longrightarrow>
      sys_done (net_sys net) h (snd st') = sys_done (net_sys net) h (snd st)"
  shows "sweep net app cs st = Inr (cs', st') \<Longrightarrow>
    cs' = filter (\<lambda>c. \<exists>h. cl_task c = Some h \<and> \<not> sys_done (net_sys net) h (snd st)) cs"
proof (induction cs arbitrary: st cs')
  case (Cons c cs)
  then obtain h where h: "cl_task c = Some h" by (auto split: option.splits)
  show ?case
  proof (cases "sys_done (net_sys net) h (snd st)")
    case True
    with Cons.prems h obtain st1 where dtor: "client_dtor net app c st = Inr st1"
      and "sweep net app cs st1 = Inr (cs', st')" by auto
    from Cons.IH [OF this(2)] True h show ?thesis by (simp add: assms [OF dtor])
  next
    case False
    with Cons.prems h obtain cs1 where "sweep net app cs st = Inr (cs1, st')" "cs' = c # cs1" by auto
    with Cons.IH [of st cs1] False h show ?thesis by simp
  qed
qed simp

lemma async_session_ends_with_handler:
  assumes "settled X s" "ts_running s = k # rest" "awaits (ts_frames s) h k" "task_step (Finish v) s = Inr s'"
  shows "ts_running s' = h # rest \<and> async_session_loop k h (ts_frames s') = Inr (True, ts_frames s')"
proof -
  from assms(3) obtain fr where k: "ts_frames s k = Some fr" "fr_prev fr = Some h"
    by (auto simp: awaits_def split: option.splits)
  with assms(2,4) have "ts_frames s' k = Some (fr\<lparr>fr_result := v, fr_done := True\<rparr>)" "ts_running s' = h # rest"
    by (auto simp: frame_at_def final_await_suspend_def return_value_def Let_def split: if_splits)
  then show ?thesis by (simp add: async_session_loop_def task_done_def frame_at_def)
qed

section \<open>A server that runs\<close>

text \<open>Sessions wait for input first and are done once something was sent on their descriptor.\<close>

definition demo_net :: "net_world net" where
  "demo_net = (net_of (\<lambda>_. Stop True) (\<lambda>_. Stop True))\<lparr>net_sys :=
     (net_sys_of (\<lambda>_. Stop True) (\<lambda>_. Stop True))\<lparr>sys_done := (\<lambda>h w. int h \<in> fst ` set (nw_sent w))\<rparr>\<rparr>"

definition demo_app :: "net_world app" where
  "demo_app = \<lparr>app_handler = (\<lambda>sk. read_suspend sk 0 (nat (sk_fd sk))), app_task = (\<lambda>sk w. nat (sk_fd sk)),
     app_destroy = (\<lambda>h w. w)\<rparr>"

definition demo_start :: "(server \<times> sched \<times> net_world) result" where
  "demo_start = server_start demo_net TCP (V4 \<lparr>sin_family = 2, sin_port = 80, s_addr = 1\<rparr>) IPv4 0 0
     (new_sched \<lparr>epfd = 3, focus = [], evs = []\<rparr>,
      net_start\<lparr>nw_open := [4, 3, 2, 1], nw_arriving := [True, True]\<rparr>)"

definition demo_sends :: "sched \<times> net_world \<Rightarrow> sched \<times> net_world" where
  "demo_sends st = (fst st, (snd st)\<lparr>nw_sent := [(6, ''bye'')]\<rparr>)"

definition demo_events :: "net_world happening list" where
  "demo_events = [Called, Elsewhere demo_sends, Called]"

lemma demo_contract: "descriptor_contract demo_net (set \<circ> nw_open)"
  using net_of_contract [of "\<lambda>_. Stop True" "\<lambda>_. Stop True"]
  by (simp add: demo_net_def descriptor_contract_def net_of_def)

lemma demo_app_contract: "app_contract demo_app (set \<circ> nw_open)"
  by (simp add: app_contract_def demo_app_def read_suspend_def)

lemma demo_steady:
  assumes "client_dtor demo_net demo_app c st = Inr st'"
  shows "sys_done (net_sys demo_net) h (snd st') = sys_done (net_sys demo_net) h (snd st)"
proof -
  have sent: "nw_sent (snd (sys_epoll_ctl (net_sys demo_net) ep op fd e w)) = nw_sent w"
    "nw_sent (snd (sys_close (net_sys demo_net) fd w)) = nw_sent w" for ep op fd e w
    by (simp_all add: demo_net_def net_sys_of_def)
  have dtor: "sock_dtor demo_net (cl_sock c) st = Inr st'"
    using assms by (cases "cl_task c") (simp_all add: client_dtor_def demo_app_def)
  have "nw_sent (snd st') = nw_sent (snd st)"
  proof (cases "cl_fd c = 0")
    case True
    with dtor show ?thesis by (simp add: sock_dtor_def)
  next
    case False
    with dtor obtain s1 w1 where un: "sched_unsubscribe (net_sys demo_net) (cl_fd c) (fst st, snd st) = Inr (s1, w1)"
      and "snd st' = snd (sys_close (net_sys demo_net) (cl_fd c) w1)"
      by (auto simp: sock_dtor_def)
    then show ?thesis
      using poller_subscribe_Inr(4) [OF sched_unsubscribe_effect(1) [OF un]] sent
      by (auto split: option.splits) (metis snd_conv)+
  qed
  then show ?thesis by (simp add: demo_net_def)
qed

section \<open>Properties\<close>

text \<open>
  C11. The server leaks no descriptor. In whatever order connections arrive, fail and end,
  the descriptors open are those from before, the listening one until the loop is left, and one for
  each client in the list; all are different. So a client's socket is closed exactly when its entry
  is removed, and the listening one when \<open>accept\<close> fails.
\<close>

theorem server_owns_connections:
  assumes "descriptor_contract net opened" "app_contract app opened"
    and "server_start net proto addr dm revent p (s0, w0) = Inr x"
    and "server_run net app revent p hs x = Inr (srv, s, w)"
    and "\<forall>g st. Elsewhere g \<in> set hs \<longrightarrow> opened (snd (g st)) = opened (snd st)"
  shows "opened w = opened w0 \<union> (case srv_sock srv of None \<Rightarrow> {} | Some sk \<Rightarrow> {sk_fd sk}) \<union>
      cl_fd ` set (srv_clients srv) \<and>
    distinct (map cl_fd (srv_clients srv)) \<and>
    (\<forall>c \<in> set (srv_clients srv). cl_fd c \<notin> opened w0 \<and> map_option sk_fd (srv_sock srv) \<noteq> Some (cl_fd c))"
proof -
  obtain srv0 s1 w1 where x: "x = (srv0, s1, w1)" by (cases x)
  from server_start_holds [OF assms(1) assms(3) [unfolded x]] have "server_holds opened (opened w0) srv0 w1" .
  from server_run_holds [OF assms(1,2) _ this assms(4) [unfolded x]] assms(5)
  have "server_holds opened (opened w0) srv w" by blast
  then show ?thesis by (auto simp: server_holds_def holds_def split: option.splits)
qed

theorem server_owns_connections_witness:
  "\<exists>x srv s w. demo_start = Inr x \<and> server_run demo_net demo_app 0 0 demo_events x = Inr (srv, s, w) \<and>
     map cl_fd (srv_clients srv) = [7] \<and> set (nw_open w) = {1, 2, 3, 4} \<union> {5} \<union> {7}"
proof -
  have "case demo_start of Inl f \<Rightarrow> False | Inr x \<Rightarrow>
      (case server_run demo_net demo_app 0 0 demo_events x of Inl f \<Rightarrow> False
       | Inr (srv, s, w) \<Rightarrow> map cl_fd (srv_clients srv) = [7] \<and> map_option sk_fd (srv_sock srv) = Some 5)"
    by code_simp
  then obtain x srv s w where start: "demo_start = Inr x"
    and run: "server_run demo_net demo_app 0 0 demo_events x = Inr (srv, s, w)"
    and fds: "map cl_fd (srv_clients srv) = [7]" "map_option sk_fd (srv_sock srv) = Some 5"
    by (auto split: sum.splits)
  have still: "\<forall>g st. Elsewhere g \<in> set demo_events \<longrightarrow> (set \<circ> nw_open) (snd (g st)) = (set \<circ> nw_open) (snd st)"
    by (simp add: demo_events_def demo_sends_def)
  have "cl_fd ` set (srv_clients srv) = {7}" using arg_cong [OF fds(1), of set] by simp
  with server_owns_connections [OF demo_contract demo_app_contract start [unfolded demo_start_def] run still] fds(2)
  have "set (nw_open w) = {1, 2, 3, 4} \<union> {5} \<union> {7}" by (auto simp: net_start_def)
  with start run fds(1) show ?thesis by (intro exI conjI)
qed

text \<open>
  C20. Each acceptance adds one client, starts its session, and then removes exactly the clients
  whose session has ended, keeping the others in order; the server then waits for the next. If
  \<open>accept\<close> fails, the listening socket is destroyed, the clients stay as they are, and no later
  event removes one.
\<close>

theorem server_keeps_unfinished:
  assumes "\<forall>c st st' h. client_dtor net app c st = Inr st' \<longrightarrow>
      sys_done (net_sys net) h (snd st') = sys_done (net_sys net) h (snd st)"
    and "server_resume net app revent p res (srv, st) = Inr (srv', st')"
  shows "case res of
      Value client_sock \<Rightarrow>
        \<exists>h st1. call_handler net app client_sock st = Inr (Some h, st1) \<and>
          srv_clients srv' = filter (\<lambda>c. \<exists>k. cl_task c = Some k \<and> \<not> sys_done (net_sys net) k (snd st1))
            (srv_clients srv @ [\<lparr>cl_sock = client_sock, cl_task = Some h\<rparr>]) \<and>
          srv_sock srv' = srv_sock srv
    | Error ec \<Rightarrow>
        srv' = srv\<lparr>srv_sock := None\<rparr> \<and>
        (\<forall>hs x. server_run net app revent p hs (srv', st') = Inr x \<longrightarrow> fst x = srv')"
proof (cases res)
  case (Value client_sock)
  with assms(2) obtain sk clients1 st1 clients2 st2 where
    add: "add_client net app client_sock (srv_clients srv) st = Inr (clients1, st1)"
    and sweep: "sweep net app clients1 st1 = Inr (clients2, st2)"
    and srv': "srv' = srv\<lparr>srv_clients := clients2\<rparr>"
    by (auto simp: server_resume_def split: option.splits)
  from add obtain h where "call_handler net app client_sock st = Inr (Some h, st1)"
    "clients1 = srv_clients srv @ [\<lparr>cl_sock = client_sock, cl_task = Some h\<rparr>]"
    by (auto simp: add_client_def async_session_def sock_move_def task_assign_def call_handler_def)
  moreover have "clients2 = filter (\<lambda>c. \<exists>k. cl_task c = Some k \<and> \<not> sys_done (net_sys net) k (snd st1)) clients1"
    by (rule sweep_filter [OF _ sweep]) (use assms(1) in blast)
  ultimately show ?thesis using srv' Value by simp
next
  case (Error ec)
  have stays: "server_run net app revent p hs (srv1, st1) = Inr x \<Longrightarrow> srv_sock srv1 = None \<Longrightarrow> fst x = srv1"
    for hs srv1 st1 x
    by (induction net app revent p hs "(srv1, st1)" arbitrary: st1 rule: server_run.induct) (auto simp: server_accept_def)
  with Error assms(2) show ?thesis by (auto simp: server_resume_def split: option.splits)
qed

theorem server_keeps_unfinished_witness:
  "\<exists>srv st srv' st'. map cl_fd (srv_clients srv) = [6] \<and>
     server_resume demo_net demo_app 0 0 (Value (sock_wrap 7 IPv4 PEER)) (srv, st) = Inr (srv', st') \<and>
     srv_clients srv' = [\<lparr>cl_sock = sock_wrap 7 IPv4 PEER, cl_task = Some 7\<rparr>]"
proof -
  let ?srv = "\<lparr>srv_sock = Some (sock_wrap 5 IPv4 SERVER), srv_clients = [\<lparr>cl_sock = sock_wrap 6 IPv4 PEER, cl_task = Some 6\<rparr>]\<rparr>"
  let ?st = "(new_sched \<lparr>epfd = 3, focus = replicate 8 0, evs = []\<rparr>, net_start\<lparr>nw_sent := [(6, ''bye'')]\<rparr>)"
  have steady: "\<forall>c st st' h. client_dtor demo_net demo_app c st = Inr st' \<longrightarrow>
      sys_done (net_sys demo_net) h (snd st') = sys_done (net_sys demo_net) h (snd st)"
    by (intro allI impI) (rule demo_steady)
  have "case server_resume demo_net demo_app 0 0 (Value (sock_wrap 7 IPv4 PEER)) (?srv, ?st) of
      Inl f \<Rightarrow> False | Inr _ \<Rightarrow> True"
    by code_simp
  then obtain srv' st' where
    run: "server_resume demo_net demo_app 0 0 (Value (sock_wrap 7 IPv4 PEER)) (?srv, ?st) = Inr (srv', st')"
    by (auto split: sum.splits)
  from server_keeps_unfinished [OF steady run] obtain h st1 where
    call: "call_handler demo_net demo_app (sock_wrap 7 IPv4 PEER) ?st = Inr (Some h, st1)" and
    clients: "srv_clients srv' = filter (\<lambda>c. \<exists>k. cl_task c = Some k \<and> \<not> sys_done (net_sys demo_net) k (snd st1))
      (srv_clients ?srv @ [\<lparr>cl_sock = sock_wrap 7 IPv4 PEER, cl_task = Some h\<rparr>])" by auto
  have "case call_handler demo_net demo_app (sock_wrap 7 IPv4 PEER) ?st of
      Inr (t, s, w) \<Rightarrow> t = Some 7 \<and> nw_sent w = [(6, ''bye'')] | Inl f \<Rightarrow> False"
    by code_simp
  with call have "h = 7" "nw_sent (snd st1) = [(6, ''bye'')]" by (auto split: prod.splits)
  with clients have "srv_clients srv' = [\<lparr>cl_sock = sock_wrap 7 IPv4 PEER, cl_task = Some 7\<rparr>]"
    by (simp add: demo_net_def)
  with run show ?thesis
    by (intro exI [of _ ?srv] exI [of _ ?st] exI [of _ srv'] exI [of _ st']) (simp add: sock_wrap_def)
qed

end
