(* ===== verification/BC_Programs.thy ===== *)
theory BC_Programs
  imports BC_Server "HOL-Library.Sublist"
begin

text \<open>
  The programs over the library: the echo sessions of \<open>main.cpp\<close>, \<open>examples/async-server.cxx\<close> and
  \<open>examples/one-time-server.cxx\<close>, and the session of \<open>examples/client.cxx\<close>. Each is the coroutine
  between its suspensions: a state for the \<open>co_await\<close> it is in, and its resumption with the event
  the awaiter was given.
\<close>

section \<open>Sessions\<close>

datatype session = Reading | Writing string | Ended

text \<open>\<open>log::error("...", r.error().message())\<close>: the message is computed, whatever the level.\<close>

definition report :: "('t, error_code) expected \<Rightarrow> string result" where
  "report r = res_bind (expected_error r) error_code_message"

definition buffer_size :: nat where
  "buffer_size = 1024"

text \<open>\<open>main.cpp\<close>. In \<open>Writing data\<close> the result of reading is \<open>data\<close>.\<close>

definition echo_resume :: "'w net \<Rightarrow> sock \<Rightarrow> event \<Rightarrow> session \<times> 'w \<Rightarrow> (session \<times> 'w) result" where
  "echo_resume net sk revent = (\<lambda>(ses, w).
     case ses of
       Reading \<Rightarrow>
         res_bind (read_resume net sk buffer_size revent w) (\<lambda>(read_res, w1).
           if has_value read_res then res_bind (expected_value read_res) (\<lambda>data. Inr (Writing data, w1))
           else res_bind (report read_res) (\<lambda>_. Inr (Ended, w1)))
     | Writing data \<Rightarrow>
         let (write_res, w1) = write_resume net sk data revent w in
           if \<not> has_value write_res then res_bind (report write_res) (\<lambda>_. Inr (Ended, w1))
           else Inr (Reading, w1)
     | Ended \<Rightarrow> Inl Dangling)"

text \<open>\<open>async-server.cxx\<close>: on a write error it asks the result of reading for its error.\<close>

definition example_resume :: "'w net \<Rightarrow> sock \<Rightarrow> event \<Rightarrow> session \<times> 'w \<Rightarrow> (session \<times> 'w) result" where
  "example_resume net sk revent = (\<lambda>(ses, w).
     case ses of
       Reading \<Rightarrow>
         res_bind (read_resume net sk buffer_size revent w) (\<lambda>(read_res, w1).
           if has_value read_res then res_bind (expected_value read_res) (\<lambda>data. Inr (Writing data, w1))
           else res_bind (report read_res) (\<lambda>_. Inr (Ended, w1)))
     | Writing data \<Rightarrow>
         let (write_res, w1) = write_resume net sk data revent w in
           if \<not> has_value write_res then res_bind (report (Value data)) (\<lambda>_. Inr (Ended, w1))
           else Inr (Reading, w1)
     | Ended \<Rightarrow> Inl Dangling)"

text \<open>\<open>one-time-server.cxx\<close>: the result of writing is not looked at.\<close>

definition one_time_resume :: "'w net \<Rightarrow> sock \<Rightarrow> event \<Rightarrow> session \<times> 'w \<Rightarrow> (session \<times> 'w) result" where
  "one_time_resume net sk revent = (\<lambda>(ses, w).
     case ses of
       Reading \<Rightarrow>
         res_bind (read_resume net sk buffer_size revent w) (\<lambda>(n, w1).
           if has_value n then res_bind (expected_value n) (\<lambda>data. Inr (Writing data, w1))
           else Inr (Ended, w1))
     | Writing data \<Rightarrow> Inr (Reading, snd (write_resume net sk data revent w))
     | Ended \<Rightarrow> Inl Dangling)"

text \<open>A session over time: the rest of the program changes the state, then the session is resumed.\<close>

fun session_run ::
    "(event \<Rightarrow> session \<times> 'w \<Rightarrow> (session \<times> 'w) result) \<Rightarrow> (('w \<Rightarrow> 'w) \<times> event) list \<Rightarrow> session \<times> 'w \<Rightarrow>
     (session \<times> 'w) result" where
  "session_run step [] st = Inr st"
| "session_run step ((g, e) # es) (ses, w) =
     (if ses = Ended then Inr (ses, w) else res_bind (step e (ses, g w)) (session_run step es))"

section \<open>The servers of the examples\<close>

text \<open>
  \<open>async_server\<close>: the loop of \<open>server::run_\<close> with the list of clients as a local variable. When it
  ends the socket is destroyed, and then the clients with their tasks, finished or not.
\<close>

fun destroy_clients :: "'w net \<Rightarrow> 'w app \<Rightarrow> client list \<Rightarrow> sched \<times> 'w \<Rightarrow> (sched \<times> 'w) result" where
  "destroy_clients net app [] st = Inr st"
| "destroy_clients net app (c # cs) st = res_bind (client_dtor net app c st) (destroy_clients net app cs)"

definition async_server_start ::
    "'w net \<Rightarrow> protocol \<Rightarrow> address \<Rightarrow> ip_domain \<Rightarrow> nat \<Rightarrow> nat \<Rightarrow> sched \<times> 'w \<Rightarrow> (server \<times> sched \<times> 'w) result" where
  "async_server_start net proto addr dm revent p st =
     res_bind (listen_and_accept net proto addr 10 dm revent p st) (\<lambda>(sk, st1).
       Inr (\<lparr>srv_sock = Some sk, srv_clients = []\<rparr>, st1))"

definition async_server_resume ::
    "'w net \<Rightarrow> 'w app \<Rightarrow> nat \<Rightarrow> nat \<Rightarrow> (sock, error_code) expected \<Rightarrow> server \<times> sched \<times> 'w \<Rightarrow>
     (server \<times> sched \<times> 'w) result" where
  "async_server_resume net app revent p client = (\<lambda>(srv, st).
     case srv_sock srv of
       None \<Rightarrow> Inl Dangling
     | Some sk \<Rightarrow>
         (case client of
            Value client_sock \<Rightarrow>
              res_bind (add_client net app client_sock (srv_clients srv) st) (\<lambda>(clients1, st1).
              res_bind (sweep net app clients1 st1) (\<lambda>(clients2, st2).
              res_bind (await_accept net revent p sk st2) (\<lambda>st3.
                Inr (srv\<lparr>srv_clients := clients2\<rparr>, st3))))
          | Error ec \<Rightarrow>
              res_bind (error_code_message ec) (\<lambda>_.
              res_bind (sock_dtor net sk st) (\<lambda>st1.
              res_bind (destroy_clients net app (srv_clients srv) st1) (\<lambda>st2.
                Inr (\<lparr>srv_sock = None, srv_clients = []\<rparr>, st2))))))"

text \<open>\<open>async_one_time_server\<close> up to the connection, and from there to the first reading.\<close>

definition one_time_start ::
    "'w net \<Rightarrow> protocol \<Rightarrow> address \<Rightarrow> ip_domain \<Rightarrow> nat \<Rightarrow> nat \<Rightarrow> sched \<times> 'w \<Rightarrow> (sock \<times> sched \<times> 'w) result" where
  "one_time_start net proto addr dm revent p st = listen_and_accept net proto addr 10 dm revent p st"

definition one_time_accepted ::
    "'w net \<Rightarrow> nat \<Rightarrow> nat \<Rightarrow> sock \<Rightarrow> (sock, error_code) expected \<Rightarrow> sched \<times> 'w \<Rightarrow>
     (sock option \<times> session \<times> sched \<times> 'w) result" where
  "one_time_accepted net revent h sk client st =
     (case client of
        Value client_sock \<Rightarrow>
          res_bind (run_co (net_sys net) (read_suspend client_sock revent h) st) (\<lambda>(_, st1).
            Inr (Some client_sock, Reading, st1))
      | Error ec \<Rightarrow>
          res_bind (error_code_message ec) (\<lambda>_.
          res_bind (sock_dtor net sk st) (\<lambda>st1. Inr (None, Ended, st1))))"

section \<open>The session of the client\<close>

text \<open>Standard input by lines, and standard output.\<close>

record 'w tty =
  in_line :: "'w \<Rightarrow> string option \<times> 'w"
  out_line :: "string \<Rightarrow> 'w \<Rightarrow> 'w"

datatype shell = Sending string | Receiving | Closed

definition shell_next :: "'w tty \<Rightarrow> 'w \<Rightarrow> shell \<times> 'w" where
  "shell_next tty w =
     (case in_line tty w of (None, w1) \<Rightarrow> (Closed, w1) | (Some l, w1) \<Rightarrow> (Sending l, w1))"

text \<open>
  \<open>buffer[*read_res] = 0\<close> and the output of \<open>buffer.data()\<close> up to the first null character; \<open>junk\<close> is
  what the uninitialised buffer holds.
\<close>

definition print_buffer :: "'w tty \<Rightarrow> string \<Rightarrow> string \<Rightarrow> 'w \<Rightarrow> 'w result" where
  "print_buffer tty junk data w =
     res_bind (vec_set (data @ drop (length data) junk) (length data) (CHR 0x00)) (\<lambda>buffer.
       Inr (out_line tty (takeWhile (\<lambda>c. c \<noteq> CHR 0x00) buffer) w))"

definition shell_resume ::
    "'w net \<Rightarrow> 'w tty \<Rightarrow> string \<Rightarrow> sock \<Rightarrow> event \<Rightarrow> shell \<times> 'w \<Rightarrow> (shell \<times> 'w) result" where
  "shell_resume net tty junk sk revent = (\<lambda>(sh, w).
     case sh of
       Sending l \<Rightarrow>
         let (write_res, w1) = write_resume net sk l revent w in
           if has_value write_res then Inr (Receiving, w1)
           else res_bind (report write_res) (\<lambda>_. Inr (Closed, w1))
     | Receiving \<Rightarrow>
         res_bind (read_resume net sk buffer_size revent w) (\<lambda>(read_res, w1).
           if has_value read_res then
             res_bind (expected_deref read_res) (\<lambda>data.
             res_bind (print_buffer tty junk data w1) (\<lambda>w2. Inr (shell_next tty w2)))
           else res_bind (report read_res) (\<lambda>_. Inr (Closed, w1)))
     | Closed \<Rightarrow> Inl Dangling)"

section \<open>What a session reads and writes\<close>

text \<open>
  The bytes read from a descriptor and those the kernel took for it so far: \<open>read\<close> extends the one, a
  write the other, by as many bytes as it reports.
\<close>

definition stream_contract :: "'w net \<Rightarrow> int \<Rightarrow> ('w \<Rightarrow> string) \<Rightarrow> ('w \<Rightarrow> string) \<Rightarrow> bool" where
  "stream_contract net fd received sent \<longleftrightarrow>
     (\<forall>len w r w'. net_read net fd len w = (r, w') \<longrightarrow>
        sent w' = sent w \<and> received w' = received w @ (case r of Inl errno \<Rightarrow> [] | Inr data \<Rightarrow> data)) \<and>
     (\<forall>data w r w'. net_write net fd data w = (r, w') \<longrightarrow>
        received w' = received w \<and> sent w' = sent w @ (case r of Inl errno \<Rightarrow> [] | Inr n \<Rightarrow> take n data))"

text \<open>Writes take all they are given, or fail.\<close>

definition writes_whole :: "'w net \<Rightarrow> int \<Rightarrow> bool" where
  "writes_whole net fd \<longleftrightarrow>
     (\<forall>data w. case fst (net_write net fd data w) of Inl errno \<Rightarrow> \<not> negligible errno | Inr n \<Rightarrow> length data \<le> n)"

lemma report_simps [simp]: "report (Value v) = Inl Assert_failed" "report (Error e) = error_code_message e"
  by (simp_all add: expected_access_defs report_def)

lemma message_of_errc: "errno \<in> range errc_value \<Longrightarrow> \<exists>m. message errno = Inr m"
  using message_case message_cases_complete by (metis (no_types, lifting) UNIV_I imageE prod.collapse)

lemma read_resume_cases:
  assumes "read_resume net sk len revent w = Inr (r, w')"
  obtains data where "r = Value data" "net_read net (sk_fd sk) len w = (Inr data, w')"
  | errno where "r = Value []" "net_read net (sk_fd sk) len w = (Inl errno, w')" "negligible errno"
  | errno where "r = Error (trans_error_code errno)" "net_read net (sk_fd sk) len w = (Inl errno, w')"
  | code where "r = Error code" "w' = w"
proof -
  obtain x w1 where read: "net_read net (sk_fd sk) len w = (x, w1)" by fastforce
  with assms that show ?thesis
    by (cases x) (auto simp: read_resume_def split: if_splits)
qed

lemma write_resume_cases:
  assumes "write_resume net sk data revent w = (r, w')"
  obtains n where "r = Value n" "net_write net (sk_fd sk) data w = (Inr n, w')"
  | errno where "r = Value 0" "net_write net (sk_fd sk) data w = (Inl errno, w')" "negligible errno"
  | errno where "r = Error (trans_error_code errno)" "net_write net (sk_fd sk) data w = (Inl errno, w')"
  | code where "r = Error code" "w' = w"
proof -
  obtain x w1 where wr: "net_write net (sk_fd sk) data w = (x, w1)" by fastforce
  with assms that show ?thesis
    by (cases x) (auto simp: write_resume_def split: if_splits)
qed

text \<open>Received and sent, with the data in between: in order and, with whole writes, nothing missing.\<close>

fun echoing :: "bool \<Rightarrow> session \<Rightarrow> string \<Rightarrow> string \<Rightarrow> bool" where
  "echoing whole Reading inp out = (subseq out inp \<and> (whole \<longrightarrow> out = inp))"
| "echoing whole (Writing data) inp out = (\<exists>p. inp = p @ data \<and> subseq out p \<and> (whole \<longrightarrow> out = p))"
| "echoing whole Ended inp out = (subseq out inp \<and> (whole \<longrightarrow> prefix out inp))"

lemma reading_echoing:
  assumes contract: "stream_contract net (sk_fd sk) received sent"
    and read: "read_resume net sk buffer_size revent w = Inr (r, w')"
    and echoing: "echoing whole Reading (received w) (sent w)"
  shows "echoing whole (case r of Value data \<Rightarrow> Writing data | Error _ \<Rightarrow> Ended) (received w') (sent w')"
proof -
  have io: "net_read net (sk_fd sk) buffer_size w = (x, w') \<Longrightarrow>
      sent w' = sent w \<and> received w' = received w @ (case x of Inl errno \<Rightarrow> [] | Inr data \<Rightarrow> data)" for x
    using contract unfolding stream_contract_def by blast
  show ?thesis
    by (cases rule: read_resume_cases [OF read]) (use echoing in \<open>auto dest: io\<close>)
qed

lemma writing_echoing:
  assumes contract: "stream_contract net (sk_fd sk) received sent" and "whole \<Longrightarrow> writes_whole net (sk_fd sk)"
    and wr: "write_resume net sk data revent w = (r, w')"
    and echoing: "echoing whole (Writing data) (received w) (sent w)"
  shows "echoing whole (case r of Value n \<Rightarrow> Reading | Error _ \<Rightarrow> Ended) (received w') (sent w')"
proof -
  from echoing obtain p where p: "received w = p @ data" "subseq (sent w) p" "whole \<longrightarrow> sent w = p" by auto
  have io: "net_write net (sk_fd sk) data w = (x, w') \<Longrightarrow>
      received w' = received w \<and> sent w' = sent w @ (case x of Inl errno \<Rightarrow> [] | Inr n \<Rightarrow> take n data)" for x
    using contract unfolding stream_contract_def by blast
  have whole: "whole \<Longrightarrow>
      case fst (net_write net (sk_fd sk) data w) of Inl errno \<Rightarrow> \<not> negligible errno | Inr n \<Rightarrow> length data \<le> n"
    using assms(2) unfolding writes_whole_def by blast
  have sub: "subseq (sent w @ take n data) (received w)" for n
    unfolding p(1) using p(2) by (intro list_emb_append_mono) (auto simp: take_is_prefix prefix_imp_subseq)
  show ?thesis
  proof (cases rule: write_resume_cases [OF wr])
    case (1 n)
    with io [OF 1(2)] whole sub p show ?thesis by auto
  next
    case (2 errno)
    with io [OF 2(2)] whole sub [of 0] p show ?thesis by auto
  next
    case (3 errno)
    with io [OF 3(2)] sub [of 0] p show ?thesis by auto
  next
    case (4 code)
    with sub [of 0] p show ?thesis by auto
  qed
qed

text \<open>
  The contract of a session: each resumption keeps an invariant of its state and the world. Then
  it holds whenever the session is suspended, if the rest of the program keeps it too.
\<close>

locale session_machine =
  fixes step :: "event \<Rightarrow> session \<times> 'w \<Rightarrow> (session \<times> 'w) result" and inv :: "session \<Rightarrow> 'w \<Rightarrow> bool"
  assumes step_keeps: "inv ses w \<Longrightarrow> step e (ses, w) = Inr (ses', w') \<Longrightarrow> inv ses' w'"
begin

lemma run_keeps:
  "inv ses w \<Longrightarrow> (\<And>g e ses w. (g, e) \<in> set es \<Longrightarrow> inv ses w \<Longrightarrow> inv ses (g w)) \<Longrightarrow>
   session_run step es (ses, w) = Inr (ses', w') \<Longrightarrow> inv ses' w'"
proof (induction es arbitrary: ses w)
  case (Cons x es)
  obtain g e where x: "x = (g, e)" by fastforce
  show ?case
  proof (cases "ses = Ended")
    case False
    with Cons.prems(3) x obtain ses1 w1 where step: "step e (ses, g w) = Inr (ses1, w1)"
      and rest: "session_run step es (ses1, w1) = Inr (ses', w')" by auto
    have "inv ses (g w)" using Cons.prems(2) [of g e ses w] Cons.prems(1) x by simp
    from step_keeps [OF this step] show ?thesis
      by (rule Cons.IH) (use Cons.prems(2) rest in auto)
  qed (use Cons.prems x in simp)
qed simp

end

text \<open>\<open>exact\<close>: with whole writes nothing may be missing.\<close>

definition echo_inv ::
    "bool \<Rightarrow> 'w net \<Rightarrow> sock \<Rightarrow> ('w \<Rightarrow> string) \<Rightarrow> ('w \<Rightarrow> string) \<Rightarrow> session \<Rightarrow> 'w \<Rightarrow> bool" where
  "echo_inv exact net sk received sent ses w \<longleftrightarrow>
     stream_contract net (sk_fd sk) received sent \<longrightarrow>
     echoing (exact \<and> writes_whole net (sk_fd sk)) ses (received w) (sent w)"

lemma echo_inv_reading:
  "echo_inv exact net sk received sent Reading w \<Longrightarrow> read_resume net sk buffer_size revent w = Inr (r, w') \<Longrightarrow>
   echo_inv exact net sk received sent (case r of Value data \<Rightarrow> Writing data | Error _ \<Rightarrow> Ended) w'"
  unfolding echo_inv_def by (intro impI reading_echoing [where sk = sk]) auto

lemma echo_inv_writing:
  "echo_inv exact net sk received sent (Writing data) w \<Longrightarrow> write_resume net sk data revent w = (r, w') \<Longrightarrow>
   echo_inv exact net sk received sent (case r of Value n \<Rightarrow> Reading | Error _ \<Rightarrow> Ended) w'"
  unfolding echo_inv_def by (intro impI writing_echoing [where sk = sk]) auto

text \<open>The steps of the sessions, by what the awaiters return.\<close>

definition after_reading :: "(string, error_code) expected \<Rightarrow> session" where
  "after_reading r = (case r of Value data \<Rightarrow> Writing data | Error _ \<Rightarrow> Ended)"

definition after_writing :: "(nat, error_code) expected \<Rightarrow> session" where
  "after_writing r = (case r of Value n \<Rightarrow> Reading | Error _ \<Rightarrow> Ended)"

lemma echo_step:
  "echo_resume net sk e (Reading, w) = Inr (ses', w') \<Longrightarrow>
    \<exists>r. read_resume net sk buffer_size e w = Inr (r, w') \<and> ses' = after_reading r"
  "echo_resume net sk e (Writing data, w) = Inr (ses', w') \<Longrightarrow>
    \<exists>r. write_resume net sk data e w = (r, w') \<and> ses' = after_writing r"
  "echo_resume net sk e (Ended, w) \<noteq> Inr (ses', w')"
proof -
  assume step: "echo_resume net sk e (Reading, w) = Inr (ses', w')"
  then obtain r w1 where "read_resume net sk buffer_size e w = Inr (r, w1)" by (auto simp: echo_resume_def)
  with step show "\<exists>r. read_resume net sk buffer_size e w = Inr (r, w') \<and> ses' = after_reading r"
    by (cases r) (auto simp: echo_resume_def after_reading_def)
next
  assume step: "echo_resume net sk e (Writing data, w) = Inr (ses', w')"
  obtain r w1 where "write_resume net sk data e w = (r, w1)" by fastforce
  with step show "\<exists>r. write_resume net sk data e w = (r, w') \<and> ses' = after_writing r"
    by (cases r) (auto simp: echo_resume_def after_writing_def)
qed (simp add: echo_resume_def)

lemma example_step:
  "example_resume net sk e (Reading, w) = echo_resume net sk e (Reading, w)"
  "example_resume net sk e (Writing data, w) = Inr (ses', w') \<Longrightarrow>
    \<exists>r. write_resume net sk data e w = (r, w') \<and> ses' = after_writing r"
  "example_resume net sk e (Ended, w) \<noteq> Inr (ses', w')"
proof -
  assume step: "example_resume net sk e (Writing data, w) = Inr (ses', w')"
  obtain r w1 where "write_resume net sk data e w = (r, w1)" by fastforce
  with step show "\<exists>r. write_resume net sk data e w = (r, w') \<and> ses' = after_writing r"
    by (cases r) (auto simp: example_resume_def after_writing_def)
qed (simp_all add: example_resume_def echo_resume_def)

lemma one_time_step:
  "one_time_resume net sk e (Reading, w) = Inr (ses', w') \<Longrightarrow>
    \<exists>r. read_resume net sk buffer_size e w = Inr (r, w') \<and> ses' = after_reading r"
  "one_time_resume net sk e (Writing data, w) = Inr (Reading, snd (write_resume net sk data e w))"
  "one_time_resume net sk e (Ended, w) \<noteq> Inr (ses', w')"
proof -
  assume step: "one_time_resume net sk e (Reading, w) = Inr (ses', w')"
  then obtain r w1 where "read_resume net sk buffer_size e w = Inr (r, w1)" by (auto simp: one_time_resume_def)
  with step show "\<exists>r. read_resume net sk buffer_size e w = Inr (r, w') \<and> ses' = after_reading r"
    by (cases r) (auto simp: one_time_resume_def after_reading_def)
qed (simp_all add: one_time_resume_def)

interpretation echo: session_machine "echo_resume net sk" "echo_inv True net sk received sent"
  for net :: "'w net" and sk received sent
proof (unfold_locales, goal_cases)
  case (1 ses w e ses' w')
  then show ?case
    by (cases ses) (auto dest!: echo_step(1,2) simp: echo_step(3) after_reading_def after_writing_def
        intro: echo_inv_reading echo_inv_writing)
qed

interpretation example: session_machine "example_resume net sk" "echo_inv True net sk received sent"
  for net :: "'w net" and sk received sent
proof (unfold_locales, goal_cases)
  case (1 ses w e ses' w')
  then show ?case
    by (cases ses) (auto dest!: echo_step(1) example_step(2) simp: example_step(1,3) after_reading_def after_writing_def
        intro: echo_inv_reading echo_inv_writing)
qed

interpretation one_time: session_machine "one_time_resume net sk" "echo_inv False net sk received sent"
  for net :: "'w net" and sk received sent
proof (unfold_locales, goal_cases)
  case (1 ses w e ses' w')
  show ?case
  proof (cases ses)
    case (Writing data)
    obtain r w1 where wr: "write_resume net sk data e w = (r, w1)" by fastforce
    with 1(2) Writing have "ses' = Reading" "w' = w1" by (simp_all add: one_time_step(2))
    with echo_inv_writing [OF 1(1) [unfolded Writing] wr] show ?thesis
      by (cases r) (simp_all add: echo_inv_def)
  qed (use 1 in \<open>auto dest!: one_time_step(1) simp: one_time_step(3) after_reading_def intro: echo_inv_reading\<close>)
qed

text \<open>The one-time server sends back what it receives in order too, up to what its writes drop.\<close>

lemma one_time_in_order:
  assumes "stream_contract net (sk_fd sk) received sent"
    and "\<And>g e w. (g, e) \<in> set es \<Longrightarrow> received (g w) = received w \<and> sent (g w) = sent w"
    and "session_run (one_time_resume net sk) es (Reading, w0) = Inr (ses, w)" "received w0 = []" "sent w0 = []"
  shows "subseq (sent w) (received w)"
proof -
  have "echo_inv False net sk received sent ses w"
    by (rule one_time.run_keeps [OF _ _ assms(3)]) (use assms(2,4,5) in \<open>auto simp: echo_inv_def\<close>)
  with assms(1) show ?thesis
    by (cases ses) (auto simp: echo_inv_def intro: subseq_order.trans)
qed

section \<open>The end of the example server\<close>

lemma destroy_clients_holds:
  assumes contract: "descriptor_contract net opened" "app_contract app opened"
  shows "holds old (map cl_fd cs) (opened (snd st)) \<Longrightarrow> destroy_clients net app cs st = Inr (s', w') \<Longrightarrow>
    opened w' = old"
proof (induction cs arbitrary: st)
  case (Cons c cs)
  from Cons.prems(2) obtain s1 w1 where dtor: "client_dtor net app c st = Inr (s1, w1)"
    and rest: "destroy_clients net app cs (s1, w1) = Inr (s', w')" by auto
  from Cons.prems(1) have "0 < cl_fd c" by (simp add: holds_def)
  from client_dtor_opened [OF contract dtor this] holds_close [of old "[]" "cl_fd c" "map cl_fd cs"] Cons.prems(1)
  have "holds old (map cl_fd cs) (opened (snd (s1, w1)))" by simp
  from Cons.IH [OF this rest] show ?case .
qed (simp add: holds_def)

text \<open>When the loop of \<open>async_server\<close> ends, every descriptor it opened is closed.\<close>

lemma async_server_closes_all:
  assumes contract: "descriptor_contract net opened" "app_contract app opened"
    and holds: "server_holds opened old srv w"
    and step: "async_server_resume net app revent p (Error ec) (srv, s, w) = Inr (srv', s', w')"
  shows "opened w' = old"
proof -
  from step obtain sk s1 w1 where sk: "srv_sock srv = Some sk"
    and dtor: "sock_dtor net sk (s, w) = Inr (s1, w1)"
    and rest: "destroy_clients net app (srv_clients srv) (s1, w1) = Inr (s', w')"
    by (auto simp: async_server_resume_def split: option.splits)
  from holds sk have list: "holds old ([] @ sk_fd sk # map cl_fd (srv_clients srv)) (opened w)"
    by (simp add: server_holds_def)
  then have "0 < sk_fd sk" by (simp add: holds_def)
  with holds_close [OF list] sock_dtor_opened [OF contract(1) dtor]
  have "holds old (map cl_fd (srv_clients srv)) (opened (snd (s1, w1)))" by simp
  from destroy_clients_holds [OF contract this rest] show ?thesis .
qed

text \<open>Until then it is \<open>server::run_\<close> with another backlog.\<close>

lemma async_server_as_server:
  "async_server_resume net app revent p (Value sk) = server_resume net app revent p (Value sk)"
  by (simp add: async_server_resume_def server_resume_def fun_eq_iff split: option.split)

section \<open>Examples\<close>

text \<open>
  One connection: a script of what \<open>read\<close> returns and of how many bytes each \<open>write\<close> takes, and a
  log of the bytes received and sent. When the script of writes is used up the pipe is broken.
\<close>

record echo_world =
  ew_input :: "(int + string) list"
  ew_room :: "nat list"
  ew_received :: string
  ew_sent :: string

definition echo_net :: "echo_world net" where
  "echo_net = \<lparr>net_sys =
        \<lparr>sys_epoll_create = (\<lambda>w. (Inr 3, w)), sys_close = (\<lambda>fd w. (0, w)), sys_epoll_ctl = (\<lambda>ep op fd e w. (0, w)),
         sys_epoll_wait = (\<lambda>ep n t w. (Inr [], w)), sys_now = (\<lambda>w. (0, w)), sys_sleep = (\<lambda>ns w. w),
         sys_store = (\<lambda>r e w. w), sys_resume = (\<lambda>h. Stop True), sys_call = (\<lambda>p. Stop True), sys_done = (\<lambda>h w. False)\<rparr>,
      net_socket = (\<lambda>d p w. (Inl 24, w)), net_reuse = (\<lambda>fd w. (0, w)),
      net_bind = (\<lambda>fd a n w. (0, w)), net_listen = (\<lambda>fd n w. (0, w)), net_connect = (\<lambda>fd a n w. (115, w)),
      net_accept = (\<lambda>fd w. (Inl 11, w)),
      net_read = (\<lambda>fd len w.
        case ew_input w of
          [] \<Rightarrow> (Inl 11, w)
        | Inl errno # rest \<Rightarrow> (Inl errno, w\<lparr>ew_input := rest\<rparr>)
        | Inr data # rest \<Rightarrow>
            (Inr (take len data), w\<lparr>ew_input := rest, ew_received := ew_received w @ take len data\<rparr>)),
      net_write = (\<lambda>fd data w.
        case ew_room w of
          [] \<Rightarrow> (Inl 32, w)
        | n # rest \<Rightarrow> (Inr n, w\<lparr>ew_room := rest, ew_sent := ew_sent w @ take n data\<rparr>)),
      net_res = (\<lambda>h r w. w)\<rparr>"

definition echo_start :: "(int + string) list \<Rightarrow> nat list \<Rightarrow> echo_world" where
  "echo_start inp room = \<lparr>ew_input = inp, ew_room = room, ew_received = [], ew_sent = []\<rparr>"

lemma echo_net_contract: "stream_contract echo_net fd ew_received ew_sent"
  by (auto simp: stream_contract_def echo_net_def split: list.splits sum.splits)

section \<open>Properties\<close>

text \<open>
  C16. The server of \<open>main.cpp\<close> echoes. Whatever the rest of the program does in between, what a session has
  sent to its client is part of what it received, in order. If the kernel takes every write
  whole, it is all that was received, up to the data of the write the session is in, and a beginning of it
  when the session has ended. After a partial or interrupted write the rest of the data is dropped.
\<close>

theorem echo_in_order:
  assumes "stream_contract net (sk_fd sk) received sent"
    and "\<forall>(g, e) \<in> set es. \<forall>w. received (g w) = received w \<and> sent (g w) = sent w"
    and "session_run (echo_resume net sk) es (Reading, w0) = Inr (ses, w)" "received w0 = []" "sent w0 = []"
  shows "subseq (sent w) (received w) \<and>
    (writes_whole net (sk_fd sk) \<longrightarrow>
       (case ses of
          Reading \<Rightarrow> sent w = received w
        | Writing data \<Rightarrow> sent w @ data = received w
        | Ended \<Rightarrow> prefix (sent w) (received w)))"
proof -
  have "echo_inv True net sk received sent ses w"
    by (rule echo.run_keeps [OF _ _ assms(3)]) (use assms(2,4,5) in \<open>auto simp: echo_inv_def\<close>)
  with assms(1) have "echoing (writes_whole net (sk_fd sk)) ses (received w) (sent w)"
    by (simp add: echo_inv_def)
  then show ?thesis
    by (cases ses) (auto intro: subseq_order.trans)
qed

theorem echo_in_order_witness:
  "\<exists>w. session_run (echo_resume echo_net (sock_wrap 7 IPv4 PEER))
      [(\<lambda>w. w, ev_READ), (\<lambda>w. w, ev_WRITE), (\<lambda>w. w, ev_READ), (\<lambda>w. w, ev_WRITE)]
      (Reading, echo_start [Inr ''hello'', Inr ''you''] [5, 1]) = Inr (Reading, w) \<and>
    ew_sent w = ''helloy'' \<and> subseq (ew_sent w) ''helloyou''"
proof -
  let ?es = "[(\<lambda>w. w, ev_READ), (\<lambda>w. w, ev_WRITE), (\<lambda>w. w, ev_READ), (\<lambda>w. w, ev_WRITE)]"
  let ?run = "session_run (echo_resume echo_net (sock_wrap 7 IPv4 PEER)) ?es
      (Reading, echo_start [Inr ''hello'', Inr ''you''] [5, 1])"
  have "case ?run of Inl f \<Rightarrow> False
      | Inr (ses, w) \<Rightarrow> ses = Reading \<and> ew_sent w = ''helloy'' \<and> ew_received w = ''helloyou''"
    by code_simp
  then obtain w where run: "?run = Inr (Reading, w)" "ew_sent w = ''helloy''" "ew_received w = ''helloyou''"
    by (auto split: sum.splits)
  have keep: "\<forall>(g, e) \<in> set ?es. \<forall>w. ew_received (g w) = ew_received w \<and> ew_sent (g w) = ew_sent w" by simp
  from echo_in_order [OF echo_net_contract keep run(1)] run(3)
  have "subseq (ew_sent w) ''helloyou''" by (simp add: echo_start_def)
  with run show ?thesis by (intro exI conjI)
qed

text \<open>
  C31. What ends a session. When \<open>read\<close> or \<open>write\<close> fails with an \<open>errno\<close> that is not one of the negligible ones,
  a session of \<open>main.cpp\<close> ends if the library has a message for it, and otherwise, for a connection
  reset by the peer (104) among others, takes the whole process with it. In \<open>async-server.cxx\<close>
  reading behaves in the same way, but every error of writing fails an assertion, also a broken
  pipe, since the result of reading is asked for its error. \<open>one-time-server.cxx\<close> ends after
  reading and goes on after writing.
\<close>

theorem session_error_outcome:
  assumes "revent \<noteq> 0" "revent AND (ev_ERROR OR ev_HANGUP OR ev_RDHANGUP) = 0" "\<not> negligible errno"
    and "net_read net (sk_fd sk) buffer_size w = (Inl errno, w1)" "net_write net (sk_fd sk) data w = (Inl errno, w2)"
  shows "echo_resume net sk revent (Reading, w) =
      (if errno \<in> range errc_value then Inr (Ended, w1) else Inl Aborted) \<and>
    echo_resume net sk revent (Writing data, w) =
      (if errno \<in> range errc_value then Inr (Ended, w2) else Inl Aborted) \<and>
    example_resume net sk revent (Reading, w) = echo_resume net sk revent (Reading, w) \<and>
    example_resume net sk revent (Writing data, w) = Inl Assert_failed \<and>
    one_time_resume net sk revent (Reading, w) = Inr (Ended, w1) \<and>
    one_time_resume net sk revent (Writing data, w) = Inr (Reading, w2) \<and>
    104 \<notin> range errc_value"
proof -
  have events: "revent AND ev_ERROR = 0" "revent AND (ev_HANGUP OR ev_RDHANGUP) = 0"
    using assms(2) by (auto simp: bit.conj_disj_distrib or_eq_0_iff)
  then have r: "read_resume net sk buffer_size revent w = Inr (Error (trans_error_code errno), w1)"
    "write_resume net sk data revent w = (Error (trans_error_code errno), w2)"
    using assms by (simp_all add: read_resume_def write_resume_def)
  have "res_bind (error_code_message (trans_error_code errno)) (\<lambda>_. x) =
      (if errno \<in> range errc_value then x else Inl Aborted)" for x :: "(session \<times> 'a) result"
    unfolding error_code_message_def ec_value_trans_error_code
  proof (cases "errno \<in> range errc_value")
    case True
    then obtain m where "message errno = Inr m" using message_of_errc by blast
    with True show "res_bind (message errno) (\<lambda>_. x) = (if errno \<in> range errc_value then x else Inl Aborted)" by simp
  next
    case False
    then have "message errno = Inl Aborted" by (auto simp: message_def switch_on_Aborted)
    with False show "res_bind (message errno) (\<lambda>_. x) = (if errno \<in> range errc_value then x else Inl Aborted)" by simp
  qed
  moreover have "104 \<noteq> errc_value e" for e by (cases e) simp_all
  then have "104 \<notin> range errc_value" by blast
  ultimately show ?thesis
    using r by (simp add: echo_resume_def example_resume_def one_time_resume_def)
qed

theorem session_error_outcome_witness:
  "echo_resume echo_net (sock_wrap 7 IPv4 PEER) 1 (Reading, echo_start [Inl 104] []) = Inl Aborted \<and>
   echo_resume (echo_net\<lparr>net_write := (\<lambda>fd data w. (Inl 104, w))\<rparr>) (sock_wrap 7 IPv4 PEER) 1
     (Writing ''hello'', echo_start [Inl 104] []) = Inl Aborted"
proof -
  let ?net = "echo_net\<lparr>net_write := (\<lambda>fd data w. (Inl 104, w))\<rparr>" and ?w = "echo_start [Inl 104] []"
  have "(1 :: event) \<noteq> 0" "(1 :: event) AND (ev_ERROR OR ev_HANGUP OR ev_RDHANGUP) = 0" "\<not> negligible 104"
    by (simp_all add: event_defs negligible_def)
  moreover have "net_read ?net (sk_fd (sock_wrap 7 IPv4 PEER)) buffer_size ?w = (Inl 104, echo_start [] [])"
    "net_write ?net (sk_fd (sock_wrap 7 IPv4 PEER)) ''hello'' ?w = (Inl 104, ?w)"
    by (simp_all add: echo_net_def echo_start_def)
  ultimately have "echo_resume ?net (sock_wrap 7 IPv4 PEER) 1 (Reading, ?w) = Inl Aborted"
    "echo_resume ?net (sock_wrap 7 IPv4 PEER) 1 (Writing ''hello'', ?w) = Inl Aborted"
    using session_error_outcome [of 1 104 ?net "sock_wrap 7 IPv4 PEER" ?w "echo_start [] []" "''hello''" ?w] by simp_all
  moreover have "echo_resume echo_net (sock_wrap 7 IPv4 PEER) 1 (Reading, ?w) =
      echo_resume ?net (sock_wrap 7 IPv4 PEER) 1 (Reading, ?w)"
    by (simp add: echo_resume_def read_resume_def)
  ultimately show ?thesis by simp
qed

text \<open>
  C32. The client of \<open>client.cxx\<close> prints each reply up to its first null character and goes on with
  the next line of its input. A reply that fills the buffer of 1024 bytes makes it write the terminating
  null character outside the buffer.
\<close>

theorem client_prints_reply:
  assumes "revent \<noteq> 0" "revent AND (ev_ERROR OR ev_HANGUP OR ev_RDHANGUP) = 0"
    and "net_read net (sk_fd sk) buffer_size w = (Inr data, w1)" "length data \<le> buffer_size"
    and "length junk = buffer_size"
  shows "shell_resume net tty junk sk revent (Receiving, w) =
    (if length data = buffer_size then Inl Out_of_range
     else Inr (shell_next tty (out_line tty (takeWhile (\<lambda>c. c \<noteq> CHR 0x00) data) w1)))"
proof -
  have events: "revent AND ev_ERROR = 0" "revent AND (ev_HANGUP OR ev_RDHANGUP) = 0"
    using assms(2) by (auto simp: bit.conj_disj_distrib or_eq_0_iff)
  then have r: "read_resume net sk buffer_size revent w = Inr (Value data, w1)"
    using assms by (simp add: read_resume_def)
  have "takeWhile (\<lambda>c. c \<noteq> CHR 0x00) ((data @ drop (length data) junk)[length data := CHR 0x00]) =
      takeWhile (\<lambda>c. c \<noteq> CHR 0x00) data" if less: "length data < buffer_size"
  proof -
    from less assms(5) obtain c rest where "drop (length data) junk = c # rest"
      by (cases "drop (length data) junk") auto
    then have "(data @ drop (length data) junk)[length data := CHR 0x00] = data @ CHR 0x00 # rest"
      by (simp add: list_update_append)
    then show ?thesis by (simp add: takeWhile_tail)
  qed
  with r assms(4,5) show ?thesis
    by (auto simp: shell_resume_def print_buffer_def vec_set_def)
qed

theorem client_prints_reply_witness:
  "shell_resume (echo_net\<lparr>net_read := (\<lambda>fd len w. (Inr (replicate 1024 (CHR ''x'')), w))\<rparr>)
     \<lparr>in_line = (\<lambda>w. (None, w)), out_line = (\<lambda>l w. w\<lparr>ew_sent := l\<rparr>)\<rparr> (replicate 1024 (CHR ''?''))
     (sock_wrap 7 IPv4 PEER) 1 (Receiving, echo_start [] []) = Inl Out_of_range"
  by (subst client_prints_reply [where data = "replicate 1024 (CHR ''x'')" and ?w1.0 = "echo_start [] []"])
    (simp_all add: event_defs buffer_size_def)

end
