(* ===== verification/BC_Event_Loop.thy ===== *)
theory BC_Event_Loop
  imports BC_Handlers
begin

text \<open>
  Invariants of programs under the loop, as laws that a program's events have to keep: programs that use
  no timers (\<open>event_loop\<close>), programs of which one coroutine runs at a time and waits in one place
  (\<open>lone_coroutine\<close>), and the loop that waits for events that cannot come.
\<close>

section \<open>The handler of a descriptor\<close>

text \<open>
  How the handler of a descriptor ends: the list is spliced out, its nodes are run, what is left is
  spliced in and the registration brought up to date.
\<close>

lemma handle_event_parts:
  assumes "handle_event n sys fd e (s, w) = Inr (s', w')"
  obtains kept s1 w1 where "0 \<le> fd"
    "nodes_of (s\<lparr>descriptor_nodes := (descriptor_nodes s)[nat fd := []]\<rparr>) = (nodes_of s)(fd := [])"
    "handle_nodes n sys e [] (nodes_of s fd)
       (s\<lparr>descriptor_nodes := (descriptor_nodes s)[nat fd := []]\<rparr>, w) = Inr (kept, s1, w1)"
    "nodes_of s' = (nodes_of s1)(fd := kept @ nodes_of s1 fd)" "time_nodes s' = time_nodes s1"
    "poller_subscribe sys fd (node_events (kept @ nodes_of s1 fd)) (the_poller s1, w1) = Inr (the_poller s', w')"
proof -
  let ?s = "s\<lparr>descriptor_nodes := (descriptor_nodes s)[nat fd := []]\<rparr>"
  from assms obtain kept s1 w1 where fd: "0 \<le> fd" "nat fd < length (descriptor_nodes s)"
    and nodes: "handle_nodes n sys e [] (nodes_of s fd) (?s, w) = Inr (kept, s1, w1)"
    and fd1: "nat fd < length (descriptor_nodes s1)"
    and upd: "update_descriptor sys fd
        (s1\<lparr>descriptor_nodes := (descriptor_nodes s1)[nat fd := kept @ nodes_of s1 fd]\<rparr>, w1) = Inr (s', w')"
    by (auto simp: handle_event_def Let_def nodes_of_def split: if_splits)
  from that [OF fd(1) nodes_of_update [OF fd, of "[]"] nodes] splice_in_effect [OF fd(1) fd1 upd] show ?thesis
    by simp
qed

text \<open>An event on a descriptor nothing waits for.\<close>

lemma handle_event_nobody:
  assumes "nodes_of s fd = []" "handle_event n sys fd e (s, w) = Inr (s', w')"
  shows "nodes_of s' = nodes_of s" "time_nodes s' = time_nodes s"
    "poller_subscribe sys fd 0 (the_poller s, w) = Inr (the_poller s', w')"
proof -
  have "nodes_of s' = nodes_of s \<and> time_nodes s' = time_nodes s \<and>
    poller_subscribe sys fd 0 (the_poller s, w) = Inr (the_poller s', w')"
    using assms(2)
  proof (rule handle_event_parts)
    fix kept s1 w1
    let ?s = "s\<lparr>descriptor_nodes := (descriptor_nodes s)[nat fd := []]\<rparr>"
    assume out: "nodes_of ?s = (nodes_of s)(fd := [])"
      and nodes: "handle_nodes n sys e [] (nodes_of s fd) (?s, w) = Inr (kept, s1, w1)"
      and after: "nodes_of s' = (nodes_of s1)(fd := kept @ nodes_of s1 fd)" "time_nodes s' = time_nodes s1"
        "poller_subscribe sys fd (node_events (kept @ nodes_of s1 fd)) (the_poller s1, w1) = Inr (the_poller s', w')"
    from nodes assms(1) have "kept = []" "s1 = ?s" "w1 = w" by simp_all
    with after out assms(1) show ?thesis by (simp add: fun_eq_iff node_events_def ev_NONE_def)
  qed
  then show "nodes_of s' = nodes_of s" "time_nodes s' = time_nodes s"
    "poller_subscribe sys fd 0 (the_poller s, w) = Inr (the_poller s', w')" by simp_all
qed

text \<open>What subscribing does outside is at most a call of \<open>epoll_ctl\<close>.\<close>

lemma subscribe_outside:
  assumes "\<And>op. Q (snd (sys_epoll_ctl sys (epfd q) op fd e w))" "Q w"
    and "poller_subscribe sys fd e (q, w) = Inr (q', w')"
  shows "Q w'"
  using poller_subscribe_Inr(4) [OF assms(3)] assms(1,2) by (auto split: option.splits) (metis snd_conv)

section \<open>The states of the loop\<close>

inductive loop_state :: "'w sys \<Rightarrow> sched \<times> 'w \<Rightarrow> sched \<times> 'w \<Rightarrow> bool" for sys st0 where
  entered: "loop_state sys st0 st0"
| iterated: "loop_state sys st0 st \<Longrightarrow> coro_count (fst st) > 0 \<Longrightarrow> iteration n sys st = Inr st' \<Longrightarrow> loop_state sys st0 st'"

section \<open>Programs without timers\<close>

locale event_loop =
  fixes sys :: "'w sys" and P :: "sched \<Rightarrow> 'w \<Rightarrow> bool"
  assumes no_timers: "P s w \<Longrightarrow> time_nodes s = []"
    and lists: "P s w \<Longrightarrow> nodes_of s' = nodes_of s \<Longrightarrow> time_nodes s' = time_nodes s \<Longrightarrow> P s' w"
    and clock: "P s w \<Longrightarrow> P s (snd (sys_now sys w))"
    and sleeping: "P s w \<Longrightarrow> P s (sys_sleep sys ns w)"
    and waiting: "P s w \<Longrightarrow> P s (snd (sys_epoll_wait sys ep n t w))"
    and event: "P s w \<Longrightarrow> handle_event n sys fd e (s, w) = Inr (s', w') \<Longrightarrow> P s' w'"
begin

lemma triggered_P:
  assumes inv: "P s w" and run: "handle_triggered n sys t (s, w) = Inr (s', w')"
  shows "P s' w'"
proof -
  obtain res w1 where wait: "sys_epoll_wait sys (epfd (the_poller s)) (length (evs (the_poller s))) (ms_of_ns t) w = (res, w1)"
    by fastforce
  with waiting [OF inv] have w1: "P s w1" by (metis snd_conv)
  show ?thesis
  proof (cases "ms_of_ns t < 0")
    case True
    with run inv show ?thesis by (simp add: handle_triggered_def poll_def)
  next
    case False
    show ?thesis
    proof (cases res)
      case (Inl errno)
      with run wait w1 False show ?thesis
        by (auto simp: handle_triggered_def poll_def Let_def split: if_splits)
    next
      case (Inr ready)
      from handle_triggered_ready [OF False wait [unfolded Inr], of n] obtain es s1 where
        s1: "s1 = s\<lparr>the_poller := (the_poller s)\<lparr>evs := es\<rparr>\<rparr>"
        and eq: "handle_triggered n sys t (s, w) =
          deliver the_poller (handle_event n sys) (take (length ready) es) (length es) (s1, w1)" .
      let ?P = "\<lambda>st. P (fst st) (snd st)"
      have start: "?P (s1, w1)" using lists [OF w1] by (simp add: s1)
      have "?P (s', w')"
        by (rule deliver_keeps [where P = ?P, OF _ start run [unfolded eq]]) (metis event prod.collapse)
      then show ?thesis by simp
    qed
  qed
qed

lemma iteration_P:
  assumes inv: "P s w" and run: "iteration n sys (s, w) = Inr (s', w')"
  shows "P s' w'"
proof -
  note timers = no_timers [OF inv]
  obtain now w1 where now: "sys_now sys w = (now, w1)" by fastforce
  with clock [OF inv] have w1: "P s w1" by (metis snd_conv)
  have "handle_expired n sys 0 (s, w) = Inr (False, s, w) \<or> n = 0"
    using timers by (cases n) auto
  with run have n: "handle_expired n sys 0 (s, w) = Inr (False, s, w)" by (auto simp: iteration_def)
  show ?thesis
  proof (cases "coro_count s > length (time_nodes s)")
    case True
    with run n now have "handle_triggered n sys (next_period (time_nodes s) now) (s, w1) = Inr (s', w')"
      by (simp add: iteration_def Let_def)
    from triggered_P [OF w1 this] show ?thesis .
  next
    case False
    with run n now sleeping [OF w1] show ?thesis by (auto simp: iteration_def Let_def)
  qed
qed

lemma loop_state_P:
  "loop_state sys (s0, w0) (s, w) \<Longrightarrow> P s0 w0 \<Longrightarrow> P s w"
proof (induction "(s, w)" arbitrary: s w rule: loop_state.induct)
  case (iterated st n)
  then show ?case using iteration_P [of "fst st" "snd st" n s w] by (metis prod.collapse)
qed

lemma run_P:
  "P s w \<Longrightarrow> run n sys (s, w) = Inr (s', w') \<Longrightarrow> P s' w' \<and> coro_count s' = 0"
proof (induction n arbitrary: s w)
  case (Suc n)
  show ?case
  proof (cases "coro_count s = 0")
    case False
    with Suc.prems(2) obtain s1 w1 where one: "iteration n sys (s, w) = Inr (s1, w1)"
      and more: "run n sys (s1, w1) = Inr (s', w')" by auto
    from Suc.IH [OF iteration_P [OF Suc.prems(1) one] more] show ?thesis .
  qed (use Suc.prems in simp)
qed simp

end

section \<open>Programs with one coroutine\<close>

text \<open>Where a single node waits.\<close>

fun lone_nodes :: "(int \<times> node) option \<Rightarrow> int \<Rightarrow> node list" where
  "lone_nodes None = (\<lambda>_. [])"
| "lone_nodes (Some (fd, nd)) = (\<lambda>_. [])(fd := [nd])"

text \<open>
  \<open>waits\<close> tells from the outside state, in which the coroutine's frame is, what the coroutine waits for;
  the body law says that running its node leads to the next such state, or leaves the node in place.
\<close>

locale lone_coroutine =
  fixes sys :: "'w sys" and waits :: "'w \<Rightarrow> (int \<times> node) option" and inv :: "'w \<Rightarrow> bool"
  assumes calls:
      "inv w \<Longrightarrow> inv (snd (sys_now sys w)) \<and> waits (snd (sys_now sys w)) = waits w"
      "inv w \<Longrightarrow> inv (sys_sleep sys ns w) \<and> waits (sys_sleep sys ns w) = waits w"
      "inv w \<Longrightarrow> inv (snd (sys_epoll_wait sys ep n t w)) \<and> waits (snd (sys_epoll_wait sys ep n t w)) = waits w"
      "inv w \<Longrightarrow> inv (snd (sys_epoll_ctl sys ep op fd e w)) \<and> waits (snd (sys_epoll_ctl sys ep op fd e w)) = waits w"
    and body: "inv w \<Longrightarrow> waits w = Some (fd, nd) \<Longrightarrow> nodes_of s = (\<lambda>_. []) \<Longrightarrow> time_nodes s = [] \<Longrightarrow>
      run_next sys (nd_next nd) (s, sys_store sys (nd_revent nd) e w) = Inr (ready, s', w') \<Longrightarrow>
      inv w' \<and> time_nodes s' = [] \<and> (\<not> ready \<longrightarrow> waits w' = waits w) \<and>
      nodes_of s' = (if ready then lone_nodes (waits w') else (\<lambda>_. []))"
begin

definition settled :: "sched \<Rightarrow> 'w \<Rightarrow> bool" where
  "settled s w \<longleftrightarrow> inv w \<and> time_nodes s = [] \<and> nodes_of s = lone_nodes (waits w)"

lemma settled_subscribe:
  assumes "settled s w" "poller_subscribe sys fd e (q, w) = Inr (q', w')"
  shows "settled s w'"
  by (rule subscribe_outside [where Q = "settled s", OF _ assms(1) assms(2)])
    (use assms(1) calls(4) in \<open>auto simp: settled_def\<close>)

lemma lone_node_run:
  assumes "inv w" "waits w = Some (fd, nd)" "nodes_of s = (\<lambda>_. [])" "time_nodes s = []"
    and "handle_nodes n sys e [] [nd] (s, w) = Inr (kept, s', w')"
  shows "inv w' \<and> time_nodes s' = [] \<and>
    (kept = [] \<and> nodes_of s' = lone_nodes (waits w') \<or> kept = [nd] \<and> nodes_of s' = (\<lambda>_. []) \<and> waits w' = waits w)"
  using assms
proof (induction n arbitrary: s w)
  case (Suc n)
  show ?case
  proof (cases "nd_ev nd AND e = 0")
    case True
    with Suc.prems show ?thesis by auto
  next
    case False
    with Suc.prems(5) obtain ready s1 w1 where
      one: "run_next sys (nd_next nd) (s, sys_store sys (nd_revent nd) e w) = Inr (ready, s1, w1)"
      and more: "(if ready then handle_nodes n sys e [] [] (s1\<lparr>coro_count := size_dec (coro_count s1)\<rparr>, w1)
        else handle_nodes n sys e [] [nd] (s1, w1)) = Inr (kept, s', w')"
      by (auto split: if_splits)
    note after = body [OF Suc.prems(1-4) one]
    show ?thesis
    proof (cases ready)
      case True
      with more after show ?thesis by auto
    next
      case False
      with more after Suc.prems(2) Suc.IH [of w1 s1] show ?thesis by auto
    qed
  qed
qed simp

lemma settled_event:
  assumes "settled s w" and run: "handle_event n sys fd e (s, w) = Inr (s', w')"
  shows "settled s' w'"
proof (cases "\<exists>nd. waits w = Some (fd, nd)")
  case False
  with assms(1) have nobody: "nodes_of s fd = []"
    by (cases "waits w") (auto simp: settled_def)
  note after = handle_event_nobody [OF nobody run]
  from settled_subscribe [OF assms(1) after(3)] after(1,2) show ?thesis by (simp add: settled_def)
next
  case True
  then obtain nd where nd: "waits w = Some (fd, nd)" by blast
  from run show ?thesis
  proof (rule handle_event_parts)
    fix kept s1 w1
    let ?s = "s\<lparr>descriptor_nodes := (descriptor_nodes s)[nat fd := []]\<rparr>"
    assume out: "nodes_of ?s = (nodes_of s)(fd := [])"
      and nodes: "handle_nodes n sys e [] (nodes_of s fd) (?s, w) = Inr (kept, s1, w1)"
      and after: "nodes_of s' = (nodes_of s1)(fd := kept @ nodes_of s1 fd)" "time_nodes s' = time_nodes s1"
      and sub: "poller_subscribe sys fd (node_events (kept @ nodes_of s1 fd)) (the_poller s1, w1) = Inr (the_poller s', w')"
    have empty: "nodes_of ?s = (\<lambda>_. [])" using out assms(1) nd by (simp add: settled_def fun_eq_iff)
    have one: "handle_nodes n sys e [] [nd] (?s, w) = Inr (kept, s1, w1)"
      using nodes assms(1) nd by (simp add: settled_def)
    have "inv w" "time_nodes ?s = []" using assms(1) by (simp_all add: settled_def)
    from lone_node_run [OF this(1) nd empty this(2) one] after nd have "settled s' w1"
      by (auto simp: settled_def fun_eq_iff)
    then show ?thesis by (rule settled_subscribe [OF _ sub])
  qed
qed

end

sublocale lone_coroutine \<subseteq> lone_loop: event_loop sys settled
proof (unfold_locales, goal_cases)
  case (6 s w n fd e s' w')
  then show ?case by (rule settled_event)
qed (simp_all add: settled_def calls)

context lone_coroutine
begin

text \<open>The loop is left only when the coroutine waits no more.\<close>

lemma loop_state_settled:
  assumes "loop_state sys (s0, w0) (s, w)" "settled s0 w0" "counted 0 None s0 w0"
  shows "settled s w \<and> counted 0 None s w"
proof -
  from assms(1) have "counted 0 None (fst (s, w)) (snd (s, w))"
  proof (induction "(s, w)" arbitrary: s w rule: loop_state.induct)
    case (iterated st n)
    then show ?case using count.iteration_R [of sys 0 "fst st" "snd st" n s w] by simp
  qed (use assms(3) in simp)
  with lone_loop.loop_state_P [OF assms(1,2)] show ?thesis by simp
qed

lemma run_settled:
  assumes "settled s w" "counted 0 None s w" "run n sys (s, w) = Inr (s', w')"
  shows "settled s' w' \<and> waits w' = None"
proof -
  from lone_loop.run_P [OF assms(1,3)] have after: "settled s' w'" "coro_count s' = 0" by simp_all
  have "counted 0 None s' w'" by (rule count.run_R [OF _ assms(2,3)]) simp
  with after(2) have "pending s' = 0" by (simp add: counted_def)
  then have "nodes_of s' fd = []" for fd by (simp add: pending_def waiting_nodes_zero)
  with after(1) have "waits w' = None" by (cases "waits w'") (auto simp: settled_def fun_eq_iff split: if_splits)
  with after(1) show ?thesis by simp
qed

end

section \<open>Waiting for events that cannot come\<close>

text \<open>
  If the kernel has nothing to report, the loop goes round for as long as a coroutine is counted: however
  many steps it is given, it does not return.
\<close>

lemma silent_run_never_returns:
  assumes clock: "\<And>w. Q w \<Longrightarrow> Q (snd (sys_now sys w))"
    and wait: "\<And>ep n t w. Q w \<Longrightarrow> Q (snd (sys_epoll_wait sys ep n t w)) \<and>
      (\<forall>ready. fst (sys_epoll_wait sys ep n t w) = Inr ready \<longrightarrow> ready = [])"
  shows "Q w \<Longrightarrow> time_nodes s = [] \<Longrightarrow> 0 < coro_count s \<Longrightarrow> run n sys (s, w) \<noteq> Inr st"
proof (induction n arbitrary: s w)
  case (Suc n)
  let ?now = "sys_now sys w"
  have "run n sys (s', w') \<noteq> Inr st" if one: "iteration n sys (s, w) = Inr (s', w')" for s' w'
  proof -
    have "handle_expired n sys 0 (s, w) = Inr (False, s, w) \<or> n = 0"
      using Suc.prems(2) by (cases n) auto
    with one have "handle_expired n sys 0 (s, w) = Inr (False, s, w)" by (auto simp: iteration_def)
    with one Suc.prems(2,3) have triggered: "handle_triggered n sys (next_period [] (fst ?now)) (s, snd ?now) = Inr (s', w')"
      by (simp add: iteration_def Let_def split_beta)
    have period: "\<not> ms_of_ns (next_period [] (fst ?now)) < 0"
      by (simp add: next_period_def s_period_def ms_of_ns_def)
    obtain res w1 where w1: "sys_epoll_wait sys (epfd (the_poller s)) (length (evs (the_poller s)))
        (ms_of_ns (next_period [] (fst ?now))) (snd ?now) = (res, w1)" by fastforce
    with wait [OF clock [OF Suc.prems(1)], of "epfd (the_poller s)" "length (evs (the_poller s))"
      "ms_of_ns (next_period [] (fst ?now))"] have "Q w1" "\<forall>ready. res = Inr ready \<longrightarrow> ready = []" by simp_all
    moreover have "w' = w1 \<and> time_nodes s' = time_nodes s \<and> coro_count s' = coro_count s"
    proof (cases res)
      case (Inl errno)
      with triggered w1 period show ?thesis
        by (simp add: handle_triggered_def poll_def split: if_splits)
    next
      case (Inr ready)
      with calculation(2) have "ready = []" by simp
      with triggered w1 period Inr show ?thesis
        by (auto simp: handle_triggered_def poll_def Let_def)
    qed
    ultimately show ?thesis using Suc.IH [of w' s'] Suc.prems(2,3) by simp
  qed
  with Suc.prems(3) show ?case by (auto split: sum.splits)
qed simp

end
