(* ===== verification/BC_Sessions.thy ===== *)
theory BC_Sessions
  imports BC_Programs BC_Event_Loop
begin

text \<open>
  The sessions of \<open>main.cpp\<close> and of the two example servers as coroutines under the loop of the scheduler.
  Any number of them, each on a socket of its own, run beside whatever else the program runs: timers,
  callables, coroutines on other descriptors. The body of a session is that of \<open>BC_Programs\<close>, resumed by the
  loop and posting itself again; its state is part of the outside state of the scheduler, as a coroutine's frame is.
\<close>

section \<open>The sessions of the three servers\<close>

datatype session_of = Main_session | Example_session | One_time_session

primrec session_resume :: "session_of \<Rightarrow> 'w net \<Rightarrow> sock \<Rightarrow> event \<Rightarrow> session \<times> 'w \<Rightarrow> (session \<times> 'w) result" where
  "session_resume Main_session = echo_resume"
| "session_resume Example_session = example_resume"
| "session_resume One_time_session = one_time_resume"

text \<open>The one-time server goes on after a failed write, so whole writes do not help it.\<close>

primrec exact_session :: "session_of \<Rightarrow> bool" where
  "exact_session Main_session = True"
| "exact_session Example_session = True"
| "exact_session One_time_session = False"

lemma session_step:
  "session_resume k net sk e (Reading, w) = Inr (ses', w') \<Longrightarrow>
    \<exists>r. read_resume net sk buffer_size e w = Inr (r, w') \<and> ses' = after_reading r"
  "session_resume k net sk e (Writing data, w) = Inr (ses', w') \<Longrightarrow> \<exists>r. write_resume net sk data e w = (r, w')"
  "session_resume k net sk e (Ended, w) \<noteq> Inr (ses', w')"
proof -
  assume "session_resume k net sk e (Reading, w) = Inr (ses', w')"
  then have "echo_resume net sk e (Reading, w) = Inr (ses', w') \<or> one_time_resume net sk e (Reading, w) = Inr (ses', w')"
    by (cases k) (simp_all only: session_resume.simps example_step(1), simp_all)
  then show "\<exists>r. read_resume net sk buffer_size e w = Inr (r, w') \<and> ses' = after_reading r"
    using echo_step(1) one_time_step(1) by (elim disjE) (rule echo_step(1), assumption | rule one_time_step(1), assumption)+
next
  assume step: "session_resume k net sk e (Writing data, w) = Inr (ses', w')"
  show "\<exists>r. write_resume net sk data e w = (r, w')"
  proof (cases k)
    case Main_session
    with echo_step(2) [of net sk e data w ses' w'] step show ?thesis by (simp only: session_resume.simps) blast
  next
    case Example_session
    with example_step(2) [of net sk e data w ses' w'] step show ?thesis by (simp only: session_resume.simps) blast
  next
    case One_time_session
    obtain r w1 where "write_resume net sk data e w = (r, w1)" by fastforce
    with step One_time_session show ?thesis by (simp add: one_time_step(2))
  qed
next
  show "session_resume k net sk e (Ended, w) \<noteq> Inr (ses', w')"
    by (cases k) (simp_all only: session_resume.simps echo_step(3) example_step(3) one_time_step(3) not_False_eq_True)
qed

interpretation kinds: session_machine "session_resume k net sk" "echo_inv (exact_session k) net sk received sent"
  for k and net :: "'w net" and sk received sent
proof (unfold_locales, goal_cases)
  case (1 ses w e ses' w')
  show ?case
  proof (cases k)
    case Main_session
    from 1 show ?thesis unfolding Main_session session_resume.simps exact_session.simps by (rule echo.step_keeps)
  next
    case Example_session
    from 1 show ?thesis unfolding Example_session session_resume.simps exact_session.simps by (rule example.step_keeps)
  next
    case One_time_session
    from 1 show ?thesis unfolding One_time_session session_resume.simps exact_session.simps by (rule one_time.step_keeps)
  qed
qed

section \<open>The sessions as coroutines\<close>

text \<open>
  Where the frames are: the socket of a session, which \<open>co_await\<close> it is in with its data, and the event its
  awaiter is given. The awaiter of the session \<open>h\<close> has its event at the place \<open>h\<close>.
\<close>

record 'w hosting =
  ho_kind :: session_of
  ho_net :: "'w net"
  ho_sock :: "nat \<Rightarrow> sock"
  ho_ses :: "nat \<Rightarrow> 'w \<Rightarrow> session"
  ho_set :: "nat \<Rightarrow> session \<Rightarrow> 'w \<Rightarrow> 'w"
  ho_event :: "nat \<Rightarrow> 'w \<Rightarrow> event"

abbreviation ho_fd :: "'w hosting \<Rightarrow> nat \<Rightarrow> int" where
  "ho_fd p h \<equiv> sk_fd (ho_sock p h)"

text \<open>How a fault in a coroutine ends the process; a session that has ended is not resumed.\<close>

fun ending_of :: "fault \<Rightarrow> ending" where
  "ending_of Aborted = By_abort"
| "ending_of Assert_failed = By_assert"
| "ending_of _ = By_terminate"

text \<open>Suspending in the \<open>co_await\<close> the session has come to, and resuming it up to there.\<close>

definition await_session :: "'w hosting \<Rightarrow> nat \<Rightarrow> session \<Rightarrow> 'w co" where
  "await_session p h ses =
     (case ses of
        Reading \<Rightarrow> read_suspend (ho_sock p h) h h
      | Writing data \<Rightarrow> write_suspend (ho_sock p h) h h
      | Ended \<Rightarrow> Stop True)"

definition session_body :: "'w hosting \<Rightarrow> nat \<Rightarrow> 'w co" where
  "session_body p h =
     (let resumed = (\<lambda>w. session_resume (ho_kind p) (ho_net p) (ho_sock p h) (ho_event p h w) (ho_ses p h w, w)) in
      Effect (\<lambda>w. case resumed w of Inl f \<Rightarrow> w | Inr (ses, w1) \<Rightarrow> ho_set p h ses w1) (\<lambda>w.
        case resumed w of Inl f \<Rightarrow> Die (ending_of f) | Inr (ses, w1) \<Rightarrow> await_session p h ses))"

text \<open>The call of the handler: it runs up to the first \<open>co_await\<close>.\<close>

definition session_begin :: "'w hosting \<Rightarrow> nat \<Rightarrow> 'w co" where
  "session_begin p h = Effect (ho_set p h Reading) (\<lambda>_. await_session p h Reading)"

section \<open>What else the program runs\<close>

text \<open>Everything that leaves the sessions alone: their frames, their streams, their descriptors, their handles.\<close>

definition same_sessions ::
    "'w hosting \<Rightarrow> nat set \<Rightarrow> (nat \<Rightarrow> 'w \<Rightarrow> string) \<Rightarrow> (nat \<Rightarrow> 'w \<Rightarrow> string) \<Rightarrow> 'w \<Rightarrow> 'w \<Rightarrow> bool" where
  "same_sessions p H received sent w w' \<longleftrightarrow>
     (\<forall>h \<in> H. ho_ses p h w' = ho_ses p h w \<and> received h w' = received h w \<and> sent h w' = sent h w)"

primrec leaves :: "nat set \<Rightarrow> int set \<Rightarrow> ('w \<Rightarrow> 'w) set \<Rightarrow> 'w co \<Rightarrow> bool" where
  "leaves H F E (Stop b) = True"
| "leaves H F E (Effect g k) = (g \<in> E \<and> (\<forall>w. leaves H F E (k w)))"
| "leaves H F E (Post_timer tp h c) = (h \<notin> H \<and> leaves H F E c)"
| "leaves H F E (Post_descriptor fd e re nx c) = (fd \<notin> F \<and> nx \<notin> Handle ` H \<and> leaves H F E c)"
| "leaves H F E (Unsubscribe fd c) = (fd \<notin> F \<and> leaves H F E c)"
| "leaves H F E (Die d) = True"

definition others ::
    "'w hosting \<Rightarrow> nat set \<Rightarrow> (nat \<Rightarrow> 'w \<Rightarrow> string) \<Rightarrow> (nat \<Rightarrow> 'w \<Rightarrow> string) \<Rightarrow> 'w co \<Rightarrow> bool" where
  "others p H received sent c \<longleftrightarrow>
     leaves H (ho_fd p ` H) {g. \<forall>w. same_sessions p H received sent w (g w)} c"

text \<open>
  The sessions \<open>H\<close> of a program: each has a descriptor of its own, on which \<open>read\<close> and \<open>write\<close> do what they
  report and touch no other session; the frames are separate; the scheduler's own calls touch none of
  them; resuming a handle of \<open>H\<close> is resuming its session. They are hosted by a program in which all
  else leaves them alone.
\<close>

definition session_contract ::
    "'w hosting \<Rightarrow> nat set \<Rightarrow> (nat \<Rightarrow> 'w \<Rightarrow> string) \<Rightarrow> (nat \<Rightarrow> 'w \<Rightarrow> string) \<Rightarrow> bool" where
  "session_contract p H received sent \<longleftrightarrow>
     inj_on (ho_fd p) H \<and>
     (\<forall>h \<in> H. stream_contract (ho_net p) (ho_fd p h) (received h) (sent h) \<and>
        (\<forall>len w. same_sessions p (H - {h}) received sent w (snd (net_read (ho_net p) (ho_fd p h) len w))) \<and>
        (\<forall>data w. same_sessions p (H - {h}) received sent w (snd (net_write (ho_net p) (ho_fd p h) data w))) \<and>
        (\<forall>ses w. same_sessions p (H - {h}) received sent w (ho_set p h ses w) \<and> ho_ses p h (ho_set p h ses w) = ses \<and>
           received h (ho_set p h ses w) = received h w \<and> sent h (ho_set p h ses w) = sent h w) \<and>
        (\<forall>e w. ho_event p h (sys_store (net_sys (ho_net p)) h e w) = e) \<and>
        sys_resume (net_sys (ho_net p)) h = session_body p h) \<and>
     (\<forall>r e w. same_sessions p H received sent w (sys_store (net_sys (ho_net p)) r e w)) \<and>
     (\<forall>w. same_sessions p H received sent w (snd (sys_now (net_sys (ho_net p)) w))) \<and>
     (\<forall>ns w. same_sessions p H received sent w (sys_sleep (net_sys (ho_net p)) ns w)) \<and>
     (\<forall>ep n t w. same_sessions p H received sent w (snd (sys_epoll_wait (net_sys (ho_net p)) ep n t w))) \<and>
     (\<forall>ep op fd e w. same_sessions p H received sent w (snd (sys_epoll_ctl (net_sys (ho_net p)) ep op fd e w)))"

definition hosted ::
    "'w hosting \<Rightarrow> nat set \<Rightarrow> (nat \<Rightarrow> 'w \<Rightarrow> string) \<Rightarrow> (nat \<Rightarrow> 'w \<Rightarrow> string) \<Rightarrow> bool" where
  "hosted p H received sent \<longleftrightarrow>
     session_contract p H received sent \<and>
     (\<forall>h. h \<notin> H \<longrightarrow> others p H received sent (sys_resume (net_sys (ho_net p)) h)) \<and>
     (\<forall>q. others p H received sent (sys_call (net_sys (ho_net p)) q))"

lemma session_contractD:
  assumes "session_contract p H received sent"
  shows "inj_on (ho_fd p) H"
    "h \<in> H \<Longrightarrow> stream_contract (ho_net p) (ho_fd p h) (received h) (sent h)"
    "h \<in> H \<Longrightarrow> same_sessions p (H - {h}) received sent w (snd (net_read (ho_net p) (ho_fd p h) len w))"
    "h \<in> H \<Longrightarrow> same_sessions p (H - {h}) received sent w (snd (net_write (ho_net p) (ho_fd p h) data w))"
    "h \<in> H \<Longrightarrow> same_sessions p (H - {h}) received sent w (ho_set p h ses w)"
    "h \<in> H \<Longrightarrow> ho_ses p h (ho_set p h ses w) = ses"
    "h \<in> H \<Longrightarrow> received h (ho_set p h ses w) = received h w"
    "h \<in> H \<Longrightarrow> sent h (ho_set p h ses w) = sent h w"
    "h \<in> H \<Longrightarrow> ho_event p h (sys_store (net_sys (ho_net p)) h e w) = e"
    "h \<in> H \<Longrightarrow> sys_resume (net_sys (ho_net p)) h = session_body p h"
    "same_sessions p H received sent w (sys_store (net_sys (ho_net p)) r e w)"
    "same_sessions p H received sent w (snd (sys_now (net_sys (ho_net p)) w))"
    "same_sessions p H received sent w (sys_sleep (net_sys (ho_net p)) ns w)"
    "same_sessions p H received sent w (snd (sys_epoll_wait (net_sys (ho_net p)) ep n t w))"
    "same_sessions p H received sent w (snd (sys_epoll_ctl (net_sys (ho_net p)) ep op fd e w))"
  using assms unfolding session_contract_def by simp_all

lemma hostedD:
  assumes "hosted p H received sent"
  shows "session_contract p H received sent"
    "h \<notin> H \<Longrightarrow> others p H received sent (sys_resume (net_sys (ho_net p)) h)"
    "others p H received sent (sys_call (net_sys (ho_net p)) q)"
  using assms unfolding hosted_def by simp_all

section \<open>Sessions at rest\<close>

text \<open>The node with which a session waits.\<close>

definition session_nodes :: "nat \<Rightarrow> session \<Rightarrow> node list" where
  "session_nodes h ses =
     (case ses of
        Reading \<Rightarrow> [\<lparr>nd_ev = ev_READ OR ev_ERROR OR ev_HANGUP OR ev_RDHANGUP, nd_revent = h, nd_next = Handle h\<rparr>]
      | Writing data \<Rightarrow> [\<lparr>nd_ev = ev_WRITE OR ev_ERROR OR ev_HANGUP, nd_revent = h, nd_next = Handle h\<rparr>]
      | Ended \<Rightarrow> [])"

text \<open>
  Outside the handlers every session that has not ended waits with exactly that node and an ended one with
  none; nothing else refers to a session. Inside the handler of a descriptor its list is spliced out (\<open>out\<close>).
  And what a session has sent is what it received, up to the data it holds.
\<close>

definition at_rest ::
    "'w hosting \<Rightarrow> nat set \<Rightarrow> (nat \<Rightarrow> 'w \<Rightarrow> string) \<Rightarrow> (nat \<Rightarrow> 'w \<Rightarrow> string) \<Rightarrow> int option \<Rightarrow> sched \<Rightarrow> 'w \<Rightarrow> bool" where
  "at_rest p H received sent out s w \<longleftrightarrow>
     (\<forall>x \<in> set (time_nodes s). snd x \<notin> H) \<and>
     (\<forall>fd. fd \<notin> ho_fd p ` H \<longrightarrow> (\<forall>nd \<in> set (nodes_of s fd). nd_next nd \<notin> Handle ` H)) \<and>
     (\<forall>h \<in> H. nodes_of s (ho_fd p h) = (if out = Some (ho_fd p h) then [] else session_nodes h (ho_ses p h w)) \<and>
        echo_inv (exact_session (ho_kind p)) (ho_net p) (ho_sock p h) (received h) (sent h) (ho_ses p h w) w)"

lemma at_restD:
  assumes "at_rest p H received sent out s w"
  shows "x \<in> set (time_nodes s) \<Longrightarrow> snd x \<notin> H"
    "fd \<notin> ho_fd p ` H \<Longrightarrow> nd \<in> set (nodes_of s fd) \<Longrightarrow> nd_next nd \<notin> Handle ` H"
    "h \<in> H \<Longrightarrow> nodes_of s (ho_fd p h) = (if out = Some (ho_fd p h) then [] else session_nodes h (ho_ses p h w))"
    "h \<in> H \<Longrightarrow> echo_inv (exact_session (ho_kind p)) (ho_net p) (ho_sock p h) (received h) (sent h) (ho_ses p h w) w"
  using assms unfolding at_rest_def by blast+

lemma at_rest_same:
  "at_rest p H received sent out s w \<Longrightarrow> same_sessions p H received sent w w' \<Longrightarrow> at_rest p H received sent out s w'"
  by (simp add: at_rest_def same_sessions_def echo_inv_def)

lemma at_rest_sched:
  "at_rest p H received sent out s w \<Longrightarrow> nodes_of s' = nodes_of s \<Longrightarrow>
   \<forall>x \<in> set (time_nodes s'). x \<in> set (time_nodes s) \<or> snd x \<notin> H \<Longrightarrow> at_rest p H received sent out s' w"
  unfolding at_rest_def by auto

lemma subscribe_same:
  assumes "session_contract p H received sent" "poller_subscribe (net_sys (ho_net p)) fd e (q, w) = Inr (q', w')"
  shows "same_sessions p H received sent w w'"
proof (cases "subscribe_op (focus_of q fd) e")
  case None
  with poller_subscribe_Inr(4) [OF assms(2)] show ?thesis by (simp add: same_sessions_def)
next
  case (Some op)
  with poller_subscribe_Inr(4) [OF assms(2)] session_contractD(15) [OF assms(1), of w "epfd q" op fd e] show ?thesis by simp
qed

text \<open>What is apart from the sessions leaves them at rest.\<close>

lemma others_rest:
  assumes hosted: "hosted p H received sent"
  shows "others p H received sent c \<Longrightarrow> at_rest p H received sent out s w \<Longrightarrow>
    run_co (net_sys (ho_net p)) c (s, w) = Inr (b, s', w') \<Longrightarrow> at_rest p H received sent out s' w'"
  unfolding others_def
proof (induction c arbitrary: s w)
  case (Effect g k)
  then have "at_rest p H received sent out s (g w)" by (auto intro: at_rest_same)
  with Effect.IH [of "k w" s "g w"] Effect.prems(1,3) show ?case by simp
next
  case (Post_timer tp h c)
  have "at_rest p H received sent out (post_timer tp h s) w"
    by (rule at_rest_sched [OF Post_timer.prems(2)])
      (use Post_timer.prems(1) in \<open>auto simp: post_timer_def pq_push_def set_insort_key\<close>)
  with Post_timer show ?case by simp
next
  case (Post_descriptor fd e re nx c)
  from Post_descriptor.prems(3) obtain s1 w1 where
    post: "post_descriptor (net_sys (ho_net p)) fd e re nx (s, w) = Inr (s1, w1)"
    and rest: "run_co (net_sys (ho_net p)) c (s1, w1) = Inr (b, s', w')" by auto
  note effect = post_descriptor_effect [OF post]
  from Post_descriptor.prems(1) have apart: "fd \<notin> ho_fd p ` H" "nx \<notin> Handle ` H" by simp_all
  have "nodes_of s1 (ho_fd p h) = nodes_of s (ho_fd p h)" if "h \<in> H" for h
    using that apart(1) by (auto simp: effect(1))
  moreover have "nd_next nd \<notin> Handle ` H" if "g \<notin> ho_fd p ` H" "nd \<in> set (nodes_of s1 g)" for g nd
    using that at_restD(2) [OF Post_descriptor.prems(2)] apart(2) by (cases "g = fd") (auto simp: effect(1))
  ultimately have "at_rest p H received sent out s1 w"
    using Post_descriptor.prems(2) by (simp add: at_rest_def effect(3))
  then have "at_rest p H received sent out s1 w1"
    by (rule at_rest_same [OF _ subscribe_same [OF hostedD(1) [OF hosted] effect(2)]])
  with Post_descriptor.IH [of s1 w1] Post_descriptor.prems(1) rest show ?case by simp
next
  case (Unsubscribe fd c)
  from Unsubscribe.prems(3) obtain s1 w1 where
    un: "sched_unsubscribe (net_sys (ho_net p)) fd (s, w) = Inr (s1, w1)"
    and rest: "run_co (net_sys (ho_net p)) c (s1, w1) = Inr (b, s', w')" by auto
  note effect = sched_unsubscribe_effect [OF un]
  have "at_rest p H received sent out s1 w1"
    by (rule at_rest_same [OF at_rest_sched [OF Unsubscribe.prems(2)] subscribe_same [OF hostedD(1) [OF hosted] effect(1)]])
      (simp_all add: effect)
  with Unsubscribe.IH [of s1 w1] Unsubscribe.prems(1) rest show ?case by simp
qed simp_all

section \<open>A session resumed\<close>

lemma own_descriptor:
  "session_contract p H received sent \<Longrightarrow> h \<in> H \<Longrightarrow> k \<in> H \<Longrightarrow> ho_fd p h = ho_fd p k \<longleftrightarrow> h = k"
  using session_contractD(1) by (metis inj_on_eq_iff)

lemma same_trans:
  "same_sessions p H received sent w w1 \<Longrightarrow> same_sessions p H received sent w1 w2 \<Longrightarrow>
   same_sessions p H received sent w w2"
  by (simp add: same_sessions_def)

lemma same_refl [simp]: "same_sessions p H received sent w w"
  by (simp add: same_sessions_def)

lemma session_resume_same:
  assumes hosted: "session_contract p H received sent" "h \<in> H"
    and step: "session_resume (ho_kind p) (ho_net p) (ho_sock p h) e (ses, w) = Inr (ses', w')"
  shows "same_sessions p (H - {h}) received sent w w'"
proof (cases ses)
  case Reading
  from session_step(1) [OF step [unfolded Reading]] obtain r where
    "read_resume (ho_net p) (ho_sock p h) buffer_size e w = Inr (r, w')" by blast
  then show ?thesis
    by (cases rule: read_resume_cases)
      (use session_contractD(3) [OF hosted, of w buffer_size] in simp_all)
next
  case (Writing data)
  from session_step(2) [OF step [unfolded Writing]] obtain r where "write_resume (ho_net p) (ho_sock p h) data e w = (r, w')" by blast
  then show ?thesis
    by (cases rule: write_resume_cases) (use session_contractD(4) [OF hosted, of w data] in simp_all)
next
  case Ended
  with step show ?thesis by (simp add: session_step(3))
qed

text \<open>Suspending again.\<close>

lemma await_session_rest:
  assumes hosted: "session_contract p H received sent" "h \<in> H"
    and rest: "at_rest p H received sent (Some (ho_fd p h)) s w" and ses: "ho_ses p h w = ses"
    and run: "run_co (net_sys (ho_net p)) (await_session p h ses) (s, w) = Inr (b, s', w')"
  shows "at_rest p H received sent None s' w'"
proof -
  note own = own_descriptor [OF hosted]
  have posted: "at_rest p H received sent None s' w'"
    if post: "post_descriptor (net_sys (ho_net p)) (ho_fd p h) e h (Handle h) (s, w) = Inr (s', w')"
      and node: "session_nodes h ses = [\<lparr>nd_ev = e, nd_revent = h, nd_next = Handle h\<rparr>]" for e
  proof -
    note effect = post_descriptor_effect [OF post]
    have "nodes_of s' (ho_fd p k) = session_nodes k (ho_ses p k w)" if "k \<in> H" for k
      using that at_restD(3) [OF rest, of k] own [of k] ses node by (auto simp: effect(1))
    moreover have "nd_next nd \<notin> Handle ` H" if "g \<notin> ho_fd p ` H" "nd \<in> set (nodes_of s' g)" for g nd
      using that at_restD(2) [OF rest] hosted(2) by (auto simp: effect(1) split: if_splits)
    ultimately have "at_rest p H received sent None s' w"
      using rest by (simp add: at_rest_def effect(3))
    then show ?thesis by (rule at_rest_same [OF _ subscribe_same [OF hosted(1) effect(2)]])
  qed
  show ?thesis
  proof (cases ses)
    case Ended
    have "nodes_of s (ho_fd p k) = session_nodes k (ho_ses p k w)" if "k \<in> H" for k
      using that at_restD(3) [OF rest, of k] own [of k] ses Ended by (auto simp: session_nodes_def)
    with run rest Ended show ?thesis by (simp add: await_session_def at_rest_def)
  qed (use run posted in \<open>auto simp: await_session_def read_suspend_def write_suspend_def session_nodes_def\<close>)
qed

text \<open>The state of one session replaced, the others untouched.\<close>

lemma at_rest_set:
  assumes hosted: "session_contract p H received sent" "h \<in> H"
    and rest: "at_rest p H received sent (Some (ho_fd p h)) s w"
    and same: "same_sessions p (H - {h}) received sent w w1"
    and inv: "echo_inv (exact_session (ho_kind p)) (ho_net p) (ho_sock p h) (received h) (sent h) ses w1"
  shows "at_rest p H received sent (Some (ho_fd p h)) s (ho_set p h ses w1)"
proof -
  let ?w = "ho_set p h ses w1"
  have same': "same_sessions p (H - {h}) received sent w ?w"
    by (rule same_trans [OF same session_contractD(5) [OF hosted]])
  have "nodes_of s (ho_fd p k) = (if Some (ho_fd p h) = Some (ho_fd p k) then [] else session_nodes k (ho_ses p k ?w)) \<and>
      echo_inv (exact_session (ho_kind p)) (ho_net p) (ho_sock p k) (received k) (sent k) (ho_ses p k ?w) ?w" if k: "k \<in> H" for k
  proof (cases "k = h")
    case True
    with inv at_restD(3) [OF rest k] show ?thesis
      by (simp add: echo_inv_def session_contractD(6-8) [OF hosted])
  next
    case False
    with same' k have "ho_ses p k ?w = ho_ses p k w" "received k ?w = received k w" "sent k ?w = sent k w"
      by (simp_all add: same_sessions_def)
    with at_restD(3,4) [OF rest k] show ?thesis by (simp add: echo_inv_def)
  qed
  with rest show ?thesis by (simp add: at_rest_def)
qed

lemma session_body_rest:
  assumes hosted: "session_contract p H received sent" "h \<in> H"
    and rest: "at_rest p H received sent (Some (ho_fd p h)) s w"
    and run: "run_co (net_sys (ho_net p)) (session_body p h) (s, w) = Inr (b, s', w')"
  shows "at_rest p H received sent None s' w'"
proof -
  from run obtain ses w1 where step: "session_resume (ho_kind p) (ho_net p) (ho_sock p h) (ho_event p h w) (ho_ses p h w, w) = Inr (ses, w1)"
    and await: "run_co (net_sys (ho_net p)) (await_session p h ses) (s, ho_set p h ses w1) = Inr (b, s', w')"
    by (auto simp: session_body_def Let_def split: sum.splits)
  have "at_rest p H received sent (Some (ho_fd p h)) s (ho_set p h ses w1)"
    using hosted rest session_resume_same [OF hosted step] kinds.step_keeps [OF at_restD(4) [OF rest hosted(2)] step]
    by (rule at_rest_set)
  from await_session_rest [OF hosted this session_contractD(6) [OF hosted] await] show ?thesis .
qed

text \<open>Beginning a session where none runs, on a stream that has nothing left to send.\<close>

lemma session_begin_rest:
  assumes hosted: "session_contract p H received sent" "h \<in> H"
    and rest: "at_rest p H received sent None s w" and "ho_ses p h w = Ended" "sent h w = received h w"
    and run: "run_co (net_sys (ho_net p)) (session_begin p h) (s, w) = Inr (b, s', w')"
  shows "at_rest p H received sent None s' w'"
proof -
  have "nodes_of s (ho_fd p k) = (if Some (ho_fd p h) = Some (ho_fd p k) then [] else session_nodes k (ho_ses p k w))"
    if "k \<in> H" for k
    using that at_restD(3) [OF rest, of k] assms(4) own_descriptor [OF hosted, of k]
    by (auto simp: session_nodes_def)
  with rest have "at_rest p H received sent (Some (ho_fd p h)) s w" by (simp add: at_rest_def)
  from at_rest_set [OF hosted this same_refl, of Reading] assms(5)
  have "at_rest p H received sent (Some (ho_fd p h)) s (ho_set p h Reading w)" by (simp add: echo_inv_def)
  from await_session_rest [OF hosted this session_contractD(6) [OF hosted]] run show ?thesis by (simp add: session_begin_def)
qed

section \<open>The loop\<close>

lemma other_handle_rest:
  assumes hosted: "hosted p H received sent" and rest: "at_rest p H received sent out s w"
    and "nx \<notin> Handle ` H" and run: "run_next (net_sys (ho_net p)) nx (s, w) = Inr (b, s', w')"
  shows "at_rest p H received sent out s' w'"
proof (cases nx)
  case (Handle k)
  with assms(3) have "others p H received sent (sys_resume (net_sys (ho_net p)) k)"
    using hostedD(2) [OF hosted] by auto
  from others_rest [OF hosted this rest] run Handle show ?thesis by (auto simp: run_next_def resume_def)
next
  case (Proxy q)
  with run others_rest [OF hosted hostedD(3) [OF hosted] rest] show ?thesis by (simp add: run_next_def)
qed

lemma expired_rest:
  assumes hosted: "hosted p H received sent"
  shows "at_rest p H received sent None s w \<Longrightarrow> handle_expired n (net_sys (ho_net p)) k (s, w) = Inr (b, s', w') \<Longrightarrow>
    at_rest p H received sent None s' w'"
proof (induction n arbitrary: k s w)
  case (Suc n)
  let ?sys = "net_sys (ho_net p)"
  show ?case
  proof (cases "time_nodes s = []")
    case True
    with Suc.prems show ?thesis by simp
  next
    case False
    obtain now w1 where now: "sys_now ?sys w = (now, w1)" by fastforce
    with session_contractD(12) [OF hostedD(1) [OF hosted], of w] have w1: "at_rest p H received sent None s w1"
      using at_rest_same [OF Suc.prems(1)] by simp
    show ?thesis
    proof (cases "fst (pq_top (time_nodes s)) \<le> now")
      case late: False
      with Suc.prems(2) False now w1 show ?thesis by simp
    next
      case True
      let ?h = "snd (pq_top (time_nodes s))" and ?s = "s\<lparr>time_nodes := pq_pop (time_nodes s)\<rparr>"
      from Suc.prems(2) True False now obtain s2 w2 where
        res: "resume ?sys ?h (?s, w1) = Inr (s2, w2)"
        and more: "handle_expired n ?sys (k + 1) (s2\<lparr>coro_count := size_dec (coro_count s2)\<rparr>, w2) = Inr (b, s', w')"
        by (auto split: if_splits)
      have top: "pq_top (time_nodes s) \<in> set (time_nodes s)" "set (pq_pop (time_nodes s)) \<subseteq> set (time_nodes s)"
        using False by (cases "time_nodes s"; auto simp: pq_top_def pq_pop_def)+
      have "at_rest p H received sent None ?s w1"
        by (rule at_rest_sched [OF w1]) (use top(2) in auto)
      moreover from at_restD(1) [OF w1 top(1)] have "others p H received sent (sys_resume ?sys ?h)"
        by (rule hostedD(2) [OF hosted])
      ultimately have "at_rest p H received sent None s2 w2"
        using others_rest [OF hosted] res by (auto simp: resume_def)
      then have "at_rest p H received sent None (s2\<lparr>coro_count := size_dec (coro_count s2)\<rparr>) w2"
        by (rule at_rest_sched) simp_all
      from Suc.IH [OF this more] show ?thesis .
    qed
  qed
qed simp

text \<open>The handler of a descriptor no session has.\<close>

lemma other_nodes_rest:
  assumes hosted: "hosted p H received sent"
  shows "at_rest p H received sent None s w \<Longrightarrow> \<forall>nd \<in> set (kept @ nodes). nd_next nd \<notin> Handle ` H \<Longrightarrow>
    handle_nodes n (net_sys (ho_net p)) e kept nodes (s, w) = Inr (kept', s', w') \<Longrightarrow>
    at_rest p H received sent None s' w' \<and> (\<forall>nd \<in> set kept'. nd_next nd \<notin> Handle ` H)"
proof (induction n arbitrary: kept nodes s w)
  case 0
  then show ?case by (cases nodes) auto
next
  case (Suc n)
  show ?case
  proof (cases nodes)
    case Nil
    with Suc.prems show ?thesis by simp
  next
    case (Cons nd rest)
    show ?thesis
    proof (cases "nd_ev nd AND e = 0")
      case True
      with Suc.prems(3) Cons
      have "handle_nodes n (net_sys (ho_net p)) e (kept @ [nd]) rest (s, w) = Inr (kept', s', w')" by simp
      from Suc.IH [OF Suc.prems(1) _ this] Suc.prems(2) Cons show ?thesis by simp
    next
      case False
      let ?sys = "net_sys (ho_net p)"
      from Suc.prems(3) Cons False obtain ready s1 w1 where
        run: "run_next ?sys (nd_next nd) (s, sys_store ?sys (nd_revent nd) e w) = Inr (ready, s1, w1)"
        and more: "(if ready then handle_nodes n ?sys e kept rest (s1\<lparr>coro_count := size_dec (coro_count s1)\<rparr>, w1)
          else handle_nodes n ?sys e kept (nd # rest) (s1, w1)) = Inr (kept', s', w')"
        by auto
      have "at_rest p H received sent None s (sys_store ?sys (nd_revent nd) e w)"
        by (rule at_rest_same [OF Suc.prems(1) session_contractD(11) [OF hostedD(1) [OF hosted]]])
      from other_handle_rest [OF hosted this _ run] Suc.prems(2) Cons
      have s1: "at_rest p H received sent None s1 w1" by simp
      then have s2: "at_rest p H received sent None (s1\<lparr>coro_count := size_dec (coro_count s1)\<rparr>) w1"
        by (rule at_rest_sched) simp_all
      show ?thesis
      proof (cases ready)
        case True
        with more have "handle_nodes n ?sys e kept rest (s1\<lparr>coro_count := size_dec (coro_count s1)\<rparr>, w1) = Inr (kept', s', w')"
          by simp
        from Suc.IH [OF s2 _ this] Suc.prems(2) Cons show ?thesis by simp
      next
        case False
        with more have "handle_nodes n ?sys e kept (nd # rest) (s1, w1) = Inr (kept', s', w')" by simp
        from Suc.IH [OF s1 _ this] Suc.prems(2) Cons show ?thesis by simp
      qed
    qed
  qed
qed

text \<open>The nodes of a session's descriptor.\<close>

lemma session_nodes_rest:
  assumes hosted: "session_contract p H received sent" "h \<in> H"
    and rest: "at_rest p H received sent (Some (ho_fd p h)) s w"
    and run: "handle_nodes n (net_sys (ho_net p)) e [] (session_nodes h (ho_ses p h w)) (s, w) = Inr (kept, s', w')"
  shows "kept = [] \<and> at_rest p H received sent None s' w' \<or>
    kept = session_nodes h (ho_ses p h w) \<and> s' = s \<and> w' = w"
proof (cases "ho_ses p h w = Ended")
  case True
  with run show ?thesis by (simp add: session_nodes_def)
next
  case False
  then obtain ev where nodes: "session_nodes h (ho_ses p h w) = [\<lparr>nd_ev = ev, nd_revent = h, nd_next = Handle h\<rparr>]"
    by (cases "ho_ses p h w") (simp_all add: session_nodes_def)
  with run obtain m where n: "n = Suc m" by (cases n) auto
  let ?sys = "net_sys (ho_net p)" and ?w = "sys_store (net_sys (ho_net p)) h e w"
  show ?thesis
  proof (cases "ev AND e = 0")
    case True
    with run nodes n show ?thesis by simp
  next
    case False
    with run nodes n obtain b s1 w1 where body: "run_co ?sys (session_body p h) (s, ?w) = Inr (b, s1, w1)"
      and over: "kept = []" "s' = s1\<lparr>coro_count := size_dec (coro_count s1)\<rparr>" "w' = w1"
      by (auto simp: run_next_def resume_def session_contractD(10) [OF hosted])
    have "at_rest p H received sent (Some (ho_fd p h)) s ?w"
      by (rule at_rest_same [OF rest session_contractD(11) [OF hosted(1)]])
    from session_body_rest [OF hosted this body] have "at_rest p H received sent None s1 w1" .
    then have "at_rest p H received sent None s' w'"
      unfolding over by (rule at_rest_sched) simp_all
    with over show ?thesis by simp
  qed
qed

text \<open>The handler of a session's descriptor.\<close>

lemma session_event_rest:
  assumes contract: "session_contract p H received sent" and h: "h \<in> H"
    and rest: "at_rest p H received sent None s w"
    and run: "handle_event n (net_sys (ho_net p)) (ho_fd p h) e (s, w) = Inr (s', w')"
  shows "at_rest p H received sent None s' w'"
  using run
proof (rule handle_event_parts)
  fix kept s1 w1
  let ?sys = "net_sys (ho_net p)" and ?fd = "ho_fd p h"
  let ?s = "s\<lparr>descriptor_nodes := (descriptor_nodes s)[nat ?fd := []]\<rparr>"
  assume out: "nodes_of ?s = (nodes_of s)(?fd := [])"
    and nodes: "handle_nodes n ?sys e [] (nodes_of s ?fd) (?s, w) = Inr (kept, s1, w1)"
    and in_nodes: "nodes_of s' = (nodes_of s1)(?fd := kept @ nodes_of s1 ?fd)" and timers: "time_nodes s' = time_nodes s1"
    and sub: "poller_subscribe ?sys ?fd (node_events (kept @ nodes_of s1 ?fd)) (the_poller s1, w1) = Inr (the_poller s', w')"
  have out_rest: "at_rest p H received sent (Some ?fd) ?s w"
  proof -
    have "nodes_of ?s (ho_fd p k) = (if Some ?fd = Some (ho_fd p k) then [] else session_nodes k (ho_ses p k w))"
      if "k \<in> H" for k
      using at_restD(3) [OF rest that] own_descriptor [OF contract h that] unfolding out by auto
    moreover have "nd_next nd \<notin> Handle ` H" if "g \<notin> ho_fd p ` H" "nd \<in> set (nodes_of ?s g)" for g nd
      using that at_restD(2) [OF rest] by (auto simp: out split: if_splits)
    ultimately show ?thesis using rest by (simp add: at_rest_def)
  qed
  have list: "nodes_of s ?fd = session_nodes h (ho_ses p h w)" using at_restD(3) [OF rest h] by simp
  have "at_rest p H received sent None s' w1"
  proof (cases "kept = []")
    case True
    with list session_nodes_rest [OF contract h out_rest nodes [unfolded list]]
    consider "at_rest p H received sent None s1 w1" | "s1 = ?s" "w1 = w" "nodes_of s ?fd = []" by auto
    then show ?thesis
    proof cases
      case 1
      then show ?thesis
        by (rule at_rest_sched) (simp_all add: in_nodes timers True)
    next
      case 2
      with out have "nodes_of s' = nodes_of s" by (simp add: in_nodes True fun_eq_iff)
      with rest 2 show ?thesis by (auto intro: at_rest_sched simp: timers)
    qed
  next
    case False
    with session_nodes_rest [OF contract h out_rest nodes [unfolded list]] list
    have kept: "kept = nodes_of s ?fd" "s1 = ?s" "w1 = w" by auto
    with out have "nodes_of s' = nodes_of s" by (simp add: in_nodes fun_eq_iff)
    with rest kept show ?thesis by (auto intro: at_rest_sched simp: timers)
  qed
  then show ?thesis by (rule at_rest_same [OF _ subscribe_same [OF contract sub]])
qed

lemma event_rest:
  assumes hosted: "hosted p H received sent" and rest: "at_rest p H received sent None s w"
    and run: "handle_event n (net_sys (ho_net p)) fd e (s, w) = Inr (s', w')"
  shows "at_rest p H received sent None s' w'"
proof (cases "fd \<in> ho_fd p ` H")
  case True
  with session_event_rest [OF hostedD(1) [OF hosted] _ rest] run show ?thesis by auto
next
  case False
  from run show ?thesis
  proof (rule handle_event_parts)
    fix kept s1 w1
    let ?sys = "net_sys (ho_net p)" and ?s = "s\<lparr>descriptor_nodes := (descriptor_nodes s)[nat fd := []]\<rparr>"
    assume out: "nodes_of ?s = (nodes_of s)(fd := [])"
      and nodes: "handle_nodes n ?sys e [] (nodes_of s fd) (?s, w) = Inr (kept, s1, w1)"
      and in_nodes: "nodes_of s' = (nodes_of s1)(fd := kept @ nodes_of s1 fd)" and timers: "time_nodes s' = time_nodes s1"
      and sub: "poller_subscribe ?sys fd (node_events (kept @ nodes_of s1 fd)) (the_poller s1, w1) = Inr (the_poller s', w')"
    have "nodes_of ?s (ho_fd p k) = nodes_of s (ho_fd p k)" if "k \<in> H" for k
      using that False by (auto simp: out)
    moreover have "nd_next nd \<notin> Handle ` H" if "g \<notin> ho_fd p ` H" "nd \<in> set (nodes_of ?s g)" for g nd
      using that at_restD(2) [OF rest] by (auto simp: out split: if_splits)
    ultimately have "at_rest p H received sent None ?s w" using rest by (simp add: at_rest_def)
    from other_nodes_rest [OF hosted this _ nodes] at_restD(2) [OF rest False]
    have s1: "at_rest p H received sent None s1 w1" and kept: "\<forall>nd \<in> set kept. nd_next nd \<notin> Handle ` H" by auto
    have "nodes_of s' (ho_fd p k) = nodes_of s1 (ho_fd p k)" if "k \<in> H" for k
      using that False by (auto simp: in_nodes)
    moreover have "nd_next nd \<notin> Handle ` H" if "g \<notin> ho_fd p ` H" "nd \<in> set (nodes_of s' g)" for g nd
      using that at_restD(2) [OF s1] kept by (auto simp: in_nodes split: if_splits)
    ultimately have "at_rest p H received sent None s' w1" using s1 by (simp add: at_rest_def timers)
    then show ?thesis by (rule at_rest_same [OF _ subscribe_same [OF hostedD(1) [OF hosted] sub]])
  qed
qed

lemma triggered_rest:
  assumes hosted: "hosted p H received sent" and rest: "at_rest p H received sent None s w"
    and run: "handle_triggered n (net_sys (ho_net p)) t (s, w) = Inr (s', w')"
  shows "at_rest p H received sent None s' w'"
proof -
  note contract = hostedD(1) [OF hosted]
  let ?sys = "net_sys (ho_net p)"
  obtain res w1 where wait: "sys_epoll_wait ?sys (epfd (the_poller s)) (length (evs (the_poller s)))
      (ms_of_ns t) w = (res, w1)" by fastforce
  have w1: "at_rest p H received sent None s w1"
    using at_rest_same [OF rest session_contractD(14) [OF contract]] wait by (metis snd_conv)
  show ?thesis
  proof (cases "ms_of_ns t < 0")
    case True
    with run rest show ?thesis by (simp add: handle_triggered_def poll_def)
  next
    case False
    show ?thesis
    proof (cases res)
      case (Inl errno)
      with run wait w1 False show ?thesis
        by (auto simp: handle_triggered_def poll_def Let_def split: if_splits)
    next
      case (Inr ready)
      from handle_triggered_ready [OF False wait [unfolded Inr], of n] obtain es s1 where
        s1: "s1 = s\<lparr>the_poller := (the_poller s)\<lparr>evs := es\<rparr>\<rparr>"
        and eq: "handle_triggered n ?sys t (s, w) =
          deliver the_poller (handle_event n ?sys) (take (length ready) es) (length es) (s1, w1)" .
      let ?P = "\<lambda>st. at_rest p H received sent None (fst st) (snd st)"
      have start: "?P (s1, w1)" using at_rest_sched [OF w1] by (simp add: s1)
      have "?P (s', w')"
        by (rule deliver_keeps [where P = ?P, OF _ start run [unfolded eq]])
          (metis event_rest [OF hosted] prod.collapse)
      then show ?thesis by simp
    qed
  qed
qed

lemma iteration_rest:
  assumes hosted: "hosted p H received sent" and rest: "at_rest p H received sent None s w"
    and run: "iteration n (net_sys (ho_net p)) (s, w) = Inr (s', w')"
  shows "at_rest p H received sent None s' w'"
proof -
  note contract = hostedD(1) [OF hosted]
  let ?sys = "net_sys (ho_net p)"
  from run obtain any s1 w1 where expired: "handle_expired n ?sys 0 (s, w) = Inr (any, s1, w1)"
    and more: "(if any then Inr (s1, w1)
       else let (now, w2) = sys_now ?sys w1; period = next_period (time_nodes s1) now in
         if coro_count s1 > length (time_nodes s1) then handle_triggered n ?sys period (s1, w2)
         else Inr (s1, sys_sleep ?sys period w2)) = Inr (s', w')"
    by (auto simp: iteration_def)
  note r1 = expired_rest [OF hosted rest expired]
  obtain now w2 where now: "sys_now ?sys w1 = (now, w2)" by fastforce
  have r2: "at_rest p H received sent None s1 w2"
    using at_rest_same [OF r1 session_contractD(12) [OF contract]] now by (metis snd_conv)
  show ?thesis
  proof (cases "any \<or> \<not> coro_count s1 > length (time_nodes s1)")
    case True
    with more r1 now at_rest_same [OF r2 session_contractD(13) [OF contract]] show ?thesis
      by (auto simp: Let_def split: if_splits)
  next
    case False
    with more now have "handle_triggered n ?sys (next_period (time_nodes s1) now) (s1, w2) = Inr (s', w')" by simp
    from triggered_rest [OF hosted r2 this] show ?thesis .
  qed
qed

section \<open>The states of a program with sessions\<close>

text \<open>
  A program: it makes its scheduler, starts coroutines that are apart from the sessions, begins sessions
  and iterates the loop, in any order.
\<close>

inductive hosting_state ::
    "'w hosting \<Rightarrow> nat set \<Rightarrow> (nat \<Rightarrow> 'w \<Rightarrow> string) \<Rightarrow> (nat \<Rightarrow> 'w \<Rightarrow> string) \<Rightarrow> sched \<times> 'w \<Rightarrow> bool"
  for p H received sent where
  created: "poller_ctor (net_sys (ho_net p)) w0 = Inr (q, w) \<Longrightarrow>
    \<forall>h \<in> H. ho_ses p h w = Ended \<and> received h w = [] \<and> sent h w = [] \<Longrightarrow>
    hosting_state p H received sent (new_sched q, w)"
| other: "hosting_state p H received sent st \<Longrightarrow> others p H received sent c \<Longrightarrow>
    run_co (net_sys (ho_net p)) c st = Inr (b, st') \<Longrightarrow> hosting_state p H received sent st'"
| begun: "hosting_state p H received sent st \<Longrightarrow> h \<in> H \<Longrightarrow> ho_ses p h (snd st) = Ended \<Longrightarrow>
    sent h (snd st) = received h (snd st) \<Longrightarrow>
    run_co (net_sys (ho_net p)) (session_begin p h) st = Inr (b, st') \<Longrightarrow> hosting_state p H received sent st'"
| iterated: "hosting_state p H received sent st \<Longrightarrow> coro_count (fst st) > 0 \<Longrightarrow>
    iteration n (net_sys (ho_net p)) st = Inr st' \<Longrightarrow> hosting_state p H received sent st'"

lemma hosting_state_rest:
  assumes hosted: "hosted p H received sent"
  shows "hosting_state p H received sent st \<Longrightarrow>
    at_rest p H received sent None (fst st) (snd st) \<and> counted 0 None (fst st) (snd st)"
proof (induction rule: hosting_state.induct)
  case (created w0 q w)
  have "nodes_of (new_sched q) fd = []" for fd by (simp add: nodes_of_def new_sched_def)
  with created show ?case
    by (auto simp: at_rest_def new_sched_def session_nodes_def echo_inv_def counted_def pending_def waiting_nodes_def)
next
  case (other st c b st')
  have "at_rest p H received sent None (fst st') (snd st')"
    by (rule others_rest [OF hosted other.hyps(2), of None "fst st" "snd st" b])
      (use other in simp_all)
  moreover have "counted 0 None (fst st') (snd st')"
    by (rule count.run_co_R [of c 0 None "fst st" "snd st" "net_sys (ho_net p)" b]) (use other in simp_all)
  ultimately show ?case by simp
next
  case (begun st h b st')
  have "at_rest p H received sent None (fst st') (snd st')"
    by (rule session_begin_rest [OF hostedD(1) [OF hosted] begun.hyps(2), of "fst st" "snd st" b]) (use begun in simp_all)
  moreover have "counted 0 None (fst st') (snd st')"
    by (rule count.run_co_R [of "session_begin p h" 0 None "fst st" "snd st" "net_sys (ho_net p)" b])
      (use begun in simp_all)
  ultimately show ?case by simp
next
  case (iterated st n st')
  have "at_rest p H received sent None (fst st') (snd st')"
    by (rule iteration_rest [OF hosted, of "fst st" "snd st" n]) (use iterated in simp_all)
  moreover have "counted 0 None (fst st') (snd st')"
    by (rule count.iteration_R [of "net_sys (ho_net p)" 0 "fst st" "snd st" n]) (use iterated in simp_all)
  ultimately show ?case by simp
qed

lemma run_hosting_state:
  "hosting_state p H received sent st \<Longrightarrow> run n (net_sys (ho_net p)) st = Inr st' \<Longrightarrow>
   hosting_state p H received sent st' \<and> coro_count (fst st') = 0"
proof (induction n arbitrary: st)
  case (Suc n)
  show ?case
  proof (cases "coro_count (fst st) = 0")
    case True
    with Suc.prems show ?thesis by simp
  next
    case False
    with Suc.prems(2) obtain st1 where one: "iteration n (net_sys (ho_net p)) st = Inr st1"
      and more: "run n (net_sys (ho_net p)) st1 = Inr st'" by auto
    from iterated [OF Suc.prems(1) _ one] False have "hosting_state p H received sent st1" by simp
    then show ?thesis using more by (rule Suc.IH)
  qed
qed simp

lemma hosting_state_nothing_left:
  assumes "hosted p H received sent" "hosting_state p H received sent st" "coro_count (fst st) = 0" "h \<in> H"
  shows "ho_ses p h (snd st) = Ended"
proof -
  from hosting_state_rest [OF assms(1,2)] assms(3)
  have rest: "at_rest p H received sent None (fst st) (snd st)" and "pending (fst st) = 0"
    by (simp_all add: counted_def)
  then have "nodes_of (fst st) (ho_fd p h) = []" by (simp add: pending_def waiting_nodes_zero)
  with at_restD(3) [OF rest assms(4)] show ?thesis by (auto simp: session_nodes_def split: session.splits)
qed

section \<open>An example\<close>

text \<open>Two sessions on descriptors 5 and 6, with a script of what is read and of the events that arrive.\<close>

record sessions_world =
  sw_ses :: "nat \<Rightarrow> session"
  sw_event :: "nat \<Rightarrow> event"
  sw_input :: "int \<Rightarrow> string list"
  sw_received :: "int \<Rightarrow> string"
  sw_sent :: "int \<Rightarrow> string"
  sw_batches :: "epoll_event list list"

definition sw_read ::
    "int \<Rightarrow> nat \<Rightarrow> 'a sessions_world_scheme \<Rightarrow> (int + string) \<times> 'a sessions_world_scheme" where
  "sw_read fd len w =
     (case sw_input w fd of
        [] \<Rightarrow> (Inl 11, w)
      | data # rest \<Rightarrow>
          (Inr (take len data), w\<lparr>sw_input := (sw_input w)(fd := rest),
             sw_received := (sw_received w)(fd := sw_received w fd @ take len data)\<rparr>))"

definition sw_write ::
    "int \<Rightarrow> string \<Rightarrow> 'a sessions_world_scheme \<Rightarrow> (int + nat) \<times> 'a sessions_world_scheme" where
  "sw_write fd data w = (Inr (length data), w\<lparr>sw_sent := (sw_sent w)(fd := sw_sent w fd @ data)\<rparr>)"

definition sw_wait :: "'a sessions_world_scheme \<Rightarrow> (int + epoll_event list) \<times> 'a sessions_world_scheme" where
  "sw_wait w = (case sw_batches w of [] \<Rightarrow> (Inr [], w) | b # bs \<Rightarrow> (Inr b, w\<lparr>sw_batches := bs\<rparr>))"

definition sw_net :: "(nat \<Rightarrow> 'a sessions_world_scheme co) \<Rightarrow> 'a sessions_world_scheme net" where
  "sw_net bodies = \<lparr>net_sys =
        \<lparr>sys_epoll_create = (\<lambda>w. (Inr 3, w)), sys_close = (\<lambda>fd w. (0, w)), sys_epoll_ctl = (\<lambda>ep op fd e w. (0, w)),
         sys_epoll_wait = (\<lambda>ep n t. sw_wait), sys_now = (\<lambda>w. (0, w)), sys_sleep = (\<lambda>ns w. w),
         sys_store = (\<lambda>r e w. w\<lparr>sw_event := (sw_event w)(r := e)\<rparr>), sys_resume = bodies,
         sys_call = (\<lambda>p. Stop True), sys_done = (\<lambda>h w. False)\<rparr>,
      net_socket = (\<lambda>d p w. (Inl 24, w)), net_reuse = (\<lambda>fd w. (0, w)),
      net_bind = (\<lambda>fd a n w. (0, w)), net_listen = (\<lambda>fd n w. (0, w)), net_connect = (\<lambda>fd a n w. (115, w)),
      net_accept = (\<lambda>fd w. (Inl 11, w)), net_read = sw_read, net_write = sw_write, net_res = (\<lambda>h r w. w)\<rparr>"

definition sw_hosting :: "(nat \<Rightarrow> 'a sessions_world_scheme co) \<Rightarrow> 'a sessions_world_scheme hosting" where
  "sw_hosting bodies = \<lparr>ho_kind = Main_session, ho_net = sw_net bodies, ho_sock = (\<lambda>h. \<lparr>sk_fd = int h, sk_domain = IPv4, sk_role = PEER\<rparr>),
     ho_ses = (\<lambda>h w. sw_ses w h), ho_set = (\<lambda>h ses w. w\<lparr>sw_ses := (sw_ses w)(h := ses)\<rparr>),
     ho_event = (\<lambda>h w. sw_event w h)\<rparr>"

definition two_sessions :: "sessions_world hosting" where
  "two_sessions = sw_hosting (\<lambda>h. if h = 5 \<or> h = 6 then session_body (sw_hosting (\<lambda>_. Stop True)) h else Stop True)"

lemma session_resume_net:
  assumes "net_read net = net_read net'" "net_write net = net_write net'"
  shows "session_resume k net = session_resume k net'"
proof -
  have r: "read_resume net = read_resume net'"
    by (rule ext)+ (simp only: read_resume_def assms)
  have w: "write_resume net = write_resume net'"
    by (rule ext)+ (simp only: write_resume_def assms)
  have "echo_resume net = echo_resume net'" "example_resume net = example_resume net'"
    "one_time_resume net = one_time_resume net'"
    unfolding echo_resume_def example_resume_def one_time_resume_def r w by (rule refl)+
  then show ?thesis by (cases k) simp_all
qed

lemma session_body_bodies: "session_body (sw_hosting b) h = session_body (sw_hosting b') h"
proof -
  have step: "session_resume k (sw_net b) = session_resume k (sw_net b')" for k
    by (rule session_resume_net) (simp_all add: sw_net_def)
  have fields: "ho_net (sw_hosting b) = sw_net b" "ho_net (sw_hosting b') = sw_net b'" "ho_kind (sw_hosting b) = ho_kind (sw_hosting b')"
    "ho_sock (sw_hosting b) = ho_sock (sw_hosting b')" "ho_ses (sw_hosting b) = ho_ses (sw_hosting b')"
    "ho_set (sw_hosting b) = ho_set (sw_hosting b')" "ho_event (sw_hosting b) = ho_event (sw_hosting b')"
    by (simp_all add: sw_hosting_def)
  show ?thesis unfolding session_body_def await_session_def fields step ..
qed

lemma two_sessions_hosted:
  "hosted two_sessions {5, 6} (\<lambda>h w. sw_received w (int h)) (\<lambda>h w. sw_sent w (int h))"
proof -
  have body: "sys_resume (net_sys (ho_net two_sessions)) h = session_body two_sessions h" if "h \<in> {5, 6}" for h
  proof -
    have "sys_resume (net_sys (ho_net two_sessions)) h = session_body (sw_hosting (\<lambda>_. Stop True)) h"
      using that by (auto simp: two_sessions_def sw_hosting_def sw_net_def)
    also have "\<dots> = session_body two_sessions h" unfolding two_sessions_def by (rule session_body_bodies)
    finally show ?thesis .
  qed
  have fields: "net_read (ho_net two_sessions) = sw_read" "net_write (ho_net two_sessions) = sw_write"
    "ho_fd two_sessions h = int h" "ho_ses two_sessions h w = sw_ses w h"
    "ho_set two_sessions h ses w = w\<lparr>sw_ses := (sw_ses w)(h := ses)\<rparr>" "ho_event two_sessions h w = sw_event w h"
    "sys_store (net_sys (ho_net two_sessions)) r e w = w\<lparr>sw_event := (sw_event w)(r := e)\<rparr>"
    "sys_now (net_sys (ho_net two_sessions)) w = (0, w)" "sys_sleep (net_sys (ho_net two_sessions)) ns w = w"
    "sys_epoll_wait (net_sys (ho_net two_sessions)) ep n t w = sw_wait w"
    "sys_epoll_ctl (net_sys (ho_net two_sessions)) ep op fd e w = (0, w)"
    "sys_call (net_sys (ho_net two_sessions)) q = Stop True"
    "h \<notin> {5, 6} \<Longrightarrow> sys_resume (net_sys (ho_net two_sessions)) h = Stop True"
    for h w ses r e ns ep n t op fd q
    by (simp_all add: two_sessions_def sw_hosting_def sw_net_def)
  show ?thesis
    unfolding hosted_def session_contract_def others_def stream_contract_def
    by (intro conjI ballI allI impI)
      (auto simp: fields body inj_on_def same_sessions_def sw_read_def sw_write_def sw_wait_def split: list.splits)
qed

section \<open>Properties\<close>

lemma echo_inv_streams:
  assumes "echo_inv exact net sk received sent ses w" "stream_contract net (sk_fd sk) received sent"
  shows "subseq (sent w) (received w)"
    "exact \<and> writes_whole net (sk_fd sk) \<Longrightarrow> (case ses of Reading \<Rightarrow> received w = sent w
      | Writing data \<Rightarrow> received w = sent w @ data | Ended \<Rightarrow> prefix (sent w) (received w))"
proof -
  from assms have echoing: "echoing (exact \<and> writes_whole net (sk_fd sk)) ses (received w) (sent w)"
    by (simp add: echo_inv_def)
  then show "subseq (sent w) (received w)"
    by (cases ses) (auto intro: subseq_order.trans)
  from echoing show "exact \<and> writes_whole net (sk_fd sk) \<Longrightarrow> (case ses of Reading \<Rightarrow> received w = sent w
      | Writing data \<Rightarrow> received w = sent w @ data | Ended \<Rightarrow> prefix (sent w) (received w))"
    by (cases ses) auto
qed

text \<open>
  C6. The sessions of the three servers under the loop. In every state of a program with any number of sessions on
  descriptors of their own, beside whatever else it runs, a session that has not ended waits on its
  descriptor with exactly one node, for what its \<open>co_await\<close> needs, an ended one with none, and no other
  node and no timer refers to it. What it has sent is what it received, in order, and with whole writes,
  in \<open>main.cpp\<close> and \<open>async-server.cxx\<close>, up to the data in its hands. So the events of the sessions do not mix, and \<open>run\<close> returns only when
  all of them have ended.
\<close>

theorem sessions_under_the_loop:
  assumes hosted: "hosted p H received sent" and state: "hosting_state p H received sent (s, w)" and h: "h \<in> H"
  shows "map nd_next (nodes_of s (ho_fd p h)) = (if ho_ses p h w = Ended then [] else [Handle h]) \<and>
    (\<forall>nd \<in> set (nodes_of s (ho_fd p h)).
       nd_ev nd AND ev_READ \<noteq> 0 \<longleftrightarrow> ho_ses p h w = Reading) \<and>
    (\<forall>fd nd. nd \<in> set (nodes_of s fd) \<and> nd_next nd = Handle h \<longrightarrow> fd = ho_fd p h) \<and>
    h \<notin> snd ` set (time_nodes s) \<and>
    subseq (sent h w) (received h w) \<and>
    (exact_session (ho_kind p) \<and> writes_whole (ho_net p) (ho_fd p h) \<longrightarrow>
       (case ho_ses p h w of Reading \<Rightarrow> received h w = sent h w | Writing data \<Rightarrow> received h w = sent h w @ data
        | Ended \<Rightarrow> prefix (sent h w) (received h w))) \<and>
    (run n (net_sys (ho_net p)) (s, w) = Inr (s', w') \<longrightarrow>
       ho_ses p h w' = Ended \<and> subseq (sent h w') (received h w'))"
proof -
  note contract = hostedD(1) [OF hosted]
  from hosting_state_rest [OF hosted state] have rest: "at_rest p H received sent None s w" by simp
  have nodes: "nodes_of s (ho_fd p h) = session_nodes h (ho_ses p h w)" using at_restD(3) [OF rest h] by simp
  have alone: "fd = ho_fd p h" if "nd \<in> set (nodes_of s fd)" "nd_next nd = Handle h" for fd nd
  proof (cases "fd \<in> ho_fd p ` H")
    case True
    then obtain k where k: "k \<in> H" "fd = ho_fd p k" by auto
    with at_restD(3) [OF rest k(1)] that have "k = h"
      by (auto simp: session_nodes_def split: session.splits)
    with k show ?thesis by simp
  next
    case False
    from at_restD(2) [OF rest False that(1)] that(2) h show ?thesis by simp
  qed
  have timers: "h \<notin> snd ` set (time_nodes s)" using at_restD(1) [OF rest] h by auto
  have ended: "ho_ses p h w' = Ended \<and> subseq (sent h w') (received h w')"
    if "run n (net_sys (ho_net p)) (s, w) = Inr (s', w')"
  proof -
    from run_hosting_state [OF state that] have after: "hosting_state p H received sent (s', w')" "coro_count s' = 0"
      by simp_all
    from hosting_state_rest [OF hosted after(1)] have "at_rest p H received sent None s' w'" by simp
    from echo_inv_streams(1) [OF at_restD(4) [OF this h] session_contractD(2) [OF contract h]]
      hosting_state_nothing_left [OF hosted after(1) _ h] after(2) show ?thesis by simp
  qed
  note streams = echo_inv_streams [OF at_restD(4) [OF rest h] session_contractD(2) [OF contract h]]
  show ?thesis
  proof (intro conjI)
    show "map nd_next (nodes_of s (ho_fd p h)) = (if ho_ses p h w = Ended then [] else [Handle h])"
      by (simp add: nodes session_nodes_def split: session.split)
    show "\<forall>nd \<in> set (nodes_of s (ho_fd p h)). nd_ev nd AND ev_READ \<noteq> 0 \<longleftrightarrow> ho_ses p h w = Reading"
      by (auto simp: nodes session_nodes_def event_defs split: session.split)
    show "\<forall>fd nd. nd \<in> set (nodes_of s fd) \<and> nd_next nd = Handle h \<longrightarrow> fd = ho_fd p h" using alone by blast
  qed (use timers streams ended in auto)
qed

definition two_start :: sessions_world where
  "two_start = \<lparr>sw_ses = (\<lambda>_. Ended), sw_event = (\<lambda>_. 0), sw_input = (\<lambda>fd. if fd = 5 then [''ab''] else [''xyz'']),
     sw_received = (\<lambda>_. ''''), sw_sent = (\<lambda>_. ''''),
     sw_batches = [[\<lparr>ee_events = 1, ee_fd = 5\<rparr>, \<lparr>ee_events = 1, ee_fd = 6\<rparr>], [\<lparr>ee_events = 4, ee_fd = 6\<rparr>, \<lparr>ee_events = 0x10, ee_fd = 5\<rparr>],
       [\<lparr>ee_events = 0x10, ee_fd = 6\<rparr>]]\<rparr>"

definition two_begun :: "(sched \<times> sessions_world) result" where
  "two_begun =
     res_bind (run_co (net_sys (ho_net two_sessions)) (session_begin two_sessions 5)
         (new_sched \<lparr>epfd = 3, focus = [], evs = []\<rparr>, two_start))
       (\<lambda>(b, st). res_bind (run_co (net_sys (ho_net two_sessions)) (session_begin two_sessions 6) st) (\<lambda>(b, st1). Inr st1))"

lemma two_begun_state:
  assumes "two_begun = Inr st"
  shows "hosting_state two_sessions {5, 6} (\<lambda>h w. sw_received w (int h)) (\<lambda>h w. sw_sent w (int h)) st"
proof -
  let ?state = "hosting_state two_sessions {5, 6} (\<lambda>h w. sw_received w (int h)) (\<lambda>h w. sw_sent w (int h))"
  let ?new = "(new_sched \<lparr>epfd = 3, focus = [], evs = []\<rparr>, two_start)"
  have ctor: "poller_ctor (net_sys (ho_net two_sessions)) two_start = Inr (\<lparr>epfd = 3, focus = [], evs = []\<rparr>, two_start)"
    by (simp add: poller_ctor_def two_sessions_def sw_hosting_def sw_net_def)
  have fields: "ho_ses two_sessions h w = sw_ses w h" for h w
    by (simp add: two_sessions_def sw_hosting_def)
  have new: "?state ?new"
    by (rule created [OF ctor]) (simp add: fields two_start_def)
  from assms obtain b1 st1 b2 where one: "run_co (net_sys (ho_net two_sessions)) (session_begin two_sessions 5) ?new = Inr (b1, st1)"
    and two: "run_co (net_sys (ho_net two_sessions)) (session_begin two_sessions 6) st1 = Inr (b2, st)"
    by (auto simp: two_begun_def)
  have st1: "?state st1"
    by (rule begun [OF new _ _ _ one]) (simp_all add: fields two_start_def)
  have "case run_co (net_sys (ho_net two_sessions)) (session_begin two_sessions 5) ?new of
      Inr (b, s, w) \<Rightarrow> sw_ses w 6 = Ended \<and> sw_sent w 6 = [] \<and> sw_received w 6 = [] | Inl f \<Rightarrow> False"
    by code_simp
  with one have "sw_ses (snd st1) 6 = Ended" "sw_sent (snd st1) 6 = []" "sw_received (snd st1) 6 = []"
    by (auto split: prod.splits)
  then show ?thesis by (intro begun [OF st1 _ _ _ two]) (simp_all add: fields)
qed

theorem sessions_under_the_loop_witness:
  "\<exists>st s' w'. two_begun = Inr st \<and> run 4 (net_sys (ho_net two_sessions)) st = Inr (s', w') \<and>
    sw_ses w' 6 = Ended \<and> sw_received w' 5 = ''ab'' \<and> sw_sent w' 5 = [] \<and> sw_sent w' 6 = ''xyz''"
proof -
  have "case res_bind two_begun (run 4 (net_sys (ho_net two_sessions))) of
      Inr (s, w) \<Rightarrow> sw_received w 5 = ''ab'' \<and> sw_sent w 5 = [] \<and> sw_sent w 6 = ''xyz'' | Inl f \<Rightarrow> False"
    by code_simp
  then obtain s w s' w' where st: "two_begun = Inr (s, w)"
    and run: "run 4 (net_sys (ho_net two_sessions)) (s, w) = Inr (s', w')"
    and out: "sw_received w' 5 = ''ab''" "sw_sent w' 5 = []" "sw_sent w' 6 = ''xyz''"
    by (cases two_begun) (auto split: sum.splits prod.splits)
  have "ho_ses two_sessions 6 w' = Ended"
    using sessions_under_the_loop [OF two_sessions_hosted two_begun_state [OF st], of 6 4 s' w'] run by simp
  then have "sw_ses w' 6 = Ended" by (simp add: two_sessions_def sw_hosting_def)
  with st run out show ?thesis by blast
qed

end
