(* ===== verification/BC_Echo_Server.thy ===== *)
theory BC_Echo_Server
  imports BC_Sessions
begin

text \<open>
  The program \<open>main.cpp\<close> as a whole: the server of \<open>server.hpp\<close> with its accepting callable, the sessions it
  starts for the connections it accepts, and the loop of the scheduler that resumes them all. The
  coroutine \<open>run_\<close> is the one of \<open>BC_Server\<close> as a tree of steps, which is proved to do what
  \<open>server_resume\<close> does.
\<close>

section \<open>The coroutine of the server\<close>

text \<open>What comes after a call that gives control back.\<close>

primrec co_bind :: "'w co \<Rightarrow> 'w co \<Rightarrow> 'w co" where
  "co_bind (Stop b) k = k"
| "co_bind (Effect g f) k = Effect g (\<lambda>w. co_bind (f w) k)"
| "co_bind (Post_timer tp h c) k = Post_timer tp h (co_bind c k)"
| "co_bind (Post_descriptor fd e re nx c) k = Post_descriptor fd e re nx (co_bind c k)"
| "co_bind (Unsubscribe fd c) k = Unsubscribe fd (co_bind c k)"
| "co_bind (Die d) k = Die d"

lemma run_co_bind: "run_co sys (co_bind c k) st = res_bind (run_co sys c st) (\<lambda>(b, st1). run_co sys k st1)"
proof (induction c arbitrary: st)
  case (Post_descriptor fd e re nx c)
  show ?case by (cases "contain (post_descriptor sys fd e re nx st)") (simp_all add: Post_descriptor)
next
  case (Unsubscribe fd c)
  show ?case by (cases "contain (sched_unsubscribe sys fd st)") (simp_all add: Unsubscribe)
qed simp_all

text \<open>The destructors of a socket and of a client, and the sweep, followed by \<open>k\<close>.\<close>

definition sock_dtor_co :: "'w net \<Rightarrow> sock \<Rightarrow> 'w co \<Rightarrow> 'w co" where
  "sock_dtor_co net sk k =
     (if sk_fd sk = 0 then k
      else Unsubscribe (sk_fd sk) (Effect (\<lambda>w. snd (sys_close (net_sys net) (sk_fd sk) w)) (\<lambda>_. k)))"

definition client_dtor_co :: "'w net \<Rightarrow> 'w app \<Rightarrow> client \<Rightarrow> 'w co \<Rightarrow> 'w co" where
  "client_dtor_co net app c k =
     Effect (case cl_task c of None \<Rightarrow> (\<lambda>w. w) | Some h \<Rightarrow> app_destroy app h) (\<lambda>_. sock_dtor_co net (cl_sock c) k)"

fun sweep_co :: "'w net \<Rightarrow> 'w app \<Rightarrow> client list \<Rightarrow> (client list \<Rightarrow> 'w co) \<Rightarrow> 'w co" where
  "sweep_co net app [] k = k []"
| "sweep_co net app (c # cs) k =
     (case cl_task c of
        None \<Rightarrow> Die By_terminate
      | Some h \<Rightarrow> Effect (\<lambda>w. w) (\<lambda>w.
          if sys_done (net_sys net) h w then client_dtor_co net app c (sweep_co net app cs k)
          else sweep_co net app cs (\<lambda>cs1. k (c # cs1))))"

lemma run_sock_dtor_co:
  "run_co (net_sys net) (sock_dtor_co net sk k) st = res_bind (sock_dtor net sk st) (run_co (net_sys net) k)"
  by (cases "contain (sched_unsubscribe (net_sys net) (sk_fd sk) st)")
    (auto simp: sock_dtor_co_def sock_dtor_def)

text \<open>The scheduler's lists, and what of the outside state closing keeps.\<close>

lemma sock_dtor_frame:
  assumes dtor: "sock_dtor net sk (s, w) = Inr (s', w')"
  shows "nodes_of s' = nodes_of s" "time_nodes s' = time_nodes s"
    "Q w \<Longrightarrow> (\<And>ep op fd e w. Q w \<Longrightarrow> Q (snd (sys_epoll_ctl (net_sys net) ep op fd e w))) \<Longrightarrow>
     (\<And>fd w. Q w \<Longrightarrow> Q (snd (sys_close (net_sys net) fd w))) \<Longrightarrow> Q w'"
proof -
  have "nodes_of s' = nodes_of s \<and> time_nodes s' = time_nodes s \<and>
    (Q w \<longrightarrow> (\<forall>ep op fd e w. Q w \<longrightarrow> Q (snd (sys_epoll_ctl (net_sys net) ep op fd e w))) \<longrightarrow>
     (\<forall>fd w. Q w \<longrightarrow> Q (snd (sys_close (net_sys net) fd w))) \<longrightarrow> Q w')"
  proof (cases "sk_fd sk = 0")
    case True
    with dtor show ?thesis by (simp add: sock_dtor_def)
  next
    case False
    with dtor obtain s1 w1 where un: "sched_unsubscribe (net_sys net) (sk_fd sk) (s, w) = Inr (s1, w1)"
      and out: "s' = s1" "w' = snd (sys_close (net_sys net) (sk_fd sk) w1)"
      by (auto simp: sock_dtor_def)
    note effect = sched_unsubscribe_effect [OF un]
    have "Q w1" if "Q w" "\<forall>ep op fd e w. Q w \<longrightarrow> Q (snd (sys_epoll_ctl (net_sys net) ep op fd e w))"
      by (rule subscribe_outside [where Q = Q, OF _ that(1) effect(1)]) (use that in blast)
    with effect(2,3) show ?thesis by (simp add: out)
  qed
  then show "nodes_of s' = nodes_of s" "time_nodes s' = time_nodes s"
    "Q w \<Longrightarrow> (\<And>ep op fd e w. Q w \<Longrightarrow> Q (snd (sys_epoll_ctl (net_sys net) ep op fd e w))) \<Longrightarrow>
     (\<And>fd w. Q w \<Longrightarrow> Q (snd (sys_close (net_sys net) fd w))) \<Longrightarrow> Q w'" by blast+
qed

lemma run_client_dtor_co:
  "run_co (net_sys net) (client_dtor_co net app c k) st =
     res_bind (client_dtor net app c st) (run_co (net_sys net) k)"
  by (simp add: client_dtor_co_def client_dtor_def run_sock_dtor_co split: option.split)

lemma run_sweep_co:
  "run_co (net_sys net) (sweep_co net app cs k) st = Inr x \<Longrightarrow>
   \<exists>cs1 st1. sweep net app cs st = Inr (cs1, st1) \<and> run_co (net_sys net) (k cs1) st1 = Inr x"
proof (induction cs arbitrary: k st)
  case (Cons c cs)
  then obtain h where h: "cl_task c = Some h" by (auto split: option.splits)
  show ?case
  proof (cases "sys_done (net_sys net) h (snd st)")
    case True
    with Cons.prems h obtain st1 where "client_dtor net app c st = Inr st1"
      and "run_co (net_sys net) (sweep_co net app cs k) st1 = Inr x"
      by (auto simp: run_client_dtor_co)
    with Cons.IH [OF this(2)] True h show ?thesis by simp
  next
    case False
    with Cons.prems h have "run_co (net_sys net) (sweep_co net app cs (\<lambda>cs1. k (c # cs1))) st = Inr x" by simp
    from Cons.IH [OF this] False h show ?thesis by auto
  qed
qed simp

section \<open>The program\<close>

text \<open>
  The variables of the program: those of the sessions, which have the numbers of their descriptors; the
  server with its list of clients; the result the accepting awaiter holds; and the destruction of a
  session's frame. The coroutine of the server and its callable have the number 0.
\<close>

record 'w echo_main =
  em_host :: "'w hosting"
  em_server :: "'w \<Rightarrow> server"
  em_set :: "server \<Rightarrow> 'w \<Rightarrow> 'w"
  em_result :: "'w \<Rightarrow> (sock, error_code) expected"
  em_forget :: "nat \<Rightarrow> 'w \<Rightarrow> 'w"

abbreviation em_net :: "'w echo_main \<Rightarrow> 'w net" where
  "em_net m \<equiv> ho_net (em_host m)"

abbreviation em_sys :: "'w echo_main \<Rightarrow> 'w sys" where
  "em_sys m \<equiv> net_sys (em_net m)"

text \<open>The handler \<open>main\<close> gives to \<open>start\<close>.\<close>

definition em_app :: "'w echo_main \<Rightarrow> 'w app" where
  "em_app m = \<lparr>app_handler = (\<lambda>sk. session_begin (em_host m) (nat (sk_fd sk))), app_task = (\<lambda>sk w. nat (sk_fd sk)),
     app_destroy = em_forget m\<rparr>"

text \<open>
  A connection: the new client with its session, the sweep over the clients, and the next \<open>co_await\<close>.
\<close>

definition serve_client :: "'w echo_main \<Rightarrow> server \<Rightarrow> sock \<Rightarrow> sock \<Rightarrow> 'w \<Rightarrow> 'w co" where
  "serve_client m srv sk client_sock w =
     co_bind (app_handler (em_app m) client_sock)
       (sweep_co (em_net m) (em_app m)
         (srv_clients srv @ [\<lparr>cl_sock = client_sock, cl_task = Some (app_task (em_app m) client_sock w)\<rparr>])
         (\<lambda>clients. co_bind (accept_suspend sk 0 0)
           (Effect (em_set m (srv\<lparr>srv_clients := clients\<rparr>)) (\<lambda>_. Stop True))))"

text \<open>\<open>run_\<close> from its resumption on, with what \<open>async_accept\<close> has returned.\<close>

definition server_body :: "'w echo_main \<Rightarrow> 'w co" where
  "server_body m = Effect (\<lambda>w. w) (\<lambda>w.
     let srv = em_server m w in
     case srv_sock srv of
       None \<Rightarrow> Die By_terminate
     | Some sk \<Rightarrow>
         (case em_result m w of
            Value client_sock \<Rightarrow> serve_client m srv sk client_sock w
          | Error ec \<Rightarrow>
              (case error_code_message ec of
                 Inl f \<Rightarrow> Die (ending_of f)
               | Inr _ \<Rightarrow>
                   sock_dtor_co (em_net m) sk (Effect (em_set m (srv\<lparr>srv_sock := None\<rparr>)) (\<lambda>_. Stop True)))))"

text \<open>It does what \<open>server_resume\<close> does and stores the server.\<close>

lemma run_server_body:
  assumes "run_co (em_sys m) (server_body m) (s, w) = Inr (b, s', w')"
  obtains srv w1 where "server_resume (em_net m) (em_app m) 0 0 (em_result m w) (em_server m w, s, w) = Inr (srv, s', w1)"
    "w' = em_set m srv w1"
proof -
  let ?srv = "em_server m w"
  from assms obtain sk where sk: "srv_sock ?srv = Some sk"
    by (auto simp: server_body_def Let_def split: option.splits)
  show ?thesis
  proof (cases "em_result m w")
    case (Value client_sock)
    let ?new = "\<lparr>cl_sock = client_sock, cl_task = Some (app_task (em_app m) client_sock w)\<rparr>"
    from assms sk Value obtain b1 st1 where
      handler: "run_co (em_sys m) (app_handler (em_app m) client_sock) (s, w) = Inr (b1, st1)"
      and rest: "run_co (em_sys m) (sweep_co (em_net m) (em_app m) (srv_clients ?srv @ [?new])
        (\<lambda>clients. co_bind (accept_suspend sk 0 0)
          (Effect (em_set m (?srv\<lparr>srv_clients := clients\<rparr>)) (\<lambda>_. Stop True)))) st1 = Inr (b, s', w')"
      by (auto simp: server_body_def serve_client_def Let_def run_co_bind)
    from run_sweep_co [OF rest] obtain cs st2 where
      sweep: "sweep (em_net m) (em_app m) (srv_clients ?srv @ [?new]) st1 = Inr (cs, st2)"
      and "run_co (em_sys m) (co_bind (accept_suspend sk 0 0)
          (Effect (em_set m (?srv\<lparr>srv_clients := cs\<rparr>)) (\<lambda>_. Stop True))) st2 = Inr (b, s', w')" by blast
    then obtain b2 w1 where "run_co (em_sys m) (accept_suspend sk 0 0) st2 = Inr (b2, s', w1)"
      and w': "w' = em_set m (?srv\<lparr>srv_clients := cs\<rparr>) w1"
      by (auto simp: run_co_bind simp del: run_co.simps(4))
    then have "await_accept (em_net m) 0 0 sk st2 = Inr (s', w1)" by (simp add: await_accept_def)
    with handler sweep sk Value
    have "server_resume (em_net m) (em_app m) 0 0 (em_result m w) (?srv, s, w) = Inr (?srv\<lparr>srv_clients := cs\<rparr>, s', w1)"
      by (simp add: server_resume_def add_client_def async_session_def call_handler_def sock_move_def task_assign_def)
    from that [OF this w'] show ?thesis .
  next
    case (Error ec)
    with assms sk obtain t where "error_code_message ec = Inr t"
      by (auto simp: server_body_def Let_def split: sum.splits)
    moreover from this assms sk Error obtain w1 where "sock_dtor (em_net m) sk (s, w) = Inr (s', w1)"
      and w': "w' = em_set m (?srv\<lparr>srv_sock := None\<rparr>) w1"
      by (auto simp: server_body_def Let_def run_sock_dtor_co)
    ultimately have "server_resume (em_net m) (em_app m) 0 0 (em_result m w) (?srv, s, w) = Inr (?srv\<lparr>srv_sock := None\<rparr>, s', w1)"
      using sk Error by (simp add: server_resume_def)
    from that [OF this w'] show ?thesis .
  qed
qed

section \<open>What it runs on\<close>

text \<open>Every positive descriptor but that of the listening socket may be a connection's.\<close>

definition connections :: "sock \<Rightarrow> nat set" where
  "connections L = {h. 0 < h \<and> int h \<noteq> sk_fd L}"

text \<open>Steps that leave the sessions, the server's variables and the set of open descriptors alone.\<close>

definition quiet ::
    "'w echo_main \<Rightarrow> ('w \<Rightarrow> int set) \<Rightarrow> (nat \<Rightarrow> 'w \<Rightarrow> string) \<Rightarrow> (nat \<Rightarrow> 'w \<Rightarrow> string) \<Rightarrow> nat set \<Rightarrow> 'w \<Rightarrow> 'w \<Rightarrow> bool" where
  "quiet m opened received sent H w w' \<longleftrightarrow>
     same_sessions (em_host m) H received sent w w' \<and> em_server m w' = em_server m w \<and> opened w' = opened w"

text \<open>
  The contract: the sessions' (\<open>session_contract\<close>), the descriptors' (\<open>descriptor_contract\<close>), and that the
  variables are separate. A connection that is accepted is new: nothing was received or sent on it. The
  task of a client is done when its session has ended.
\<close>

definition main_contract ::
    "'w echo_main \<Rightarrow> ('w \<Rightarrow> int set) \<Rightarrow> (nat \<Rightarrow> 'w \<Rightarrow> string) \<Rightarrow> (nat \<Rightarrow> 'w \<Rightarrow> string) \<Rightarrow> sock \<Rightarrow> bool" where
  "main_contract m opened received sent L \<longleftrightarrow>
     (let H = connections L; net = em_net m; quiet = quiet m opened received sent in
      ho_kind (em_host m) = Main_session \<and>
      session_contract (em_host m) H received sent \<and> descriptor_contract net opened \<and>
      (\<forall>h. ho_sock (em_host m) h = sock_wrap (int h) (sk_domain L) PEER) \<and>
      sys_resume (em_sys m) 0 = server_body m \<and> sys_call (em_sys m) 0 = accept_proxy net L 0 \<and>
      (\<forall>h \<in> H. \<forall>w. sys_done (em_sys m) h w \<longleftrightarrow> ho_ses (em_host m) h w = Ended) \<and>
      (\<forall>srv w. em_server m (em_set m srv w) = srv \<and> same_sessions (em_host m) H received sent w (em_set m srv w) \<and>
         opened (em_set m srv w) = opened w) \<and>
      (\<forall>r w. em_result m (net_res net 0 r w) = r \<and> quiet H w (net_res net 0 r w)) \<and>
      (\<forall>h w. quiet H w (em_forget m h w)) \<and>
      (\<forall>r e w. quiet H w (sys_store (em_sys m) r e w)) \<and>
      (\<forall>w. quiet H w (snd (sys_now (em_sys m) w))) \<and>
      (\<forall>ns w. quiet H w (sys_sleep (em_sys m) ns w)) \<and>
      (\<forall>ep n t w. quiet H w (snd (sys_epoll_wait (em_sys m) ep n t w))) \<and>
      (\<forall>ep op fd e w. quiet H w (snd (sys_epoll_ctl (em_sys m) ep op fd e w))) \<and>
      (\<forall>fd w. same_sessions (em_host m) H received sent w (snd (sys_close (em_sys m) fd w)) \<and>
         em_server m (snd (sys_close (em_sys m) fd w)) = em_server m w) \<and>
      (\<forall>h len w. quiet {} w (snd (net_read net (int h) len w))) \<and>
      (\<forall>h data w. quiet {} w (snd (net_write net (int h) data w))) \<and>
      (\<forall>h ses w. quiet {} w (ho_set (em_host m) h ses w)) \<and>
      (\<forall>w ep w1. sys_epoll_create (em_sys m) w = (Inr ep, w1) \<longrightarrow> ep \<notin> opened w \<and> opened w1 = insert ep (opened w)) \<and>
      (\<forall>w. case net_accept net (sk_fd L) w of
          (Inl errno, w1) \<Rightarrow> quiet H w w1
        | (Inr fd, w1) \<Rightarrow>
            same_sessions (em_host m) (H - {nat fd}) received sent w w1 \<and> em_server m w1 = em_server m w \<and>
            ho_ses (em_host m) (nat fd) w1 = ho_ses (em_host m) (nat fd) w \<and>
            received (nat fd) w1 = [] \<and> sent (nat fd) w1 = []))"

lemma main_contractD:
  assumes "main_contract m opened received sent L"
  shows "session_contract (em_host m) (connections L) received sent" "descriptor_contract (em_net m) opened"
    "ho_sock (em_host m) h = sock_wrap (int h) (sk_domain L) PEER"
    "sys_resume (em_sys m) 0 = server_body m" "sys_call (em_sys m) 0 = accept_proxy (em_net m) L 0"
    "h \<in> connections L \<Longrightarrow> sys_done (em_sys m) h w \<longleftrightarrow> ho_ses (em_host m) h w = Ended"
    "em_server m (em_set m srv w) = srv"
    "same_sessions (em_host m) (connections L) received sent w (em_set m srv w)" "opened (em_set m srv w) = opened w"
    "em_result m (net_res (em_net m) 0 r w) = r"
    "quiet m opened received sent (connections L) w (net_res (em_net m) 0 r w)"
    "quiet m opened received sent (connections L) w (em_forget m h w)"
    "quiet m opened received sent (connections L) w (sys_store (em_sys m) place e w)"
    "quiet m opened received sent (connections L) w (snd (sys_now (em_sys m) w))"
    "quiet m opened received sent (connections L) w (sys_sleep (em_sys m) ns w)"
    "quiet m opened received sent (connections L) w (snd (sys_epoll_wait (em_sys m) ep n t w))"
    "quiet m opened received sent (connections L) w (snd (sys_epoll_ctl (em_sys m) ep op fd e w))"
    "same_sessions (em_host m) (connections L) received sent w (snd (sys_close (em_sys m) fd w))"
    "em_server m (snd (sys_close (em_sys m) fd w)) = em_server m w"
    "quiet m opened received sent {} w (snd (net_read (em_net m) (int h) len w))"
    "quiet m opened received sent {} w (snd (net_write (em_net m) (int h) data w))"
    "quiet m opened received sent {} w (ho_set (em_host m) h ses w)"
    "sys_epoll_create (em_sys m) w = (Inr ep, w1) \<Longrightarrow> ep \<notin> opened w \<and> opened w1 = insert ep (opened w)"
    "ho_kind (em_host m) = Main_session"
  using assms unfolding main_contract_def Let_def by simp_all

lemma main_contract_accept:
  assumes "main_contract m opened received sent L"
  shows "net_accept (em_net m) (sk_fd L) w = (Inl errno, w1) \<Longrightarrow> quiet m opened received sent (connections L) w w1"
    "net_accept (em_net m) (sk_fd L) w = (Inr fd, w1) \<Longrightarrow>
       same_sessions (em_host m) (connections L - {nat fd}) received sent w w1 \<and> em_server m w1 = em_server m w \<and>
       ho_ses (em_host m) (nat fd) w1 = ho_ses (em_host m) (nat fd) w \<and>
       received (nat fd) w1 = [] \<and> sent (nat fd) w1 = []"
proof -
  from assms have c: "case net_accept (em_net m) (sk_fd L) w of
          (Inl errno, w1) \<Rightarrow> quiet m opened received sent (connections L) w w1
        | (Inr fd, w1) \<Rightarrow>
            same_sessions (em_host m) (connections L - {nat fd}) received sent w w1 \<and> em_server m w1 = em_server m w \<and>
            ho_ses (em_host m) (nat fd) w1 = ho_ses (em_host m) (nat fd) w \<and>
            received (nat fd) w1 = [] \<and> sent (nat fd) w1 = []"
    unfolding main_contract_def Let_def by simp
  then show "net_accept (em_net m) (sk_fd L) w = (Inl errno, w1) \<Longrightarrow> quiet m opened received sent (connections L) w w1"
    by simp
  from c show "net_accept (em_net m) (sk_fd L) w = (Inr fd, w1) \<Longrightarrow>
       same_sessions (em_host m) (connections L - {nat fd}) received sent w w1 \<and> em_server m w1 = em_server m w \<and>
       ho_ses (em_host m) (nat fd) w1 = ho_ses (em_host m) (nat fd) w \<and>
       received (nat fd) w1 = [] \<and> sent (nat fd) w1 = []"
    by simp
qed

section \<open>The state of the program\<close>

text \<open>The clients are connections, and every session that has not ended is the session of one.\<close>

definition owned :: "'w echo_main \<Rightarrow> sock \<Rightarrow> client list \<Rightarrow> 'w \<Rightarrow> bool" where
  "owned m L cs w \<longleftrightarrow>
     (\<forall>c \<in> set cs. cl_task c = Some (nat (cl_fd c)) \<and> nat (cl_fd c) \<in> connections L \<and> 0 < cl_fd c) \<and>
     (\<forall>h \<in> connections L. ho_ses (em_host m) h w \<noteq> Ended \<longrightarrow> int h \<in> cl_fd ` set cs)"

definition accept_nodes :: "server \<Rightarrow> node list" where
  "accept_nodes srv =
     (case srv_sock srv of None \<Rightarrow> [] | Some sk \<Rightarrow> [\<lparr>nd_ev = ev_READ, nd_revent = 0, nd_next = Proxy 0\<rparr>])"

text \<open>
  The sessions are at rest, nothing waits but them and the callable of the server, which is \<open>srv\<close>; in the
  handler of the listening descriptor (\<open>out\<close>) its list is spliced out.
\<close>

definition serving ::
    "'w echo_main \<Rightarrow> (nat \<Rightarrow> 'w \<Rightarrow> string) \<Rightarrow> (nat \<Rightarrow> 'w \<Rightarrow> string) \<Rightarrow> sock \<Rightarrow> bool \<Rightarrow> server \<Rightarrow> sched \<Rightarrow> 'w \<Rightarrow> bool" where
  "serving m received sent L out srv s w \<longleftrightarrow>
     at_rest (em_host m) (connections L) received sent None s w \<and> time_nodes s = [] \<and>
     (\<forall>fd. fd \<noteq> sk_fd L \<and> fd \<notin> int ` connections L \<longrightarrow> nodes_of s fd = []) \<and>
     nodes_of s (sk_fd L) = (if out then [] else accept_nodes srv) \<and>
     (\<forall>sk. srv_sock srv = Some sk \<longrightarrow> sk = L) \<and> owned m L (srv_clients srv) w"

definition em_inv ::
    "'w echo_main \<Rightarrow> ('w \<Rightarrow> int set) \<Rightarrow> (nat \<Rightarrow> 'w \<Rightarrow> string) \<Rightarrow> (nat \<Rightarrow> 'w \<Rightarrow> string) \<Rightarrow> sock \<Rightarrow> int set \<Rightarrow> bool \<Rightarrow>
     sched \<Rightarrow> 'w \<Rightarrow> bool" where
  "em_inv m opened received sent L old out s w \<longleftrightarrow>
     serving m received sent L out (em_server m w) s w \<and> server_holds opened old (em_server m w) w"

lemma quiet_refl [simp]: "quiet m opened received sent H w w"
  by (simp add: quiet_def)

lemma quiet_trans:
  "quiet m opened received sent H w w1 \<Longrightarrow> quiet m opened received sent H w1 w2 \<Longrightarrow> quiet m opened received sent H w w2"
  using same_trans unfolding quiet_def by metis

lemma owned_same:
  "owned m L cs w \<Longrightarrow> same_sessions (em_host m) (connections L) received sent w w' \<Longrightarrow> owned m L cs w'"
  by (simp add: owned_def same_sessions_def)

lemma serving_same:
  "serving m received sent L out srv s w \<Longrightarrow> same_sessions (em_host m) (connections L) received sent w w' \<Longrightarrow>
   serving m received sent L out srv s w'"
  unfolding serving_def
  by (elim conjE, intro conjI) (erule (1) at_rest_same | erule (1) owned_same | assumption)+

lemma em_inv_quiet:
  "em_inv m opened received sent L old out s w \<Longrightarrow> quiet m opened received sent (connections L) w w' \<Longrightarrow>
   em_inv m opened received sent L old out s w'"
  unfolding em_inv_def quiet_def server_holds_def using serving_same by metis

lemma em_fd [simp]: "main_contract m opened received sent L \<Longrightarrow> ho_fd (em_host m) h = int h"
  by (simp add: main_contractD(3) sock_wrap_def)

lemma subscribe_quiet:
  assumes "main_contract m opened received sent L" "poller_subscribe (em_sys m) fd e (q, w) = Inr (q', w')"
  shows "quiet m opened received sent (connections L) w w'"
proof (cases "subscribe_op (focus_of q fd) e")
  case None
  with poller_subscribe_Inr(4) [OF assms(2)] show ?thesis by simp
next
  case (Some op)
  with poller_subscribe_Inr(4) [OF assms(2)] main_contractD(17) [OF assms(1), of w "epfd q" op fd e] show ?thesis by simp
qed

text \<open>The same for a scheduler whose lists are the same.\<close>

lemma serving_sched:
  "serving m received sent L out srv s w \<Longrightarrow> nodes_of s' = nodes_of s \<Longrightarrow> time_nodes s' = time_nodes s \<Longrightarrow>
   serving m received sent L out srv s' w"
  by (simp add: serving_def at_rest_def)

section \<open>The handler of a connection\<close>

text \<open>
  What else it does: it posts on its own descriptor only, what its steps keep is kept, and a session that
  has ended is not resumed.
\<close>

lemma session_resume_keeps:
  assumes "session_resume k net sk e (ses, w) = Inr (ses', w')"
    and "\<And>len. P (snd (net_read net (sk_fd sk) len w))" "\<And>data. P (snd (net_write net (sk_fd sk) data w))" "P w"
  shows "P w'"
proof (cases ses)
  case Reading
  from session_step(1) [OF assms(1) [unfolded Reading]] obtain r where "read_resume net sk buffer_size e w = Inr (r, w')"
    by blast
  then show ?thesis by (cases rule: read_resume_cases) (use assms(2) [of buffer_size] assms(4) in simp_all)
next
  case (Writing data)
  from session_step(2) [OF assms(1) [unfolded Writing]] obtain r where "write_resume net sk data e w = (r, w')" by blast
  then show ?thesis by (cases rule: write_resume_cases) (use assms(3) [of data] assms(4) in simp_all)
qed (use assms(1) in \<open>simp add: session_step(3)\<close>)

lemma await_session_keeps:
  assumes run: "run_co (net_sys (ho_net p)) (await_session p h ses) (s, w) = Inr (b, s', w')"
    and ctl: "\<And>ep op fd e w. P w \<Longrightarrow> P (snd (sys_epoll_ctl (net_sys (ho_net p)) ep op fd e w))" and "P w"
  shows "P w' \<and> time_nodes s' = time_nodes s \<and> (\<forall>g. g \<noteq> ho_fd p h \<longrightarrow> nodes_of s' g = nodes_of s g)"
proof -
  have posted: ?thesis
    if "post_descriptor (net_sys (ho_net p)) (ho_fd p h) e h (Handle h) (s, w) = Inr (s', w')" for e
  proof -
    note effect = post_descriptor_effect [OF that]
    from poller_subscribe_Inr(4) [OF effect(2)] ctl \<open>P w\<close> have "P w'"
      by (auto split: option.splits) (metis snd_conv)
    then show ?thesis by (simp add: effect)
  qed
  show ?thesis
    by (cases ses) (use run posted \<open>P w\<close> in \<open>auto simp: await_session_def read_suspend_def write_suspend_def\<close>)
qed

lemma session_body_keeps:
  assumes run: "run_co (net_sys (ho_net p)) (session_body p h) (s, w) = Inr (b, s', w')"
    and steps: "\<And>len w. P w \<Longrightarrow> P (snd (net_read (ho_net p) (ho_fd p h) len w))"
      "\<And>data w. P w \<Longrightarrow> P (snd (net_write (ho_net p) (ho_fd p h) data w))"
      "\<And>ses w. P w \<Longrightarrow> P (ho_set p h ses w)"
      "\<And>ep op fd e w. P w \<Longrightarrow> P (snd (sys_epoll_ctl (net_sys (ho_net p)) ep op fd e w))"
    and "P w"
  shows "P w' \<and> time_nodes s' = time_nodes s \<and> (\<forall>g. g \<noteq> ho_fd p h \<longrightarrow> nodes_of s' g = nodes_of s g)"
proof -
  from run obtain ses w1 where step: "session_resume (ho_kind p) (ho_net p) (ho_sock p h) (ho_event p h w) (ho_ses p h w, w) = Inr (ses, w1)"
    and await: "run_co (net_sys (ho_net p)) (await_session p h ses) (s, ho_set p h ses w1) = Inr (b, s', w')"
    by (auto simp: session_body_def Let_def split: sum.splits)
  have "P w1"
    by (rule session_resume_keeps [where P = P, OF step])
      (rule steps(1) [OF \<open>P w\<close>] steps(2) [OF \<open>P w\<close>] \<open>P w\<close>)+
  then have "P (ho_set p h ses w1)" by (rule steps(3))
  from await_session_keeps [where P = P, OF await _ this] steps(4) show ?thesis by blast
qed

lemma session_event_keeps:
  assumes contract: "session_contract p H received sent" "h \<in> H" and rest: "at_rest p H received sent None s w"
    and run: "handle_event n (net_sys (ho_net p)) (ho_fd p h) e (s, w) = Inr (s', w')"
    and steps: "\<And>len w. P w \<Longrightarrow> P (snd (net_read (ho_net p) (ho_fd p h) len w))"
      "\<And>data w. P w \<Longrightarrow> P (snd (net_write (ho_net p) (ho_fd p h) data w))"
      "\<And>ses w. P w \<Longrightarrow> P (ho_set p h ses w)"
      "\<And>ep op fd e w. P w \<Longrightarrow> P (snd (sys_epoll_ctl (net_sys (ho_net p)) ep op fd e w))"
      "\<And>e w. P w \<Longrightarrow> P (sys_store (net_sys (ho_net p)) h e w)"
    and "P w"
  shows "P w' \<and> time_nodes s' = time_nodes s \<and> (\<forall>g. g \<noteq> ho_fd p h \<longrightarrow> nodes_of s' g = nodes_of s g) \<and>
    (ho_ses p h w = Ended \<longrightarrow> ho_ses p h w' = Ended)"
  using run
proof (rule handle_event_parts)
  fix kept s1 w1
  let ?sys = "net_sys (ho_net p)" and ?fd = "ho_fd p h"
  let ?s = "s\<lparr>descriptor_nodes := (descriptor_nodes s)[nat ?fd := []]\<rparr>"
  assume out: "nodes_of ?s = (nodes_of s)(?fd := [])"
    and nodes: "handle_nodes n ?sys e [] (nodes_of s ?fd) (?s, w) = Inr (kept, s1, w1)"
    and in_nodes: "nodes_of s' = (nodes_of s1)(?fd := kept @ nodes_of s1 ?fd)" and timers: "time_nodes s' = time_nodes s1"
    and sub: "poller_subscribe ?sys ?fd (node_events (kept @ nodes_of s1 ?fd)) (the_poller s1, w1) = Inr (the_poller s', w')"
  have list: "nodes_of s ?fd = session_nodes h (ho_ses p h w)" using at_restD(3) [OF rest contract(2)] by simp
  have "P w1 \<and> time_nodes s1 = time_nodes s \<and> (\<forall>g. g \<noteq> ?fd \<longrightarrow> nodes_of s1 g = nodes_of s g) \<and>
      (ho_ses p h w = Ended \<longrightarrow> w1 = w)"
  proof (cases "ho_ses p h w = Ended")
    case True
    with nodes list out \<open>P w\<close> show ?thesis by (auto simp: session_nodes_def)
  next
    case False
    then obtain ev where "nodes_of s ?fd = [\<lparr>nd_ev = ev, nd_revent = h, nd_next = Handle h\<rparr>]"
      unfolding list by (cases "ho_ses p h w") (simp_all add: session_nodes_def)
    with nodes have one: "handle_nodes n ?sys e [] [\<lparr>nd_ev = ev, nd_revent = h, nd_next = Handle h\<rparr>] (?s, w) = Inr (kept, s1, w1)"
      by simp
    then obtain k where n: "n = Suc k" by (cases n) auto
    show ?thesis
    proof (cases "ev AND e = 0")
      case True
      with one n out False \<open>P w\<close> show ?thesis by auto
    next
      case hit: False
      with one n obtain b s2 where body: "run_co ?sys (session_body p h) (?s, sys_store ?sys h e w) = Inr (b, s2, w1)"
        and s1: "s1 = s2\<lparr>coro_count := size_dec (coro_count s2)\<rparr>"
        by (auto simp: run_next_def resume_def session_contractD(10) [OF contract])
      have "P w1 \<and> time_nodes s2 = time_nodes ?s \<and> (\<forall>g. g \<noteq> ?fd \<longrightarrow> nodes_of s2 g = nodes_of ?s g)"
        by (rule session_body_keeps [where P = P, OF body])
          (erule steps(1) | erule steps(2) | erule steps(3) | erule steps(4) | rule steps(5) [OF \<open>P w\<close>])+
      with False out show ?thesis by (simp add: s1)
    qed
  qed
  moreover from poller_subscribe_Inr(4) [OF sub] steps(4) have "P w1 \<longrightarrow> P w'"
    by (auto split: option.splits) (metis snd_conv)
  moreover have "ho_ses p h w' = ho_ses p h w1"
    using subscribe_same [OF contract(1) sub] contract(2) by (simp add: same_sessions_def)
  ultimately show ?thesis by (auto simp: in_nodes timers)
qed

lemma connection_event_inv:
  assumes main: "main_contract m opened received sent L" and inv: "em_inv m opened received sent L old False s w"
    and h: "h \<in> connections L" and run: "handle_event n (em_sys m) (int h) e (s, w) = Inr (s', w')"
  shows "em_inv m opened received sent L old False s' w'"
proof -
  let ?H = "connections L" and ?p = "em_host m"
  note contract = main_contractD(1) [OF main] and fd = em_fd [OF main]
  from inv have rest: "at_rest ?p ?H received sent None s w" and srv: "serving m received sent L False (em_server m w) s w"
    and holds: "server_holds opened old (em_server m w) w"
    by (simp_all add: em_inv_def serving_def)
  have run': "handle_event n (em_sys m) (ho_fd ?p h) e (s, w) = Inr (s', w')" using run by (simp add: fd)
  define P where "P = (\<lambda>w1. em_server m w1 = em_server m w \<and> opened w1 = opened w \<and>
    (\<forall>k \<in> ?H - {h}. ho_ses ?p k w1 = ho_ses ?p k w))"
  have via: "P w2" if "P w1" "quiet m opened received sent {} w1 w2" "same_sessions ?p (?H - {h}) received sent w1 w2" for w1 w2
    using that by (simp add: P_def quiet_def same_sessions_def)
  have via_quiet: "P w2" if "P w1" "quiet m opened received sent ?H w1 w2" for w1 w2
    using that by (simp add: P_def quiet_def same_sessions_def)
  have "P w' \<and> time_nodes s' = time_nodes s \<and> (\<forall>g. g \<noteq> ho_fd ?p h \<longrightarrow> nodes_of s' g = nodes_of s g) \<and>
      (ho_ses ?p h w = Ended \<longrightarrow> ho_ses ?p h w' = Ended)"
  proof (rule session_event_keeps [where P = P, OF contract h rest run'])
    fix len w1 assume "P w1"
    then show "P (snd (net_read (em_net m) (ho_fd ?p h) len w1))"
      using via [OF _ main_contractD(20) [OF main, of w1 h len]] session_contractD(3) [OF contract h, of w1 len] fd by metis
  next
    fix data w1 assume "P w1"
    then show "P (snd (net_write (em_net m) (ho_fd ?p h) data w1))"
      using via [OF _ main_contractD(21) [OF main, of w1 h data]] session_contractD(4) [OF contract h, of w1 data] fd by metis
  next
    fix ses w1 assume "P w1"
    then show "P (ho_set ?p h ses w1)"
      by (rule via [OF _ main_contractD(22) [OF main] session_contractD(5) [OF contract h]])
  next
    fix ep op fd e w1 assume "P w1"
    then show "P (snd (sys_epoll_ctl (em_sys m) ep op fd e w1))"
      by (rule via_quiet [OF _ main_contractD(17) [OF main]])
  next
    fix e w1 assume "P w1"
    then show "P (sys_store (em_sys m) h e w1)" by (rule via_quiet [OF _ main_contractD(13) [OF main]])
  qed (simp add: P_def)
  then have same: "em_server m w' = em_server m w" "opened w' = opened w" "time_nodes s' = time_nodes s"
    and others: "k \<in> ?H \<Longrightarrow> k \<noteq> h \<Longrightarrow> ho_ses ?p k w' = ho_ses ?p k w"
    and nodes: "g \<noteq> int h \<Longrightarrow> nodes_of s' g = nodes_of s g"
    and ended: "ho_ses ?p h w = Ended \<Longrightarrow> ho_ses ?p h w' = Ended" for k g
    by (auto simp: P_def fd)
  have "at_rest ?p ?H received sent None s' w'" by (rule session_event_rest [OF contract h rest run'])
  moreover have "owned m L (srv_clients (em_server m w)) w'"
  proof -
    have "ho_ses ?p k w \<noteq> Ended" if "k \<in> ?H" "ho_ses ?p k w' \<noteq> Ended" for k
      using that others [of k] ended by (cases "k = h") auto
    with srv show ?thesis by (simp add: serving_def owned_def)
  qed
  moreover have "sk_fd L \<noteq> int h" using h by (auto simp: connections_def)
  moreover have "nodes_of s' g = nodes_of s g" if "g \<notin> int ` ?H" for g
    by (rule nodes) (use that h in blast)
  ultimately have "serving m received sent L False (em_server m w) s' w'"
    using srv nodes [of "sk_fd L"] same(3) by (simp add: serving_def)
  with holds same(1,2) show ?thesis by (simp add: em_inv_def server_holds_def)
qed

section \<open>Accepting\<close>

text \<open>Beginning a session: what else it does.\<close>

lemma begin_session_keeps:
  assumes main: "main_contract m opened received sent L"
    and run: "run_co (em_sys m) (session_begin (em_host m) h) (s, w) = Inr (b, s', w')" and h: "h \<in> connections L"
  shows "em_server m w' = em_server m w \<and> time_nodes s' = time_nodes s \<and>
    (\<forall>g. g \<noteq> int h \<longrightarrow> nodes_of s' g = nodes_of s g) \<and>
    (\<forall>k \<in> connections L. k \<noteq> h \<longrightarrow> ho_ses (em_host m) k w' = ho_ses (em_host m) k w)"
proof -
  let ?H = "connections L" and ?p = "em_host m"
  define P where "P = (\<lambda>w1. em_server m w1 = em_server m w \<and> (\<forall>k \<in> ?H - {h}. ho_ses ?p k w1 = ho_ses ?p k w))"
  from run have await: "run_co (em_sys m) (await_session ?p h Reading) (s, ho_set ?p h Reading w) = Inr (b, s', w')"
    by (simp add: session_begin_def)
  have "P (ho_set ?p h Reading w)"
    using main_contractD(22) [OF main, of w h Reading] session_contractD(5) [OF main_contractD(1) [OF main] h, of w Reading]
    by (simp add: P_def quiet_def same_sessions_def)
  moreover have "P (snd (sys_epoll_ctl (em_sys m) ep op fd e w1))" if "P w1" for ep op fd e w1
    using that main_contractD(17) [OF main, of w1 ep op fd e] by (simp add: P_def quiet_def same_sessions_def)
  ultimately have "P w' \<and> time_nodes s' = time_nodes s \<and> (\<forall>g. g \<noteq> ho_fd ?p h \<longrightarrow> nodes_of s' g = nodes_of s g)"
    using await_session_keeps [where P = P, OF await] by blast
  then show ?thesis by (simp add: P_def em_fd [OF main])
qed

text \<open>Destroying a socket closes its descriptor and changes nothing else.\<close>

lemma sock_dtor_keeps:
  assumes main: "main_contract m opened received sent L" and dtor: "sock_dtor (em_net m) sk (s, w) = Inr (s', w')"
  shows "same_sessions (em_host m) (connections L) received sent w w' \<and> em_server m w' = em_server m w \<and>
    nodes_of s' = nodes_of s \<and> time_nodes s' = time_nodes s"
proof (cases "sk_fd sk = 0")
  case True
  with dtor show ?thesis by (simp add: sock_dtor_def)
next
  case False
  with dtor obtain s1 w1 where un: "sched_unsubscribe (em_sys m) (sk_fd sk) (s, w) = Inr (s1, w1)"
    and out: "s' = s1" "w' = snd (sys_close (em_sys m) (sk_fd sk) w1)"
    by (auto simp: sock_dtor_def)
  note effect = sched_unsubscribe_effect [OF un]
  from subscribe_quiet [OF main effect(1)] main_contractD(18) [OF main, of w1 "sk_fd sk"]
    main_contractD(19) [OF main, of "sk_fd sk" w1] out effect(2,3)
  show ?thesis by (auto simp: quiet_def intro: same_trans)
qed

text \<open>The sweep removes clients whose session has ended.\<close>

lemma sweep_serves:
  assumes main: "main_contract m opened received sent L"
  shows "sweep (em_net m) (em_app m) cs (s, w) = Inr (cs', s', w') \<Longrightarrow> owned m L (pre @ cs) w \<Longrightarrow>
    same_sessions (em_host m) (connections L) received sent w w' \<and> em_server m w' = em_server m w \<and>
    nodes_of s' = nodes_of s \<and> time_nodes s' = time_nodes s \<and> owned m L (pre @ cs') w'"
proof (induction cs arbitrary: pre s w cs')
  case (Cons c cs)
  let ?h = "nat (cl_fd c)"
  from Cons.prems(2) have h: "cl_task c = Some ?h" "?h \<in> connections L" by (simp_all add: owned_def)
  show ?case
  proof (cases "sys_done (em_sys m) ?h w")
    case True
    with Cons.prems(1) h(1) obtain s1 w1 where dtor: "client_dtor (em_net m) (em_app m) c (s, w) = Inr (s1, w1)"
      and rest: "sweep (em_net m) (em_app m) cs (s1, w1) = Inr (cs', s', w')" by auto
    from main_contractD(6) [OF main h(2)] True have ended: "ho_ses (em_host m) ?h w = Ended" by simp
    from dtor h(1) have "sock_dtor (em_net m) (cl_sock c) (s, em_forget m ?h w) = Inr (s1, w1)"
      by (simp add: client_dtor_def em_app_def)
    from sock_dtor_keeps [OF main this] main_contractD(12) [OF main, of w ?h]
    have one: "same_sessions (em_host m) (connections L) received sent w w1" "em_server m w1 = em_server m w"
      "nodes_of s1 = nodes_of s" "time_nodes s1 = time_nodes s"
      by (auto simp: quiet_def intro: same_trans)
    have "owned m L (pre @ cs) w"
    proof -
      have "int k \<in> cl_fd ` set (pre @ cs)" if "k \<in> connections L" "ho_ses (em_host m) k w \<noteq> Ended" for k
      proof -
        from that Cons.prems(2) have "int k \<in> cl_fd ` set (pre @ c # cs)" by (simp add: owned_def)
        moreover have "int k \<noteq> cl_fd c" using that(2) ended by (metis nat_int)
        ultimately show ?thesis by auto
      qed
      with Cons.prems(2) show ?thesis by (simp add: owned_def)
    qed
    then have "owned m L (pre @ cs) w1" by (rule owned_same [OF _ one(1)])
    from Cons.IH [OF rest this] one show ?thesis by (auto intro: same_trans)
  next
    case False
    with Cons.prems(1) h(1) obtain cs1 where rest: "sweep (em_net m) (em_app m) cs (s, w) = Inr (cs1, s', w')"
      and "cs' = c # cs1" by auto
    with Cons.IH [OF rest, of "pre @ [c]"] Cons.prems(2) show ?thesis by simp
  qed
qed simp

text \<open>Waiting for the next connection.\<close>

lemma await_accept_serves:
  assumes main: "main_contract m opened received sent L"
    and srv: "serving m received sent L True srv s w" and sk: "srv_sock srv = Some L"
    and run: "await_accept (em_net m) 0 0 L (s, w) = Inr (s', w')"
  shows "serving m received sent L False srv s' w' \<and> em_server m w' = em_server m w"
proof -
  let ?H = "connections L" and ?p = "em_host m"
  from run have post: "post_descriptor (em_sys m) (sk_fd L) ev_READ 0 (Proxy 0) (s, w) = Inr (s', w')"
    by (auto simp: await_accept_def accept_suspend_def)
  note effect = post_descriptor_effect [OF post]
  note quiet = subscribe_quiet [OF main effect(2)]
  from srv have rest: "at_rest ?p ?H received sent None s w" by (simp add: serving_def)
  have nodes: "nodes_of s' (sk_fd L) = accept_nodes srv"
    using srv sk by (simp add: effect(1) serving_def accept_nodes_def)
  have conn: "int h \<noteq> sk_fd L" if "h \<in> ?H" for h using that by (simp add: connections_def)
  have "nodes_of s' (ho_fd ?p h) = session_nodes h (ho_ses ?p h w)" if "h \<in> ?H" for h
    using at_restD(3) [OF rest that] conn [OF that] by (simp add: effect(1) em_fd [OF main])
  moreover have "nd_next nd \<notin> Handle ` ?H" if "g \<notin> ho_fd ?p ` ?H" "nd \<in> set (nodes_of s' g)" for g nd
    using that at_restD(2) [OF rest] by (auto simp: effect(1) split: if_splits)
  ultimately have "at_rest ?p ?H received sent None s' w"
    using rest by (simp add: at_rest_def effect(3))
  then have "serving m received sent L False srv s' w"
    using srv nodes by (simp add: serving_def effect(1,3))
  with quiet show ?thesis by (auto simp: quiet_def intro: serving_same)
qed

text \<open>The resumption of the server with a new connection.\<close>

lemma resume_connection_serves:
  assumes main: "main_contract m opened received sent L"
    and srv: "serving m received sent L True srv s w" and sk: "srv_sock srv = Some L"
    and new: "0 < fd" "nat fd \<in> connections L" "ho_ses (em_host m) (nat fd) w = Ended"
      "received (nat fd) w = []" "sent (nat fd) w = []"
    and run: "server_resume (em_net m) (em_app m) 0 0 (Value (sock_wrap fd dm PEER)) (srv, s, w) = Inr (srv', s', w')"
  shows "serving m received sent L False srv' s' w' \<and> em_server m w' = em_server m w"
proof -
  let ?H = "connections L" and ?p = "em_host m" and ?h = "nat fd" and ?client = "sock_wrap fd dm PEER"
  let ?new = "\<lparr>cl_sock = ?client, cl_task = Some ?h\<rparr>"
  from run sk obtain b s1 w1 clients s2 w2 where
    begin1: "run_co (em_sys m) (session_begin ?p ?h) (s, w) = Inr (b, s1, w1)"
    and sweep: "sweep (em_net m) (em_app m) (srv_clients srv @ [?new]) (s1, w1) = Inr (clients, s2, w2)"
    and await: "await_accept (em_net m) 0 0 L (s2, w2) = Inr (s', w')"
    and srv': "srv' = srv\<lparr>srv_clients := clients\<rparr>"
    by (auto simp: server_resume_def add_client_def async_session_def call_handler_def sock_move_def task_assign_def
        em_app_def sock_wrap_def)
  note keeps = begin_session_keeps [OF main begin1 new(2)]
  from srv have rest: "at_rest ?p ?H received sent None s w" and own: "owned m L (srv_clients srv) w"
    by (simp_all add: serving_def)
  have rest1: "at_rest ?p ?H received sent None s1 w1"
    by (rule session_begin_rest [OF main_contractD(1) [OF main] new(2) rest new(3) _ begin1]) (simp add: new(4,5))
  have "owned m L (srv_clients srv @ [?new]) w1"
  proof -
    have "int k \<in> cl_fd ` set (srv_clients srv @ [?new])" if "k \<in> ?H" "ho_ses ?p k w1 \<noteq> Ended" for k
    proof (cases "k = ?h")
      case True
      with new(1) show ?thesis by (simp add: sock_wrap_def)
    next
      case False
      with keeps that own have "int k \<in> cl_fd ` set (srv_clients srv)" by (simp add: owned_def)
      then show ?thesis by simp
    qed
    moreover have "\<forall>c \<in> set (srv_clients srv @ [?new]). cl_task c = Some (nat (cl_fd c)) \<and> nat (cl_fd c) \<in> ?H \<and> 0 < cl_fd c"
      using own new(1,2) by (simp add: owned_def sock_wrap_def)
    ultimately show ?thesis by (simp add: owned_def)
  qed
  with sweep_serves [OF main sweep, of "[]"]
  have swept: "same_sessions ?p ?H received sent w1 w2" "em_server m w2 = em_server m w1" "nodes_of s2 = nodes_of s1"
    "time_nodes s2 = time_nodes s1" and own2: "owned m L clients w2" by simp_all
  have "at_rest ?p ?H received sent None s2 w2"
    by (rule at_rest_same [OF at_rest_sched [OF rest1 swept(3)] swept(1)]) (simp add: swept(4))
  moreover have "nodes_of s2 g = nodes_of s g" if "g \<noteq> int ?h" for g
    using keeps that by (simp add: swept(3))
  moreover have "sk_fd L \<noteq> int ?h" using new(1,2) by (simp add: connections_def)
  moreover have "nodes_of s2 g = nodes_of s g" if "g \<notin> int ` ?H" for g
  proof -
    have "g \<noteq> int ?h" using that new(2) by blast
    with keeps show ?thesis by (simp add: swept(3))
  qed
  ultimately have "serving m received sent L True srv' s2 w2"
    using srv own2 keeps swept(4) by (simp add: serving_def srv')
  from await_accept_serves [OF main this _ await] sk keeps swept(2) show ?thesis by (simp add: srv')
qed

text \<open>The resumption of the server with an error: it closes its socket and returns.\<close>

lemma resume_error_serves:
  assumes main: "main_contract m opened received sent L"
    and srv: "serving m received sent L True srv s w" and sk: "srv_sock srv = Some L"
    and run: "server_resume (em_net m) (em_app m) 0 0 (Error ec) (srv, s, w) = Inr (srv', s', w')"
  shows "serving m received sent L False srv' s' w' \<and> em_server m w' = em_server m w"
proof -
  from run sk have dtor: "sock_dtor (em_net m) L (s, w) = Inr (s', w')" and srv': "srv' = srv\<lparr>srv_sock := None\<rparr>"
    by (auto simp: server_resume_def)
  from sock_dtor_keeps [OF main dtor]
  have same: "same_sessions (em_host m) (connections L) received sent w w'" "em_server m w' = em_server m w"
    "nodes_of s' = nodes_of s" "time_nodes s' = time_nodes s" by simp_all
  from serving_sched [OF serving_same [OF srv same(1)] same(3,4)]
  have "serving m received sent L True srv s' w'" .
  with same(2) show ?thesis by (simp add: serving_def srv' accept_nodes_def)
qed

lemma em_app_contract: "main_contract m opened received sent L \<Longrightarrow> app_contract (em_app m) opened"
  using main_contractD(12,22) by (fastforce simp: app_contract_def em_app_def session_begin_def await_session_def
      read_suspend_def opens_nothing_def quiet_def)

text \<open>A new connection is one of the descriptors a session may have, and none has it.\<close>

lemma accepted_serves:
  assumes main: "main_contract m opened received sent L" and inv: "em_inv m opened received sent L old True s w"
    and sk: "srv_sock (em_server m w) = Some L" and acc: "net_accept (em_net m) (sk_fd L) w = (Inr fd, w1)"
  shows "serving m received sent L True (em_server m w) s w1" "0 < fd" "nat fd \<in> connections L"
    "ho_ses (em_host m) (nat fd) w1 = Ended" "received (nat fd) w1 = []" "sent (nat fd) w1 = []" "em_server m w1 = em_server m w"
    "holds old ([sk_fd L] @ map cl_fd (srv_clients (em_server m w)) @ [fd]) (opened w1)"
proof -
  let ?H = "connections L" and ?p = "em_host m" and ?srv = "em_server m w" and ?h = "nat fd"
  from inv have srv: "serving m received sent L True ?srv s w" and holds: "server_holds opened old ?srv w"
    by (simp_all add: em_inv_def)
  from descriptor_contractD(3) [OF main_contractD(2) [OF main] acc]
  have fd: "0 < fd" "fd \<notin> opened w" "opened w1 = insert fd (opened w)" by simp_all
  from holds sk have list: "holds old (sk_fd L # map cl_fd (srv_clients ?srv)) (opened w)"
    by (simp add: server_holds_def)
  then have opened: "sk_fd L \<in> opened w" "cl_fd ` set (srv_clients ?srv) \<subseteq> opened w" by (auto simp: holds_def)
  from main_contract_accept(2) [OF main acc]
  have w1: "same_sessions ?p (?H - {?h}) received sent w w1" "em_server m w1 = ?srv" "ho_ses ?p ?h w1 = ho_ses ?p ?h w"
    "received ?h w1 = []" "sent ?h w1 = []" by simp_all
  from fd opened have h: "?h \<in> ?H" by (auto simp: connections_def)
  have own: "owned m L (srv_clients ?srv) w" using srv by (simp add: serving_def)
  have ended: "ho_ses ?p ?h w = Ended"
  proof (rule ccontr)
    assume "ho_ses ?p ?h w \<noteq> Ended"
    with own h have "int ?h \<in> cl_fd ` set (srv_clients ?srv)" unfolding owned_def by blast
    with fd opened(2) show False by auto
  qed
  have ses: "ho_ses ?p k w1 = ho_ses ?p k w" if "k \<in> ?H" for k
    using that w1(1,3) by (cases "k = ?h") (simp_all add: same_sessions_def)
  have rest: "at_rest ?p ?H received sent None s w" using srv by (simp add: serving_def)
  have "echo_inv (exact_session (ho_kind ?p)) (em_net m) (ho_sock ?p k) (received k) (sent k) (ho_ses ?p k w1) w1" if "k \<in> ?H" for k
  proof (cases "k = ?h")
    case True
    with ended ses [OF h] w1(4,5) show ?thesis by (simp add: echo_inv_def)
  next
    case False
    with w1(1) that at_restD(4) [OF rest that] show ?thesis by (simp add: same_sessions_def echo_inv_def)
  qed
  with rest ses have "at_rest ?p ?H received sent None s w1" by (simp add: at_rest_def)
  moreover have "owned m L (srv_clients ?srv) w1" using own ses by (simp add: owned_def)
  ultimately show "serving m received sent L True ?srv s w1" using srv by (simp add: serving_def)
  show "0 < fd" "?h \<in> ?H" "received ?h w1 = []" "sent ?h w1 = []" "em_server m w1 = ?srv"
    using fd h w1 by simp_all
  show "ho_ses ?p ?h w1 = Ended" using ses [OF h] ended by simp
  show "holds old ([sk_fd L] @ map cl_fd (srv_clients ?srv) @ [fd]) (opened w1)"
    using holds_open [OF list fd(1,2)] fd(3) by simp
qed

text \<open>The server resumed inside its callable.\<close>

lemma server_body_inv:
  assumes main: "main_contract m opened received sent L" and srv: "serving m received sent L True (em_server m w) s w"
    and sk: "srv_sock (em_server m w) = Some L"
    and res: "case em_result m w of
        Value client_sock \<Rightarrow> (\<exists>fd. client_sock = sock_wrap fd (sk_domain L) PEER \<and> 0 < fd \<and> nat fd \<in> connections L \<and>
          ho_ses (em_host m) (nat fd) w = Ended \<and> received (nat fd) w = [] \<and> sent (nat fd) w = [] \<and>
          holds old ([sk_fd L] @ map cl_fd (srv_clients (em_server m w)) @ [fd]) (opened w))
      | Error ec \<Rightarrow> server_holds opened old (em_server m w) w"
    and run: "run_co (em_sys m) (server_body m) (s, w) = Inr (b, s', w')"
  shows "em_inv m opened received sent L old False s' w'"
proof -
  from run obtain srv' w1 where
    resume: "server_resume (em_net m) (em_app m) 0 0 (em_result m w) (em_server m w, s, w) = Inr (srv', s', w1)"
    and w': "w' = em_set m srv' w1" by (rule run_server_body)
  have "serving m received sent L False srv' s' w1"
  proof (cases "em_result m w")
    case (Value client_sock)
    with res obtain fd where fd: "client_sock = sock_wrap fd (sk_domain L) PEER" "0 < fd" "nat fd \<in> connections L"
      "ho_ses (em_host m) (nat fd) w = Ended" "received (nat fd) w = []" "sent (nat fd) w = []" by auto
    from resume_connection_serves [OF main srv sk fd(2-6)] resume Value fd(1) show ?thesis by simp
  next
    case (Error ec)
    with resume_error_serves [OF main srv sk] resume show ?thesis by simp
  qed
  moreover have "server_holds opened old srv' w1"
  proof (rule server_resume_holds [OF main_contractD(2) [OF main] em_app_contract [OF main] resume _ sk])
    show "case em_result m w of
        Value client_sock \<Rightarrow> holds old ([sk_fd L] @ map cl_fd (srv_clients (em_server m w)) @ [sk_fd client_sock]) (opened w)
      | Error ec \<Rightarrow> server_holds opened old (em_server m w) w"
      using res by (cases "em_result m w") (auto simp: sock_wrap_def)
  qed
  ultimately show ?thesis
    using serving_same [OF _ main_contractD(8) [OF main]] main_contractD(7,9) [OF main]
    by (simp add: em_inv_def w' server_holds_def)
qed

lemma accept_call_inv:
  assumes main: "main_contract m opened received sent L" and inv: "em_inv m opened received sent L old True s w"
    and sk: "srv_sock (em_server m w) = Some L"
    and run: "run_co (em_sys m) (accept_proxy (em_net m) L 0) (s, w) = Inr (ready, s', w')"
  shows "em_inv m opened received sent L old (\<not> ready) s' w' \<and> (\<not> ready \<longrightarrow> srv_sock (em_server m w') = Some L \<and> s' = s)"
proof -
  obtain r w1 where acc: "net_accept (em_net m) (sk_fd L) w = (r, w1)" by fastforce
  have resumed: "em_inv m opened received sent L old False s' w' \<and> ready"
    if body: "run_co (em_sys m) (co_then_yes (sys_resume (em_sys m) 0)) (s, net_res (em_net m) 0 res w1) = Inr (ready, s', w')"
      and srv: "serving m received sent L True (em_server m w) s w1" and same: "em_server m w1 = em_server m w"
      and res: "case res of
        Value client_sock \<Rightarrow> (\<exists>fd. client_sock = sock_wrap fd (sk_domain L) PEER \<and> 0 < fd \<and> nat fd \<in> connections L \<and>
          ho_ses (em_host m) (nat fd) w1 = Ended \<and> received (nat fd) w1 = [] \<and> sent (nat fd) w1 = [] \<and>
          holds old ([sk_fd L] @ map cl_fd (srv_clients (em_server m w)) @ [fd]) (opened w1))
      | Error ec \<Rightarrow> server_holds opened old (em_server m w) w1" for res
  proof -
    let ?w = "net_res (em_net m) 0 res w1"
    have quiet: "same_sessions (em_host m) (connections L) received sent w1 ?w" "em_server m ?w = em_server m w"
      "opened ?w = opened w1"
      using main_contractD(11) [OF main, of w1 res] same by (simp_all add: quiet_def)
    from body obtain b where b: "run_co (em_sys m) (server_body m) (s, ?w) = Inr (b, s', w')" "ready"
      by (auto simp: run_co_then_yes main_contractD(4) [OF main])
    have "em_inv m opened received sent L old False s' w'"
    proof (rule server_body_inv [OF main _ _ _ b(1)])
      show "serving m received sent L True (em_server m ?w) s ?w"
        using serving_same [OF srv quiet(1)] by (simp add: quiet(2))
      show "srv_sock (em_server m ?w) = Some L" using sk by (simp add: quiet(2))
      show "case em_result m ?w of
        Value client_sock \<Rightarrow> (\<exists>fd. client_sock = sock_wrap fd (sk_domain L) PEER \<and> 0 < fd \<and> nat fd \<in> connections L \<and>
          ho_ses (em_host m) (nat fd) ?w = Ended \<and> received (nat fd) ?w = [] \<and> sent (nat fd) ?w = [] \<and>
          holds old ([sk_fd L] @ map cl_fd (srv_clients (em_server m ?w)) @ [fd]) (opened ?w))
      | Error ec \<Rightarrow> server_holds opened old (em_server m ?w) ?w"
        using res quiet by (cases res) (auto simp: main_contractD(10) [OF main] same_sessions_def server_holds_def)
    qed
    with b(2) show ?thesis by simp
  qed
  show ?thesis
  proof (cases r)
    case (Inr fd)
    note new = accepted_serves [OF main inv sk acc [unfolded Inr]]
    from run acc Inr have "run_co (em_sys m) (co_then_yes (sys_resume (em_sys m) 0))
        (s, net_res (em_net m) 0 (Value (sock_wrap fd (sk_domain L) PEER)) w1) = Inr (ready, s', w')"
      by (simp add: accept_proxy_def)
    from resumed [OF this new(1,7)] new(2-6,8) have "em_inv m opened received sent L old False s' w' \<and> ready" by auto
    then show ?thesis by simp
  next
    case (Inl errno)
    note quiet = main_contract_accept(1) [OF main acc [unfolded Inl]]
    from em_inv_quiet [OF inv quiet] quiet
    have w1: "em_inv m opened received sent L old True s w1" "em_server m w1 = em_server m w" by (simp_all add: quiet_def)
    show ?thesis
    proof (cases "negligible errno")
      case True
      with run acc Inl w1 sk show ?thesis by (auto simp: accept_proxy_def)
    next
      case False
      with run acc Inl have "run_co (em_sys m) (co_then_yes (sys_resume (em_sys m) 0))
          (s, net_res (em_net m) 0 (Error (trans_error_code errno)) w1) = Inr (ready, s', w')"
        by (simp add: accept_proxy_def)
      from resumed [OF this] w1 show ?thesis by (auto simp: em_inv_def)
    qed
  qed
qed

section \<open>The loop\<close>

lemma em_inv_sched:
  "em_inv m opened received sent L old out s w \<Longrightarrow> nodes_of s' = nodes_of s \<Longrightarrow> time_nodes s' = time_nodes s \<Longrightarrow>
   em_inv m opened received sent L old out s' w"
  unfolding em_inv_def using serving_sched by metis

text \<open>The callable is called until it is ready, or not at all.\<close>

lemma accept_loop_inv:
  assumes main: "main_contract m opened received sent L"
  shows "em_inv m opened received sent L old True s w \<Longrightarrow> srv_sock (em_server m w) = Some L \<Longrightarrow>
    handle_nodes n (em_sys m) e [] [\<lparr>nd_ev = ev_READ, nd_revent = 0, nd_next = Proxy 0\<rparr>] (s, w) = Inr (kept, s', w') \<Longrightarrow>
    kept = [] \<and> em_inv m opened received sent L old False s' w' \<or>
    kept = [\<lparr>nd_ev = ev_READ, nd_revent = 0, nd_next = Proxy 0\<rparr>] \<and> s' = s \<and>
      em_inv m opened received sent L old True s w' \<and> srv_sock (em_server m w') = Some L"
proof (induction n arbitrary: w)
  case (Suc n)
  let ?nd = "\<lparr>nd_ev = ev_READ, nd_revent = 0, nd_next = Proxy 0\<rparr> :: node" and ?w = "sys_store (em_sys m) 0 e w"
  show ?case
  proof (cases "ev_READ AND e = 0")
    case True
    with Suc.prems show ?thesis by simp
  next
    case False
    with Suc.prems(3) obtain ready s1 w1 where
      call: "run_co (em_sys m) (accept_proxy (em_net m) L 0) (s, ?w) = Inr (ready, s1, w1)"
      and more: "(if ready then handle_nodes n (em_sys m) e [] [] (s1\<lparr>coro_count := size_dec (coro_count s1)\<rparr>, w1)
        else handle_nodes n (em_sys m) e [] [?nd] (s1, w1)) = Inr (kept, s', w')"
      by (auto simp: run_next_def main_contractD(5) [OF main])
    note store = main_contractD(13) [OF main, of w 0 e]
    have "srv_sock (em_server m ?w) = Some L" using store Suc.prems(2) by (simp add: quiet_def)
    from accept_call_inv [OF main em_inv_quiet [OF Suc.prems(1) store] this call]
    have inv: "em_inv m opened received sent L old (\<not> ready) s1 w1"
      and again: "\<not> ready \<Longrightarrow> srv_sock (em_server m w1) = Some L \<and> s1 = s" by auto
    show ?thesis
    proof (cases ready)
      case True
      with more have "kept = []" "s' = s1\<lparr>coro_count := size_dec (coro_count s1)\<rparr>" "w' = w1" by simp_all
      with inv True em_inv_sched [of m opened received sent L old False s1 w1] show ?thesis by simp
    next
      case False
      with more again inv Suc.IH [of w1] show ?thesis by simp
    qed
  qed
qed simp

lemma listening_event_inv:
  assumes main: "main_contract m opened received sent L" and inv: "em_inv m opened received sent L old False s w"
    and sk: "srv_sock (em_server m w) = Some L" and run: "handle_event n (em_sys m) (sk_fd L) e (s, w) = Inr (s', w')"
  shows "em_inv m opened received sent L old False s' w'"
  using run
proof (rule handle_event_parts)
  fix kept s1 w1
  let ?fd = "sk_fd L" and ?nd = "\<lparr>nd_ev = ev_READ, nd_revent = 0, nd_next = Proxy 0\<rparr> :: node"
  let ?s = "s\<lparr>descriptor_nodes := (descriptor_nodes s)[nat ?fd := []]\<rparr>"
  assume out: "nodes_of ?s = (nodes_of s)(?fd := [])"
    and nodes: "handle_nodes n (em_sys m) e [] (nodes_of s ?fd) (?s, w) = Inr (kept, s1, w1)"
    and in_nodes: "nodes_of s' = (nodes_of s1)(?fd := kept @ nodes_of s1 ?fd)" and timers: "time_nodes s' = time_nodes s1"
    and sub: "poller_subscribe (em_sys m) ?fd (node_events (kept @ nodes_of s1 ?fd)) (the_poller s1, w1) = Inr (the_poller s', w')"
  from inv have srv: "serving m received sent L False (em_server m w) s w" and holds: "server_holds opened old (em_server m w) w"
    by (simp_all add: em_inv_def)
  have conn: "int h \<noteq> ?fd" if "h \<in> connections L" for h using that by (simp add: connections_def)
  have "serving m received sent L True (em_server m w) ?s w"
  proof -
    from srv have rest: "at_rest (em_host m) (connections L) received sent None s w" by (simp add: serving_def)
    have "nodes_of ?s (ho_fd (em_host m) h) = session_nodes h (ho_ses (em_host m) h w)" if "h \<in> connections L" for h
      using at_restD(3) [OF rest that] conn [OF that] by (simp add: out em_fd [OF main])
    moreover have "nd_next nd \<notin> Handle ` connections L"
      if "g \<notin> ho_fd (em_host m) ` connections L" "nd \<in> set (nodes_of ?s g)" for g nd
      using that at_restD(2) [OF rest] by (auto simp: out split: if_splits)
    ultimately have "at_rest (em_host m) (connections L) received sent None ?s w" using rest by (simp add: at_rest_def)
    with srv show ?thesis by (simp add: serving_def out)
  qed
  with holds have start: "em_inv m opened received sent L old True ?s w" by (simp add: em_inv_def)
  have list: "nodes_of s ?fd = [?nd]" using srv sk by (simp add: serving_def accept_nodes_def)
  from accept_loop_inv [OF main start sk nodes [unfolded list]] show ?thesis
  proof (elim disjE conjE)
    assume "kept = []" and inv1: "em_inv m opened received sent L old False s1 w1"
    then have "nodes_of s' = nodes_of s1" by (simp add: in_nodes)
    from em_inv_quiet [OF em_inv_sched [OF inv1 this timers] subscribe_quiet [OF main sub]] show ?thesis .
  next
    assume kept: "kept = [?nd]" "s1 = ?s" and inv1: "em_inv m opened received sent L old True ?s w1"
      and sk1: "srv_sock (em_server m w1) = Some L"
    have "nodes_of s' = nodes_of s" using kept in_nodes out list by (simp add: fun_eq_iff)
    moreover have "time_nodes s' = time_nodes s" using kept timers by simp
    moreover have "em_inv m opened received sent L old False s w1"
    proof -
      from inv1 have own: "owned m L (srv_clients (em_server m w1)) w1"
        and rest1: "at_rest (em_host m) (connections L) received sent None ?s w1"
        and holds1: "server_holds opened old (em_server m w1) w1"
        by (simp_all add: em_inv_def serving_def)
      have "nodes_of ?s (int h) = nodes_of s (int h)" if "h \<in> connections L" for h
        using conn [OF that] by (simp add: out)
      with rest1 srv have "at_rest (em_host m) (connections L) received sent None s w1"
        by (simp add: at_rest_def em_fd [OF main] serving_def)
      with srv own holds1 sk1 list show ?thesis by (simp add: em_inv_def serving_def accept_nodes_def)
    qed
    ultimately show ?thesis
      using em_inv_quiet [OF em_inv_sched subscribe_quiet [OF main sub]] by metis
  qed
qed

lemma main_event_inv:
  assumes main: "main_contract m opened received sent L" and inv: "em_inv m opened received sent L old False s w"
    and run: "handle_event n (em_sys m) fd e (s, w) = Inr (s', w')"
  shows "em_inv m opened received sent L old False s' w'"
proof (cases "fd \<in> int ` connections L")
  case True
  with connection_event_inv [OF main inv] run show ?thesis by auto
next
  case other: False
  from inv have srv: "serving m received sent L False (em_server m w) s w" by (simp add: em_inv_def)
  show ?thesis
  proof (cases "fd = sk_fd L \<and> srv_sock (em_server m w) \<noteq> None")
    case True
    with srv have "srv_sock (em_server m w) = Some L" by (auto simp: serving_def)
    from listening_event_inv [OF main inv this] True run show ?thesis by blast
  next
    case False
    with srv other have "nodes_of s fd = []"
      by (cases "fd = sk_fd L") (simp_all add: serving_def accept_nodes_def)
    note after = handle_event_nobody [OF this run]
    from em_inv_sched [OF inv after(1,2)] em_inv_quiet [OF _ subscribe_quiet [OF main after(3)]] show ?thesis by blast
  qed
qed

text \<open>The program uses no timers, so what its events keep, the loop keeps.\<close>

interpretation main_loop: event_loop "em_sys m"
  "\<lambda>s w. main_contract m opened received sent L \<and> em_inv m opened received sent L old False s w"
  for m :: "'w echo_main" and opened received sent L old
proof (unfold_locales, goal_cases)
  case (1 s w)
  then show ?case by (simp add: em_inv_def serving_def)
next
  case (2 s w s')
  then show ?case using em_inv_sched [of m opened received sent L old False s w s'] by simp
next
  case (3 s w)
  then show ?case by (auto intro: em_inv_quiet main_contractD(14))
next
  case (4 s w ns)
  then show ?case by (auto intro: em_inv_quiet main_contractD(15))
next
  case (5 s w ep n t)
  then show ?case by (auto intro: em_inv_quiet main_contractD(16))
next
  case (6 s w n fd e s' w')
  then show ?case by (auto intro: main_event_inv)
qed

section \<open>The program from its start to its end\<close>

text \<open>The scheduler is made when it is first asked for.\<close>

definition default_scheduler :: "'w sys \<Rightarrow> 'w \<Rightarrow> (sched \<times> 'w) result" where
  "default_scheduler sys w = res_bind (contain (poller_ctor sys w)) (\<lambda>(q, w1). Inr (new_sched q, w1))"

text \<open>
  How the coroutine of a server begins: the address, a socket that listens, and the first suspension, which
  makes the scheduler. \<open>dm\<close> is what the socket's domain is before it is set. An exception destroys the
  socket, for which the scheduler is needed too, and terminates.
\<close>

definition accept_start :: "'w net \<Rightarrow> endian \<Rightarrow> nat \<Rightarrow> ip_domain \<Rightarrow> 'w \<Rightarrow> (sock \<times> sched \<times> 'w) result" where
  "accept_start net en backlog dm w0 =
     res_bind (address_ctor en ''127.0.0.1'' 12345) (\<lambda>addr.
       case sock_bind_listen net TCP addr backlog (sock_default dm, w0) of
         (None, sk, w1) \<Rightarrow>
           res_bind (default_scheduler (net_sys net) w1) (\<lambda>st.
           res_bind (await_accept net 0 0 sk st) (\<lambda>st1. Inr (sk, st1)))
       | (Some (Thrown ec), sk, w1) \<Rightarrow>
           if sk_fd sk = 0 then Inl Terminated
           else res_bind (default_scheduler (net_sys net) w1) (\<lambda>st. res_bind (sock_dtor net sk st) (\<lambda>_. Inl Terminated))
       | (Some fault, sk, w1) \<Rightarrow> Inl fault)"

text \<open>\<open>main\<close> up to \<open>run\<close>: the address and \<open>start\<close>, which is \<open>run_\<close> up to its first suspension.\<close>

definition main_start :: "'w echo_main \<Rightarrow> endian \<Rightarrow> ip_domain \<Rightarrow> 'w \<Rightarrow> (sched \<times> 'w) result" where
  "main_start m en dm w0 =
     res_bind (accept_start (em_net m) en s_backlog dm w0) (\<lambda>(sk, s, w).
       Inr (s, em_set m \<lparr>srv_sock = Some sk, srv_clients = []\<rparr> w))"

text \<open>
  The end of \<open>main\<close>: the destructor of the server destroys its clients and the frame of \<open>run_\<close>, whose socket
  is gone by then; last, at the exit, the scheduler closes its \<open>epoll\<close> instance.
\<close>

definition main_end :: "'w echo_main \<Rightarrow> sched \<times> 'w \<Rightarrow> 'w result" where
  "main_end m st =
     res_bind (destroy_clients (em_net m) (em_app m) (srv_clients (em_server m (snd st))) st) (\<lambda>(s, w).
       Inr (poller_dtor (em_sys m) (the_poller s) w))"

definition echo_program :: "nat \<Rightarrow> 'w echo_main \<Rightarrow> endian \<Rightarrow> ip_domain \<Rightarrow> 'w \<Rightarrow> 'w result" where
  "echo_program n m en dm w0 =
     res_bind (main_start m en dm w0) (\<lambda>st. res_bind (run n (em_sys m) st) (main_end m))"

text \<open>
  The states of the program, which opened what it has since \<open>old\<close> was open: when \<open>run\<close> is called no session
  has begun, and nothing was received or sent.
\<close>

inductive main_state ::
    "'w echo_main \<Rightarrow> ('w \<Rightarrow> int set) \<Rightarrow> (nat \<Rightarrow> 'w \<Rightarrow> string) \<Rightarrow> (nat \<Rightarrow> 'w \<Rightarrow> string) \<Rightarrow> sock \<Rightarrow> int set \<Rightarrow> sched \<times> 'w \<Rightarrow> bool"
  for m opened received sent L old where
  started: "main_start m en dm w0 = Inr (s, w) \<Longrightarrow> srv_sock (em_server m w) = Some L \<Longrightarrow> old = opened w0 \<Longrightarrow>
    \<forall>h \<in> connections L. ho_ses (em_host m) h w = Ended \<and> received h w = [] \<and> sent h w = [] \<Longrightarrow>
    main_state m opened received sent L old (s, w)"
| iterated: "main_state m opened received sent L old st \<Longrightarrow> coro_count (fst st) > 0 \<Longrightarrow>
    iteration n (em_sys m) st = Inr st' \<Longrightarrow> main_state m opened received sent L old st'"

text \<open>The scheduler keeps its \<open>epoll\<close> instance.\<close>

interpretation instance_kept: loop_invariant sys UNIV UNIV UNIV "\<lambda>t d s w. epfd (the_poller s) = ep"
  for sys :: "'w sys" and ep :: int
proof
  fix s s' :: sched and w w' :: 'w and fd e re nx
  assume "epfd (the_poller s) = ep" "post_descriptor sys fd e re nx (s, w) = Inr (s', w')"
  then show "epfd (the_poller s') = ep"
    using poller_subscribe_focus(2) [OF post_descriptor_effect(2)] by metis
next
  fix s s' :: sched and w w' :: 'w and fd
  assume "epfd (the_poller s) = ep" "sched_unsubscribe sys fd (s, w) = Inr (s', w')"
  then show "epfd (the_poller s') = ep"
    using poller_subscribe_focus(2) [OF sched_unsubscribe_effect(1)] by metis
next
  fix s s' :: sched and w w' :: 'w and fd xs
  assume s: "epfd (the_poller s) = ep" and "update_descriptor sys fd
    (s\<lparr>descriptor_nodes := (descriptor_nodes s)[nat fd := xs @ nodes_of s fd]\<rparr>, w) = Inr (s', w')"
  from this(2) show "epfd (the_poller s') = ep"
    by (rule update_descriptor_frame) (use s poller_subscribe_focus(2) in fastforce)
qed (simp_all add: post_timer_def)

lemma instance_looped:
  "loop_state sys (s0, w0) (s, w) \<Longrightarrow> epfd (the_poller s) = epfd (the_poller s0)"
proof (induction "(s, w)" arbitrary: s w rule: loop_state.induct)
  case (iterated st n)
  then show ?case
    using instance_kept.iteration_R [of sys "fst st" "epfd (the_poller s0)" n "snd st" s w] by (metis behaved_UNIV prod.collapse)
qed simp

lemma sock_dtor_instance:
  "sock_dtor net sk (s, w) = Inr (s', w') \<Longrightarrow> epfd (the_poller s') = epfd (the_poller s)"
  by (auto simp: sock_dtor_def dest: poller_subscribe_focus(2) [OF sched_unsubscribe_effect(1)] split: if_splits)

lemma accept_start_effect:
  assumes contract: "descriptor_contract net opened"
    and create: "\<And>w ep w1. sys_epoll_create (net_sys net) w = (Inr ep, w1) \<Longrightarrow> ep \<notin> opened w \<and> opened w1 = insert ep (opened w)"
    and start: "accept_start net en backlog dm w0 = Inr (sk, s, w)"
  shows "nodes_of s = lone_nodes (Some (sk_fd sk, \<lparr>nd_ev = ev_READ, nd_revent = 0, nd_next = Proxy 0\<rparr>))"
    "time_nodes s = []" "counted 0 None s w" "epfd (the_poller s) \<notin> opened w0"
    "holds (insert (epfd (the_poller s)) (opened w0)) [sk_fd sk] (opened w)"
proof -
  obtain addr where addr: "address_ctor en ''127.0.0.1'' 12345 = Inr addr"
    by (cases "address_ctor en ''127.0.0.1'' 12345") (use start in \<open>simp_all add: accept_start_def\<close>)
  obtain r sk1 w1 where listen: "sock_bind_listen net TCP addr backlog (sock_default dm, w0) = (r, sk1, w1)"
    by (cases "sock_bind_listen net TCP addr backlog (sock_default dm, w0)")
  have none: "r = None"
  proof (cases r)
    case (Some f)
    with start addr listen show ?thesis
      by (cases f) (auto simp: accept_start_def split: if_splits)
  qed simp
  note listen = listen [unfolded none]
  from start addr listen obtain q w2 where ctor: "poller_ctor (net_sys net) w1 = Inr (q, w2)"
    and wait: "await_accept net 0 0 sk (new_sched q, w2) = Inr (s, w)" and sk: "sk1 = sk"
    by (auto simp: accept_start_def default_scheduler_def)
  have post: "post_descriptor (net_sys net) (sk_fd sk) ev_READ 0 (Proxy 0) (new_sched q, w2) = Inr (s, w)"
    using wait by (auto simp: await_accept_def accept_suspend_def)
  note effect = post_descriptor_effect [OF post]
  from effect(2) have pos: "0 < sk_fd sk" by (rule poller_subscribe_Inr(1))
  with keeps_or_opens_bind_listen [OF contract, unfolded keeps_or_opens_def, rule_format, OF listen]
  have opened1: "sk_fd sk \<notin> opened w0" "opened w1 = insert (sk_fd sk) (opened w0)"
    by (simp_all add: sock_default_def sk)
  from ctor have q: "sys_epoll_create (net_sys net) w1 = (Inr (epfd q), w2)"
    by (auto simp: poller_ctor_def split: prod.splits sum.splits)
  have same_ep: "epfd (the_poller s) = epfd q"
    using poller_subscribe_focus(2) [OF effect(2)] by (simp add: new_sched_def)
  note ep = create [OF q, folded same_ep]
  have none: "nodes_of (new_sched q) fd = []" for fd by (simp add: nodes_of_def new_sched_def)
  show "nodes_of s = lone_nodes (Some (sk_fd sk, \<lparr>nd_ev = ev_READ, nd_revent = 0, nd_next = Proxy 0\<rparr>))"
    by (simp add: effect(1) none fun_eq_iff)
  show "time_nodes s = []" by (simp add: effect(3) new_sched_def)
  show "counted 0 None s w"
  proof (rule count.R_post [OF _ _ post])
    show "counted 0 None (new_sched q) w2"
      by (simp add: counted_def new_sched_def pending_def waiting_nodes_def)
  qed simp
  show "epfd (the_poller s) \<notin> opened w0" using ep opened1 by simp
  have "opened w = opened w2" by (rule subscribe_opened [OF contract effect(2)])
  with ep opened1 pos show "holds (insert (epfd (the_poller s)) (opened w0)) [sk_fd sk] (opened w)"
    by (auto simp: holds_def)
qed

lemma main_start_inv:
  assumes main: "main_contract m opened received sent L" and start: "main_start m en dm w0 = Inr (s, w)"
    and L: "srv_sock (em_server m w) = Some L"
    and fresh: "\<forall>h \<in> connections L. ho_ses (em_host m) h w = Ended \<and> received h w = [] \<and> sent h w = []"
  shows "em_inv m opened received sent L (insert (epfd (the_poller s)) (opened w0)) False s w \<and>
    counted 0 None s w \<and> epfd (the_poller s) \<notin> opened w0"
proof -
  from start obtain sk w1 where listening: "accept_start (em_net m) en s_backlog dm w0 = Inr (sk, s, w1)"
    and w: "w = em_set m \<lparr>srv_sock = Some sk, srv_clients = []\<rparr> w1" by (auto simp: main_start_def)
  have srv: "em_server m w = \<lparr>srv_sock = Some L, srv_clients = []\<rparr>" and sk: "sk = L"
    using L by (simp_all add: w main_contractD(7) [OF main])
  note effect = accept_start_effect [OF main_contractD(2) [OF main] main_contractD(23) [OF main] listening [unfolded sk]]
  have "server_holds opened (insert (epfd (the_poller s)) (opened w0)) (em_server m w) w"
    using effect(5) by (simp add: server_holds_def w main_contractD(7,9) [OF main] sk)
  moreover have nodes: "nodes_of s fd = (if fd = sk_fd L then accept_nodes (em_server m w) else [])" for fd
    by (simp add: effect(1) accept_nodes_def srv)
  have "serving m received sent L False (em_server m w) s w"
    unfolding serving_def at_rest_def owned_def
    using fresh nodes
    by (auto simp: srv effect(2) session_nodes_def echo_inv_def accept_nodes_def em_fd [OF main] connections_def)
  ultimately show ?thesis using effect(3,4) by (simp add: em_inv_def counted_def)
qed

definition main_inv ::
    "'w echo_main \<Rightarrow> ('w \<Rightarrow> int set) \<Rightarrow> (nat \<Rightarrow> 'w \<Rightarrow> string) \<Rightarrow> (nat \<Rightarrow> 'w \<Rightarrow> string) \<Rightarrow> sock \<Rightarrow> int set \<Rightarrow> sched \<times> 'w \<Rightarrow> bool" where
  "main_inv m opened received sent L old = (\<lambda>(s, w).
     em_inv m opened received sent L (insert (epfd (the_poller s)) old) False s w \<and> counted 0 None s w \<and>
     epfd (the_poller s) \<notin> old)"

lemma main_state_inv:
  assumes main: "main_contract m opened received sent L"
  shows "main_state m opened received sent L old st \<Longrightarrow> main_inv m opened received sent L old st"
proof (induction rule: main_state.induct)
  case (started en dm w0 s w)
  then show ?case using main_start_inv [OF main] by (simp add: main_inv_def)
next
  case (iterated st n st')
  have same: "epfd (the_poller (fst st')) = epfd (the_poller (fst st))"
    by (rule instance_kept.iteration_R [of "em_sys m" "fst st" _ n "snd st" _ "snd st'"])
      (use iterated.hyps in simp_all)
  have "counted 0 None (fst st') (snd st')"
    by (rule count.iteration_R [of "em_sys m" 0 "fst st" "snd st" n])
      (use iterated in \<open>simp_all add: main_inv_def split: prod.splits\<close>)
  moreover from iterated main have "em_inv m opened received sent L (insert (epfd (the_poller (fst st))) old) False (fst st') (snd st')"
    using main_loop.iteration_P [of m opened received sent L "insert (epfd (the_poller (fst st))) old" "fst st" "snd st" n "fst st'" "snd st'"]
    by (simp add: main_inv_def split: prod.splits)
  ultimately show ?case using iterated.IH same by (cases st, cases st') (simp add: main_inv_def)
qed

lemma run_main_state:
  "main_state m opened received sent L old st \<Longrightarrow> run n (em_sys m) st = Inr st' \<Longrightarrow>
   main_state m opened received sent L old st' \<and> coro_count (fst st') = 0"
proof (induction n arbitrary: st)
  case (Suc n)
  show ?case
  proof (cases "coro_count (fst st) = 0")
    case True
    with Suc.prems show ?thesis by simp
  next
    case False
    with Suc.prems(2) obtain st1 where one: "iteration n (em_sys m) st = Inr st1"
      and more: "run n (em_sys m) st1 = Inr st'" by auto
    from main_state.iterated [OF Suc.prems(1) _ one] False have "main_state m opened received sent L old st1" by simp
    then show ?thesis using more by (rule Suc.IH)
  qed
qed simp

text \<open>Which nodes there are: the callable of the server and one for every session that has not ended.\<close>

lemma main_inv_nodes:
  assumes main: "main_contract m opened received sent L" and inv: "main_inv m opened received sent L old (s, w)"
  shows "map nd_next (nodes_of s fd) =
    (if fd = sk_fd L then (if srv_sock (em_server m w) = None then [] else [Proxy 0])
     else if fd \<in> cl_fd ` set (srv_clients (em_server m w)) \<and> ho_ses (em_host m) (nat fd) w \<noteq> Ended then [Handle (nat fd)]
     else [])"
proof -
  let ?srv = "em_server m w" and ?p = "em_host m"
  from inv have srv: "serving m received sent L False ?srv s w" by (simp add: main_inv_def em_inv_def)
  then have rest: "at_rest ?p (connections L) received sent None s w"
    and owned: "owned m L (srv_clients ?srv) w" by (simp_all add: serving_def)
  show ?thesis
  proof (cases "fd \<in> int ` connections L")
    case True
    then obtain h where h: "h \<in> connections L" "fd = int h" by auto
    from at_restD(3) [OF rest h(1)] have "nodes_of s fd = session_nodes h (ho_ses ?p h w)"
      by (simp add: h(2) em_fd [OF main])
    moreover have "fd \<noteq> sk_fd L" using h by (auto simp: connections_def)
    ultimately show ?thesis
      using owned h by (auto simp: session_nodes_def owned_def split: session.splits)
  next
    case False
    have "fd \<notin> cl_fd ` set (srv_clients ?srv)"
    proof
      assume "fd \<in> cl_fd ` set (srv_clients ?srv)"
      with owned have "nat fd \<in> connections L" "0 < fd" by (auto simp: owned_def)
      then have "int (nat fd) \<in> int ` connections L" by blast
      with False \<open>0 < fd\<close> show False by simp
    qed
    with srv False show ?thesis
      by (cases "fd = sk_fd L") (auto simp: serving_def accept_nodes_def split: option.split)
  qed
qed

lemma main_inv_stopped:
  assumes main: "main_contract m opened received sent L" and inv: "main_inv m opened received sent L old (s, w)"
    and stopped: "coro_count s = 0"
  shows "srv_sock (em_server m w) = None" "h \<in> connections L \<Longrightarrow> ho_ses (em_host m) h w = Ended"
proof -
  from inv stopped have "pending s = 0" by (simp add: main_inv_def counted_def)
  then have none: "nodes_of s fd = []" for fd by (simp add: pending_def waiting_nodes_zero)
  from main_inv_nodes [OF main inv, of "sk_fd L"] none show "srv_sock (em_server m w) = None"
    by (auto split: if_splits)
  assume h: "h \<in> connections L"
  from inv have "at_rest (em_host m) (connections L) received sent None s w"
    by (simp add: main_inv_def em_inv_def serving_def)
  from at_restD(3) [OF this h] none show "ho_ses (em_host m) h w = Ended"
    by (auto simp: session_nodes_def split: session.splits)
qed

lemma destroy_clients_instance:
  "destroy_clients net app cs (s, w) = Inr (s', w') \<Longrightarrow> epfd (the_poller s') = epfd (the_poller s)"
proof (induction cs arbitrary: s w)
  case (Cons c cs)
  then obtain s1 w1 where dtor: "client_dtor net app c (s, w) = Inr (s1, w1)"
    and rest: "destroy_clients net app cs (s1, w1) = Inr (s', w')" by auto
  from dtor have "epfd (the_poller s1) = epfd (the_poller s)"
    by (auto simp: client_dtor_def sock_dtor_def split: if_splits
      dest!: poller_subscribe_focus(2) [OF sched_unsubscribe_effect(1)])
  with Cons.IH [OF rest] show ?case by simp
qed simp

lemma main_end_opened:
  assumes main: "main_contract m opened received sent L" and inv: "main_inv m opened received sent L old (s, w)"
    and stopped: "coro_count s = 0" and "main_end m (s, w) = Inr w'"
  shows "opened w' = old"
proof -
  from assms(4) obtain s1 w1 where destroyed: "destroy_clients (em_net m) (em_app m) (srv_clients (em_server m w)) (s, w) = Inr (s1, w1)"
    and w': "w' = snd (sys_close (em_sys m) (epfd (the_poller s1)) w1)"
    by (auto simp: main_end_def poller_dtor_def)
  from inv main_inv_stopped(1) [OF main inv stopped]
  have "holds (insert (epfd (the_poller s)) old) (map cl_fd (srv_clients (em_server m w))) (opened (snd (s, w)))"
    by (simp add: main_inv_def em_inv_def server_holds_def)
  from destroy_clients_holds [OF main_contractD(2) [OF main] em_app_contract [OF main] this destroyed]
  have "opened w1 = insert (epfd (the_poller s)) old" .
  moreover have "opened w' = opened w1 - {epfd (the_poller s1)}"
    using descriptor_contractD(5) [OF main_contractD(2) [OF main]] w' by (metis prod.collapse)
  ultimately show ?thesis
    using destroy_clients_instance [OF destroyed] inv by (simp add: main_inv_def)
qed

section \<open>A run\<close>

text \<open>
  The descriptors 1 and 2 are open, the kernel gives the next higher one; a script has the results of
  accepting (0 is a connection, another number an error), of reading and of waiting.
\<close>

record echo_world = sessions_world +
  ew_open :: "int list"
  ew_accepts :: "int list"
  ew_server :: server
  ew_result :: "(sock, error_code) expected"

definition ew_fresh :: "echo_world \<Rightarrow> int" where
  "ew_fresh w = 1 + foldr max (ew_open w) 0"

definition ew_take :: "echo_world \<Rightarrow> (int + int) \<times> echo_world" where
  "ew_take w = (Inr (ew_fresh w), w\<lparr>ew_open := ew_fresh w # ew_open w\<rparr>)"

definition ew_accept :: "echo_world \<Rightarrow> (int + int) \<times> echo_world" where
  "ew_accept w =
     (case ew_accepts w of
        [] \<Rightarrow> (Inl 11, w)
      | errno # rest \<Rightarrow>
          if errno \<noteq> 0 then (Inl errno, w\<lparr>ew_accepts := rest\<rparr>)
          else (Inr (ew_fresh w), w\<lparr>ew_accepts := rest, ew_open := ew_fresh w # ew_open w,
            sw_received := (sw_received w)(ew_fresh w := []), sw_sent := (sw_sent w)(ew_fresh w := [])\<rparr>))"

definition ew_main :: "(nat \<Rightarrow> echo_world co) \<Rightarrow> (nat \<Rightarrow> echo_world co) \<Rightarrow> echo_world echo_main" where
  "ew_main bodies calls = \<lparr>
     em_host = (sw_hosting bodies)\<lparr>ho_net := (sw_net bodies)\<lparr>
       net_sys := (net_sys (sw_net bodies))\<lparr>sys_epoll_create := ew_take,
         sys_close := (\<lambda>fd w. (0, w\<lparr>ew_open := filter (\<lambda>x. x \<noteq> fd) (ew_open w)\<rparr>)),
         sys_call := calls, sys_done := (\<lambda>h w. sw_ses w h = Ended)\<rparr>,
       net_socket := (\<lambda>d p. ew_take), net_accept := (\<lambda>fd. ew_accept),
       net_res := (\<lambda>h r w. w\<lparr>ew_result := r\<rparr>)\<rparr>\<rparr>,
     em_server = ew_server, em_set = (\<lambda>srv w. w\<lparr>ew_server := srv\<rparr>), em_result = ew_result,
     em_forget = (\<lambda>h w. w)\<rparr>"

definition ew_sock :: sock where
  "ew_sock = \<lparr>sk_fd = 3, sk_domain = IPv4, sk_role = SERVER\<rparr>"

text \<open>The bodies behind the handles and the callable use the system calls only, so they can be given in turn.\<close>

definition ew_bodies :: "nat \<Rightarrow> echo_world co" where
  "ew_bodies h =
     (let m = ew_main (\<lambda>_. Stop True) (\<lambda>_. Stop True) in if h = 0 then server_body m else session_body (em_host m) h)"

definition ew_calls :: "nat \<Rightarrow> echo_world co" where
  "ew_calls p = accept_proxy (em_net (ew_main ew_bodies (\<lambda>_. Stop True))) ew_sock p"

definition echo_example :: "echo_world echo_main" where
  "echo_example = ew_main ew_bodies ew_calls"

definition echo_begins :: echo_world where
  "echo_begins = \<lparr>sw_ses = (\<lambda>_. Ended), sw_event = (\<lambda>_. 0), sw_input = (\<lambda>fd. [''ab'']), sw_received = (\<lambda>_. []),
     sw_sent = (\<lambda>_. []),
     sw_batches = [[\<lparr>ee_events = 1, ee_fd = 3\<rparr>], [\<lparr>ee_events = 1, ee_fd = 5\<rparr>, \<lparr>ee_events = 1, ee_fd = 3\<rparr>],
       [\<lparr>ee_events = 4, ee_fd = 5\<rparr>], [\<lparr>ee_events = 0x10, ee_fd = 5\<rparr>]],
     ew_open = [2, 1], ew_accepts = [0, 24], ew_server = \<lparr>srv_sock = None, srv_clients = []\<rparr>,
     ew_result = Error (trans_error_code 0)\<rparr>"

lemma ew_main_fields:
  "ho_kind (em_host (ew_main b c)) = Main_session" "net_read (em_net (ew_main b c)) = sw_read" "net_write (em_net (ew_main b c)) = sw_write"
  "net_socket (em_net (ew_main b c)) d p = ew_take" "net_accept (em_net (ew_main b c)) fd = ew_accept"
  "net_reuse (em_net (ew_main b c)) fd w = (0, w)" "net_bind (em_net (ew_main b c)) fd a n w = (0, w)"
  "net_listen (em_net (ew_main b c)) fd n w = (0, w)"
  "net_res (em_net (ew_main b c)) h r w = w\<lparr>ew_result := r\<rparr>"
  "sys_epoll_create (em_sys (ew_main b c)) = ew_take"
  "sys_close (em_sys (ew_main b c)) fd w = (0, w\<lparr>ew_open := filter (\<lambda>x. x \<noteq> fd) (ew_open w)\<rparr>)"
  "sys_epoll_ctl (em_sys (ew_main b c)) ep op fd e w = (0, w)"
  "sys_epoll_wait (em_sys (ew_main b c)) ep n t w = sw_wait w"
  "sys_now (em_sys (ew_main b c)) w = (0, w)" "sys_sleep (em_sys (ew_main b c)) ns w = w"
  "sys_store (em_sys (ew_main b c)) h e w = w\<lparr>sw_event := (sw_event w)(h := e)\<rparr>"
  "sys_resume (em_sys (ew_main b c)) = b" "sys_call (em_sys (ew_main b c)) = c"
  "sys_done (em_sys (ew_main b c)) h w = (sw_ses w h = Ended)"
  "ho_sock (em_host (ew_main b c)) h = sock_wrap (int h) IPv4 PEER"
  "ho_ses (em_host (ew_main b c)) h w = sw_ses w h" "ho_event (em_host (ew_main b c)) h w = sw_event w h"
  "ho_set (em_host (ew_main b c)) h ses w = w\<lparr>sw_ses := (sw_ses w)(h := ses)\<rparr>"
  "em_server (ew_main b c) = ew_server" "em_set (ew_main b c) srv w = w\<lparr>ew_server := srv\<rparr>"
  "em_result (ew_main b c) = ew_result" "em_forget (ew_main b c) h w = w"
  by (simp_all add: ew_main_def sw_hosting_def sw_net_def sock_wrap_def)

lemma sweep_co_net:
  assumes "sys_done (net_sys net) = sys_done (net_sys net')" "sys_close (net_sys net) = sys_close (net_sys net')"
  shows "sweep_co net app cs k = sweep_co net' app cs k"
proof (induction cs arbitrary: k)
  case (Cons c cs)
  have "client_dtor_co net app c = client_dtor_co net' app c"
    by (rule ext) (simp only: client_dtor_co_def sock_dtor_co_def assms(2))
  then show ?case unfolding sweep_co.simps assms(1) Cons.IH by (simp only:)
qed simp

lemma ew_main_bodies:
  "session_body (em_host (ew_main b c)) h = session_body (em_host (ew_main b' c')) h"
  "server_body (ew_main b c) = server_body (ew_main b' c')"
  "accept_proxy (em_net (ew_main b c)) sk p = accept_proxy (em_net (ew_main b c')) sk p"
proof -
  let ?m = "ew_main b c" and ?m' = "ew_main b' c'"
  have host: "ho_kind (em_host ?m) = ho_kind (em_host ?m')" "ho_sock (em_host ?m) = ho_sock (em_host ?m')" "ho_ses (em_host ?m) = ho_ses (em_host ?m')"
    "ho_set (em_host ?m) = ho_set (em_host ?m')" "ho_event (em_host ?m) = ho_event (em_host ?m')"
    by (simp_all add: fun_eq_iff ew_main_fields)
  have step: "session_resume k (em_net ?m) = session_resume k (em_net ?m')" for k
    by (rule session_resume_net) (simp_all add: ew_main_fields)
  show "session_body (em_host ?m) h = session_body (em_host ?m') h"
    unfolding session_body_def await_session_def host step ..
  have app: "em_app ?m = em_app ?m'"
    unfolding em_app_def session_begin_def await_session_def host by (simp add: ew_main_def)
  have sys: "sys_done (em_sys ?m) = sys_done (em_sys ?m')" "sys_close (em_sys ?m) = sys_close (em_sys ?m')"
    by (simp_all add: fun_eq_iff ew_main_fields)
  have main: "em_server ?m = em_server ?m'" "em_set ?m = em_set ?m'" "em_result ?m = em_result ?m'"
    by (simp_all add: ew_main_def)
  have sweep: "sweep_co (em_net ?m) = sweep_co (em_net ?m')"
    by (rule ext)+ (rule sweep_co_net [OF sys])
  have dtor: "sock_dtor_co (em_net ?m) = sock_dtor_co (em_net ?m')"
    by (rule ext)+ (simp only: sock_dtor_co_def sys(2))
  show "server_body ?m = server_body ?m'"
    unfolding server_body_def serve_client_def app main sweep dtor ..
  have net: "net_res (em_net ?m) = net_res (em_net (ew_main b c'))"
    "net_accept (em_net ?m) = net_accept (em_net (ew_main b c'))" "sys_resume (em_sys ?m) = sys_resume (em_sys (ew_main b c'))"
    by (simp_all add: fun_eq_iff ew_main_fields)
  show "accept_proxy (em_net ?m) sk p = accept_proxy (em_net (ew_main b c')) sk p"
    unfolding accept_proxy_def net ..
qed

lemma ew_fresh_new: "ew_fresh w \<notin> set (ew_open w)" "0 < ew_fresh w"
  using foldr_max_ge(1) [of "ew_open w"] foldr_max_ge(2) [of "ew_fresh w" "ew_open w"]
  by (auto simp: ew_fresh_def)

lemma ew_accept_cases:
  "ew_accept w = (Inr fd, w') \<Longrightarrow> fd = ew_fresh w \<and> ew_open w' = fd # ew_open w \<and> sw_ses w' = sw_ses w \<and>
     ew_server w' = ew_server w \<and> sw_received w' = (sw_received w)(fd := []) \<and> sw_sent w' = (sw_sent w)(fd := [])"
  "ew_accept w = (Inl errno, w') \<Longrightarrow> ew_open w' = ew_open w \<and> sw_ses w' = sw_ses w \<and> ew_server w' = ew_server w \<and>
     sw_received w' = sw_received w \<and> sw_sent w' = sw_sent w"
  by (auto simp: ew_accept_def split: list.splits if_splits)

lemma echo_example_bodies:
  "server_body echo_example = server_body (ew_main (\<lambda>_. Stop True) (\<lambda>_. Stop True))"
  "session_body (em_host echo_example) h = session_body (em_host (ew_main (\<lambda>_. Stop True) (\<lambda>_. Stop True))) h"
  "accept_proxy (em_net echo_example) ew_sock 0 = accept_proxy (em_net (ew_main ew_bodies (\<lambda>_. Stop True))) ew_sock 0"
  unfolding echo_example_def by (rule ew_main_bodies)+

lemma echo_example_contract:
  "main_contract echo_example (set \<circ> ew_open) (\<lambda>h w. sw_received w (int h)) (\<lambda>h w. sw_sent w (int h)) ew_sock"
proof -
  let ?m = echo_example
  note fields = ew_main_fields [of ew_bodies ew_calls, folded echo_example_def]
  have calls: "sys_call (em_sys ?m) 0 = accept_proxy (em_net ?m) ew_sock 0"
    by (simp add: fields echo_example_bodies(3) ew_calls_def)
  have server: "sys_resume (em_sys ?m) 0 = server_body ?m"
    by (simp add: fields echo_example_bodies(1) ew_bodies_def Let_def)
  have body: "ew_bodies h = session_body (em_host ?m) h" if "0 < h" for h
    using that by (simp add: echo_example_bodies(2) ew_bodies_def Let_def)
  have descriptors: "descriptor_contract (em_net ?m) (set \<circ> ew_open)"
    unfolding descriptor_contract_def
    by (intro conjI allI impI) (auto simp: fields ew_take_def ew_fresh_new dest: ew_accept_cases)
  have sessions: "session_contract (em_host ?m) (connections ew_sock) (\<lambda>h w. sw_received w (int h)) (\<lambda>h w. sw_sent w (int h))"
    unfolding session_contract_def stream_contract_def
    by (intro conjI ballI allI impI)
      (auto simp: fields body connections_def sock_wrap_def inj_on_def same_sessions_def sw_read_def sw_write_def
        sw_wait_def split: list.splits)
  let ?H = "connections ew_sock" and ?received = "\<lambda>h w. sw_received w (int h)" and ?sent = "\<lambda>h w. sw_sent w (int h)"
  have accept: "case net_accept (em_net ?m) (sk_fd ew_sock) w of
      (Inl errno, w1) \<Rightarrow> quiet ?m (set \<circ> ew_open) ?received ?sent ?H w w1
    | (Inr fd, w1) \<Rightarrow>
        same_sessions (em_host ?m) (?H - {nat fd}) ?received ?sent w w1 \<and> em_server ?m w1 = em_server ?m w \<and>
        ho_ses (em_host ?m) (nat fd) w1 = ho_ses (em_host ?m) (nat fd) w \<and> ?received (nat fd) w1 = [] \<and> ?sent (nat fd) w1 = []"
    for w
  proof -
    obtain r w1 where acc: "ew_accept w = (r, w1)" by fastforce
    show ?thesis
    proof (cases r)
      case (Inl errno)
      with ew_accept_cases(2) [of w errno w1] acc show ?thesis
        by (simp add: fields quiet_def same_sessions_def)
    next
      case (Inr fd)
      with ew_accept_cases(1) [of w fd w1] acc ew_fresh_new(2) [of w] show ?thesis
        by (auto simp: fields same_sessions_def)
    qed
  qed
  show ?thesis
    unfolding main_contract_def Let_def
  proof (intro conjI)
    show "\<forall>w. case net_accept (em_net ?m) (sk_fd ew_sock) w of
        (Inl errno, w1) \<Rightarrow> quiet ?m (set \<circ> ew_open) ?received ?sent ?H w w1
      | (Inr fd, w1) \<Rightarrow>
          same_sessions (em_host ?m) (?H - {nat fd}) ?received ?sent w w1 \<and> em_server ?m w1 = em_server ?m w \<and>
          ho_ses (em_host ?m) (nat fd) w1 = ho_ses (em_host ?m) (nat fd) w \<and> ?received (nat fd) w1 = [] \<and> ?sent (nat fd) w1 = []"
      using accept by blast
  qed (use calls server sessions descriptors ew_fresh_new in
      \<open>auto simp: fields quiet_def ew_sock_def connections_def same_sessions_def sw_read_def sw_write_def sw_wait_def
        ew_take_def split: list.splits\<close>)
qed

text \<open>The program up to \<open>run\<close>, with the scheduler's instance 4.\<close>

definition echo_started :: "(sched \<times> echo_world) result" where
  "echo_started =
     res_bind (await_accept (em_net echo_example) 0 0 ew_sock
         (new_sched \<lparr>epfd = 4, focus = [], evs = []\<rparr>, echo_begins\<lparr>ew_open := [4, 3, 2, 1]\<rparr>))
       (\<lambda>(s, w). Inr (s, em_set echo_example \<lparr>srv_sock = Some ew_sock, srv_clients = []\<rparr> w))"

lemma loopback_address: "\<exists>sa. address_ctor Little ''127.0.0.1'' 12345 = Inr (V4 sa)"
proof -
  have "''127.0.0.1'' = join CHR ''.'' [''127'', ''0'', ''0'', ''1'']" by simp
  moreover have "list_all octet_text [''127'', ''0'', ''0'', ''1'']" by code_simp
  ultimately have "parse_ipv4 Little ''127.0.0.1'' \<noteq> None" using parse_ipv4_bytes by blast
  then show ?thesis by (auto simp: address_ctor_def address_from_def)
qed

lemma main_start_example: "main_start echo_example Little IPv6 echo_begins = echo_started"
proof -
  note fields = ew_main_fields [of ew_bodies ew_calls, folded echo_example_def]
  obtain sa where addr: "address_ctor Little ''127.0.0.1'' 12345 = Inr (V4 sa)" using loopback_address by blast
  have open3: "ew_take echo_begins = (Inr 3, echo_begins\<lparr>ew_open := [3, 2, 1]\<rparr>)"
    by (simp add: ew_take_def ew_fresh_def echo_begins_def)
  have open4: "ew_take (echo_begins\<lparr>ew_open := [3, 2, 1]\<rparr>) = (Inr 4, echo_begins\<lparr>ew_open := [4, 3, 2, 1]\<rparr>)"
    by (simp add: ew_take_def ew_fresh_def)
  have "sock_bind_listen (em_net echo_example) TCP (V4 sa) s_backlog (sock_default IPv6, echo_begins) =
      (None, ew_sock, echo_begins\<lparr>ew_open := [3, 2, 1]\<rparr>)"
    by (simp add: sock_bind_listen_def sock_bind_def use_domain_def sock_listen_def sock_default_def fields open3 ew_sock_def)
  then show ?thesis
    by (simp add: main_start_def accept_start_def default_scheduler_def addr poller_ctor_def fields open4 echo_started_def
      res_bind_assoc)
qed

lemma echo_started_state:
  assumes "echo_started = Inr (s, w)"
  shows "main_state echo_example (set \<circ> ew_open) (\<lambda>h w. sw_received w (int h)) (\<lambda>h w. sw_sent w (int h)) ew_sock {1, 2} (s, w)"
    "srv_sock (em_server echo_example w) = Some ew_sock" "sk_fd ew_sock = 3"
proof -
  note fields = ew_main_fields [of ew_bodies ew_calls, folded echo_example_def]
  from assms obtain w1 where wait: "await_accept (em_net echo_example) 0 0 ew_sock
      (new_sched \<lparr>epfd = 4, focus = [], evs = []\<rparr>, echo_begins\<lparr>ew_open := [4, 3, 2, 1]\<rparr>) = Inr (s, w1)"
    and w: "w = w1\<lparr>ew_server := \<lparr>srv_sock = Some ew_sock, srv_clients = []\<rparr>\<rparr>"
    by (auto simp: echo_started_def fields)
  then have post: "post_descriptor (em_sys echo_example) (sk_fd ew_sock) ev_READ 0 (Proxy 0)
      (new_sched \<lparr>epfd = 4, focus = [], evs = []\<rparr>, echo_begins\<lparr>ew_open := [4, 3, 2, 1]\<rparr>) = Inr (s, w1)"
    by (auto simp: await_accept_def accept_suspend_def)
  from poller_subscribe_Inr(4) [OF post_descriptor_effect(2) [OF post]]
  have w1: "w1 = echo_begins\<lparr>ew_open := [4, 3, 2, 1]\<rparr>"
    by (auto simp: fields split: option.splits)
  show sk: "srv_sock (em_server echo_example w) = Some ew_sock" by (simp add: fields w)
  show "sk_fd ew_sock = 3" by (simp add: ew_sock_def)
  have fresh: "\<forall>h \<in> connections ew_sock. ho_ses (em_host echo_example) h w = Ended \<and> sw_received w (int h) = [] \<and> sw_sent w (int h) = []"
    by (simp add: fields w w1 echo_begins_def)
  have old: "{1, 2} = (set \<circ> ew_open) echo_begins" by (auto simp: echo_begins_def)
  show "main_state echo_example (set \<circ> ew_open) (\<lambda>h w. sw_received w (int h)) (\<lambda>h w. sw_sent w (int h)) ew_sock {1, 2} (s, w)"
    by (rule main_state.started [where m = echo_example and en = Little and dm = IPv6 and ?w0.0 = echo_begins])
      (use main_start_example assms sk old fresh in simp_all)
qed

section \<open>Properties\<close>

text \<open>
  C7. The program \<open>main.cpp\<close> serves. In every state from the call of \<open>run\<close> on, whatever the kernel reports:
  the descriptors it has opened are the \<open>epoll\<close> instance, the listening socket until accepting fails, and
  one for each client in the server's list, all different; the callable of the server waits on the
  listening descriptor, on the descriptor of each client whose session has not ended there waits that
  session and nothing else, for reading or for writing as its \<open>co_await\<close> says, and nothing waits
  elsewhere or for the clock; and each session has sent what it received, in order, with whole writes
  up to the data in its hands. \<open>run\<close> returns only when accepting has failed and all sessions have ended,
  and when the program then ends every descriptor it has opened is closed.
\<close>

theorem echo_server_serves:
  assumes main: "main_contract m opened received sent L" and state: "main_state m opened received sent L old (s, w)"
  shows "(let srv = em_server m w; clients = srv_clients srv; ses = (\<lambda>fd. ho_ses (em_host m) (nat fd) w);
       fds = epfd (the_poller s) # (if srv_sock srv = None then [] else [sk_fd L]) @ map cl_fd clients in
      distinct fds \<and> set fds \<inter> old = {} \<and> opened w = old \<union> set fds \<and> time_nodes s = [] \<and>
      (\<forall>fd. map nd_next (nodes_of s fd) =
         (if fd = sk_fd L then (if srv_sock srv = None then [] else [Proxy 0])
          else if fd \<in> cl_fd ` set clients \<and> ses fd \<noteq> Ended then [Handle (nat fd)] else [])) \<and>
      (\<forall>c \<in> set clients. \<forall>nd \<in> set (nodes_of s (cl_fd c)). nd_ev nd AND ev_READ \<noteq> 0 \<longleftrightarrow> ses (cl_fd c) = Reading) \<and>
      (\<forall>c \<in> set clients. let h = nat (cl_fd c) in
         subseq (sent h w) (received h w) \<and>
         (writes_whole (em_net m) (cl_fd c) \<longrightarrow>
            (case ses (cl_fd c) of Reading \<Rightarrow> received h w = sent h w | Writing data \<Rightarrow> received h w = sent h w @ data
             | Ended \<Rightarrow> prefix (sent h w) (received h w))))) \<and>
    (run n (em_sys m) (s, w) = Inr (s', w') \<longrightarrow>
       srv_sock (em_server m w') = None \<and>
       (\<forall>c \<in> set (srv_clients (em_server m w')). ho_ses (em_host m) (nat (cl_fd c)) w' = Ended) \<and>
       (main_end m (s', w') = Inr w'' \<longrightarrow> opened w'' = old))"
proof (intro conjI impI)
  let ?srv = "em_server m w" and ?p = "em_host m"
  note inv = main_state_inv [OF main state]
  from inv have srv: "serving m received sent L False ?srv s w"
    and holds: "server_holds opened (insert (epfd (the_poller s)) old) ?srv w" and ep: "epfd (the_poller s) \<notin> old"
    by (simp_all add: main_inv_def em_inv_def)
  from srv have rest: "at_rest ?p (connections L) received sent None s w" and timers: "time_nodes s = []"
    and owned: "owned m L (srv_clients ?srv) w" and sk: "\<And>sk. srv_sock ?srv = Some sk \<Longrightarrow> sk = L"
    by (simp_all add: serving_def)
  note contract = main_contractD(1) [OF main]
  define fds where "fds = (if srv_sock ?srv = None then [] else [sk_fd L]) @ map cl_fd (srv_clients ?srv)"
  have "fds = (case srv_sock ?srv of None \<Rightarrow> [] | Some sk \<Rightarrow> [sk_fd sk]) @ map cl_fd (srv_clients ?srv)"
    using sk by (auto simp: fds_def split: option.split)
  with holds have "holds (insert (epfd (the_poller s)) old) fds (opened w)" by (simp add: server_holds_def)
  with ep have descriptors: "distinct (epfd (the_poller s) # fds)" "set (epfd (the_poller s) # fds) \<inter> old = {}"
    "opened w = old \<union> set (epfd (the_poller s) # fds)"
    by (auto simp: holds_def)
  have client: "nat (cl_fd c) \<in> connections L" "cl_fd c = ho_fd ?p (nat (cl_fd c))" if "c \<in> set (srv_clients ?srv)" for c
    using owned that by (auto simp: owned_def em_fd [OF main])
  have event: "nd_ev nd AND ev_READ \<noteq> 0 \<longleftrightarrow> ho_ses ?p (nat (cl_fd c)) w = Reading"
    if "c \<in> set (srv_clients ?srv)" "nd \<in> set (nodes_of s (cl_fd c))" for c nd
    using at_restD(3) [OF rest client(1) [OF that(1)]] that(2) client(2) [OF that(1)]
    by (auto simp: session_nodes_def event_defs split: session.splits)
  have streams: "subseq (sent (nat (cl_fd c)) w) (received (nat (cl_fd c)) w)"
    "writes_whole (em_net m) (cl_fd c) \<Longrightarrow> (case ho_ses ?p (nat (cl_fd c)) w of
        Reading \<Rightarrow> received (nat (cl_fd c)) w = sent (nat (cl_fd c)) w
      | Writing data \<Rightarrow> received (nat (cl_fd c)) w = sent (nat (cl_fd c)) w @ data
      | Ended \<Rightarrow> prefix (sent (nat (cl_fd c)) w) (received (nat (cl_fd c)) w))" if "c \<in> set (srv_clients ?srv)" for c
    using echo_inv_streams [OF at_restD(4) [OF rest client(1) [OF that]] session_contractD(2) [OF contract client(1) [OF that]]]
      client(2) [OF that] by (simp_all add: main_contractD(24) [OF main])
  show "let srv = ?srv; clients = srv_clients srv; ses = (\<lambda>fd. ho_ses ?p (nat fd) w);
       fds = epfd (the_poller s) # (if srv_sock srv = None then [] else [sk_fd L]) @ map cl_fd clients in
      distinct fds \<and> set fds \<inter> old = {} \<and> opened w = old \<union> set fds \<and> time_nodes s = [] \<and>
      (\<forall>fd. map nd_next (nodes_of s fd) =
         (if fd = sk_fd L then (if srv_sock srv = None then [] else [Proxy 0])
          else if fd \<in> cl_fd ` set clients \<and> ses fd \<noteq> Ended then [Handle (nat fd)] else [])) \<and>
      (\<forall>c \<in> set clients. \<forall>nd \<in> set (nodes_of s (cl_fd c)). nd_ev nd AND ev_READ \<noteq> 0 \<longleftrightarrow> ses (cl_fd c) = Reading) \<and>
      (\<forall>c \<in> set clients. let h = nat (cl_fd c) in
         subseq (sent h w) (received h w) \<and>
         (writes_whole (em_net m) (cl_fd c) \<longrightarrow>
            (case ses (cl_fd c) of Reading \<Rightarrow> received h w = sent h w | Writing data \<Rightarrow> received h w = sent h w @ data
             | Ended \<Rightarrow> prefix (sent h w) (received h w))))"
    unfolding Let_def fds_def [symmetric]
    using descriptors timers main_inv_nodes [OF main inv] event streams by blast
next
  assume "run n (em_sys m) (s, w) = Inr (s', w')"
  from run_main_state [OF state this] have after: "main_state m opened received sent L old (s', w')" and none: "coro_count s' = 0"
    by simp_all
  note inv = main_state_inv [OF main after]
  show "srv_sock (em_server m w') = None" by (rule main_inv_stopped(1) [OF main inv none])
  from inv have "owned m L (srv_clients (em_server m w')) w'" by (simp add: main_inv_def em_inv_def serving_def)
  then show "\<forall>c \<in> set (srv_clients (em_server m w')). ho_ses (em_host m) (nat (cl_fd c)) w' = Ended"
    using main_inv_stopped(2) [OF main inv none] by (auto simp: owned_def)
  assume "main_end m (s', w') = Inr w''"
  from main_end_opened [OF main inv none this] show "opened w'' = old" .
qed

theorem echo_server_serves_witness:
  "\<exists>s w w''. main_start echo_example Little IPv6 echo_begins = Inr (s, w) \<and> map nd_next (nodes_of s 3) = [Proxy 0] \<and>
    echo_program 5 echo_example Little IPv6 echo_begins = Inr w'' \<and> sw_sent w'' 5 = ''ab'' \<and>
    set (ew_open w'') = {1, 2}"
proof -
  have "case res_bind (res_bind echo_started (run 5 (em_sys echo_example))) (main_end echo_example) of
      Inr w'' \<Rightarrow> sw_sent w'' 5 = ''ab'' | Inl f \<Rightarrow> False"
    by code_simp
  then obtain s w s' w' w'' where start: "echo_started = Inr (s, w)"
    and run: "run 5 (em_sys echo_example) (s, w) = Inr (s', w')"
    and finish: "main_end echo_example (s', w') = Inr w''" and sent: "sw_sent w'' 5 = ''ab''"
    by (auto split: sum.splits)
  note state = echo_started_state [OF start]
  note served = echo_server_serves [OF echo_example_contract state(1), of 5 s' w' w'']
  from served have "map nd_next (nodes_of s (sk_fd ew_sock)) =
      (if srv_sock (em_server echo_example w) = None then [] else [Proxy 0])"
    unfolding Let_def by presburger
  then have "map nd_next (nodes_of s 3) = [Proxy 0]" by (simp add: state(2,3))
  moreover from served run finish have "set (ew_open w'') = {1, 2}" by simp
  moreover have "echo_program 5 echo_example Little IPv6 echo_begins = Inr w''"
    by (simp add: echo_program_def main_start_example start run finish)
  ultimately show ?thesis using main_start_example start sent by auto
qed

end
