(* ===== verification/BC_One_Time.thy ===== *)
theory BC_One_Time
  imports BC_Echo_Server
begin

text \<open>
  The program \<open>one-time-server.cxx\<close> from its start to its end. Its coroutine is the one of \<open>BC_Programs\<close> as a tree
  of steps, with the frame in the outside state; one node waits at a time, so the program is an instance of
  \<open>lone_coroutine\<close>. And a concrete world for programs with one connection.
\<close>

section \<open>The one-time server\<close>

text \<open>
  Where \<open>async_one_time_server\<close> is: before the connection, in a \<open>co_await\<close> of its loop, or returned. The
  coroutine and its callable have the number 0, and so has its event.
\<close>

datatype one_time_frame = Accepting sock | Serving sock sock session | Returned

record 'w one_time =
  ot_net :: "'w net"
  ot_frame :: "'w \<Rightarrow> one_time_frame"
  ot_set :: "one_time_frame \<Rightarrow> 'w \<Rightarrow> 'w"
  ot_event :: "'w \<Rightarrow> event"
  ot_result :: "'w \<Rightarrow> (sock, error_code) expected"

abbreviation ot_sys :: "'w one_time \<Rightarrow> 'w sys" where
  "ot_sys p \<equiv> net_sys (ot_net p)"

text \<open>From a resumption to the next suspension; the sockets are destroyed when it returns, the later one first.\<close>

definition one_time_await :: "'w one_time \<Rightarrow> sock \<Rightarrow> sock \<Rightarrow> session \<Rightarrow> 'w co" where
  "one_time_await p sk client ses =
     (case ses of
        Reading \<Rightarrow> Effect (ot_set p (Serving sk client ses)) (\<lambda>_. read_suspend client 0 0)
      | Writing data \<Rightarrow> Effect (ot_set p (Serving sk client ses)) (\<lambda>_. write_suspend client 0 0)
      | Ended \<Rightarrow> sock_dtor_co (ot_net p) client (sock_dtor_co (ot_net p) sk (Effect (ot_set p Returned) (\<lambda>_. Stop True))))"

definition one_time_body :: "'w one_time \<Rightarrow> 'w co" where
  "one_time_body p = Effect (\<lambda>w. w) (\<lambda>w.
     case ot_frame p w of
       Accepting sk \<Rightarrow>
         (case ot_result p w of
            Value client \<Rightarrow> one_time_await p sk client Reading
          | Error ec \<Rightarrow>
              (case error_code_message ec of
                 Inl f \<Rightarrow> Die (ending_of f)
               | Inr _ \<Rightarrow> sock_dtor_co (ot_net p) sk (Effect (ot_set p Returned) (\<lambda>_. Stop True))))
     | Serving sk client ses \<Rightarrow>
         (let resumed = (\<lambda>w. one_time_resume (ot_net p) client (ot_event p w) (ses, w)) in
          Effect (\<lambda>w. case resumed w of Inl f \<Rightarrow> w | Inr (ses1, w1) \<Rightarrow> w1) (\<lambda>w.
            case resumed w of Inl f \<Rightarrow> Die (ending_of f) | Inr (ses1, w1) \<Rightarrow> one_time_await p sk client ses1))
     | Returned \<Rightarrow> Die By_terminate)"

text \<open>\<open>main\<close>: the coroutine up to its first suspension, the loop, and the scheduler destroyed at the exit.\<close>

definition one_time_main :: "'w one_time \<Rightarrow> endian \<Rightarrow> ip_domain \<Rightarrow> 'w \<Rightarrow> (sched \<times> 'w) result" where
  "one_time_main p en dm w0 =
     res_bind (accept_start (ot_net p) en 10 dm w0) (\<lambda>(sk, s, w). Inr (s, ot_set p (Accepting sk) w))"

definition one_time_program :: "nat \<Rightarrow> 'w one_time \<Rightarrow> endian \<Rightarrow> ip_domain \<Rightarrow> 'w \<Rightarrow> 'w result" where
  "one_time_program n p en dm w0 =
     res_bind (one_time_main p en dm w0) (\<lambda>st.
     res_bind (run n (ot_sys p) st) (\<lambda>(s, w). Inr (poller_dtor (ot_sys p) (the_poller s) w)))"

text \<open>What it waits for.\<close>

definition one_time_waits :: "'w one_time \<Rightarrow> 'w \<Rightarrow> (int \<times> node) option" where
  "one_time_waits p w =
     (case ot_frame p w of
        Accepting sk \<Rightarrow> Some (sk_fd sk, \<lparr>nd_ev = ev_READ, nd_revent = 0, nd_next = Proxy 0\<rparr>)
      | Serving sk client ses \<Rightarrow> (case session_nodes 0 ses of [] \<Rightarrow> None | nd # _ \<Rightarrow> Some (sk_fd client, nd))
      | Returned \<Rightarrow> None)"

section \<open>Its contract and invariant\<close>

text \<open>Steps that change neither the frame, nor the open descriptors, nor the streams.\<close>

definition ot_same ::
    "'w one_time \<Rightarrow> ('w \<Rightarrow> int set) \<Rightarrow> ('w \<Rightarrow> string) \<Rightarrow> ('w \<Rightarrow> string) \<Rightarrow> 'w \<Rightarrow> 'w \<Rightarrow> bool" where
  "ot_same p opened received sent w w' \<longleftrightarrow>
     ot_frame p w' = ot_frame p w \<and> opened w' = opened w \<and> received w' = received w \<and> sent w' = sent w"

text \<open>
  The descriptors' contract and the stream's, for the one connection the program has, and that the
  variables are separate.
\<close>

definition one_time_contract ::
    "'w one_time \<Rightarrow> ('w \<Rightarrow> int set) \<Rightarrow> ('w \<Rightarrow> string) \<Rightarrow> ('w \<Rightarrow> string) \<Rightarrow> sock \<Rightarrow> bool" where
  "one_time_contract p opened received sent L \<longleftrightarrow>
     (let net = ot_net p; sys = ot_sys p; same = ot_same p opened received sent in
      descriptor_contract net opened \<and> (\<forall>fd. stream_contract net fd received sent) \<and>
      sys_resume sys 0 = one_time_body p \<and> sys_call sys 0 = accept_proxy net L 0 \<and>
      (\<forall>f w. ot_frame p (ot_set p f w) = f \<and> opened (ot_set p f w) = opened w \<and>
         received (ot_set p f w) = received w \<and> sent (ot_set p f w) = sent w) \<and>
      (\<forall>h r w. ot_result p (net_res net h r w) = r \<and> same w (net_res net h r w)) \<and>
      (\<forall>h e w. same w (sys_store sys h e w)) \<and>
      (\<forall>w. same w (snd (sys_now sys w))) \<and>
      (\<forall>ns w. same w (sys_sleep sys ns w)) \<and>
      (\<forall>ep n t w. same w (snd (sys_epoll_wait sys ep n t w))) \<and>
      (\<forall>ep op fd e w. same w (snd (sys_epoll_ctl sys ep op fd e w))) \<and>
      (\<forall>w ep w1. sys_epoll_create sys w = (Inr ep, w1) \<longrightarrow> ep \<notin> opened w \<and> opened w1 = insert ep (opened w)) \<and>
      (\<forall>fd w. ot_frame p (snd (sys_close sys fd w)) = ot_frame p w \<and> received (snd (sys_close sys fd w)) = received w \<and>
         sent (snd (sys_close sys fd w)) = sent w) \<and>
      (\<forall>fd w. ot_frame p (snd (net_accept net fd w)) = ot_frame p w \<and> received (snd (net_accept net fd w)) = received w \<and>
         sent (snd (net_accept net fd w)) = sent w) \<and>
      (\<forall>fd len w. ot_frame p (snd (net_read net fd len w)) = ot_frame p w \<and> opened (snd (net_read net fd len w)) = opened w) \<and>
      (\<forall>fd data w. ot_frame p (snd (net_write net fd data w)) = ot_frame p w \<and>
         opened (snd (net_write net fd data w)) = opened w))"

lemma one_time_contractD:
  assumes "one_time_contract p opened received sent L"
  shows "descriptor_contract (ot_net p) opened" "stream_contract (ot_net p) fd received sent"
    "sys_resume (ot_sys p) 0 = one_time_body p" "sys_call (ot_sys p) 0 = accept_proxy (ot_net p) L 0"
    "ot_frame p (ot_set p f w) = f" "opened (ot_set p f w) = opened w" "received (ot_set p f w) = received w"
    "sent (ot_set p f w) = sent w"
    "ot_result p (net_res (ot_net p) h r w) = r" "ot_same p opened received sent w (net_res (ot_net p) h r w)"
    "ot_same p opened received sent w (sys_store (ot_sys p) h e w)"
    "ot_same p opened received sent w (snd (sys_now (ot_sys p) w))"
    "ot_same p opened received sent w (sys_sleep (ot_sys p) ns w)"
    "ot_same p opened received sent w (snd (sys_epoll_wait (ot_sys p) ep n t w))"
    "ot_same p opened received sent w (snd (sys_epoll_ctl (ot_sys p) ep op fd e w))"
    "sys_epoll_create (ot_sys p) w = (Inr ep, w1) \<Longrightarrow> ep \<notin> opened w \<and> opened w1 = insert ep (opened w)"
    "ot_frame p (snd (sys_close (ot_sys p) fd w)) = ot_frame p w"
    "received (snd (sys_close (ot_sys p) fd w)) = received w" "sent (snd (sys_close (ot_sys p) fd w)) = sent w"
    "ot_frame p (snd (net_accept (ot_net p) fd w)) = ot_frame p w"
    "received (snd (net_accept (ot_net p) fd w)) = received w" "sent (snd (net_accept (ot_net p) fd w)) = sent w"
    "ot_frame p (snd (net_read (ot_net p) fd len w)) = ot_frame p w" "opened (snd (net_read (ot_net p) fd len w)) = opened w"
    "ot_frame p (snd (net_write (ot_net p) fd data w)) = ot_frame p w" "opened (snd (net_write (ot_net p) fd data w)) = opened w"
  using assms unfolding one_time_contract_def Let_def by simp_all

text \<open>The descriptors it holds, and the stream of its connection.\<close>

definition one_time_inv ::
    "'w one_time \<Rightarrow> ('w \<Rightarrow> int set) \<Rightarrow> ('w \<Rightarrow> string) \<Rightarrow> ('w \<Rightarrow> string) \<Rightarrow> sock \<Rightarrow> int set \<Rightarrow> 'w \<Rightarrow> bool" where
  "one_time_inv p opened received sent L old w \<longleftrightarrow>
     one_time_contract p opened received sent L \<and>
     (case ot_frame p w of
        Accepting sk \<Rightarrow> sk = L \<and> holds old [sk_fd L] (opened w) \<and> received w = [] \<and> sent w = []
      | Serving sk client ses \<Rightarrow> sk = L \<and> ses \<noteq> Ended \<and> holds old [sk_fd L, sk_fd client] (opened w) \<and>
          echo_inv False (ot_net p) client received sent ses w
      | Returned \<Rightarrow> opened w = old \<and> subseq (sent w) (received w))"

lemma one_time_inv_same:
  "one_time_inv p opened received sent L old w \<Longrightarrow> ot_same p opened received sent w w' \<Longrightarrow>
   one_time_inv p opened received sent L old w' \<and> one_time_waits p w' = one_time_waits p w"
  by (auto simp: one_time_inv_def one_time_waits_def ot_same_def echo_inv_def split: one_time_frame.splits)

lemma one_time_subscribe:
  assumes "one_time_contract p opened received sent L" "poller_subscribe (ot_sys p) fd e (q, w) = Inr (q', w')"
  shows "ot_same p opened received sent w w'"
  by (rule subscribe_outside [where Q = "ot_same p opened received sent w", OF _ _ assms(2)])
    (simp_all add: one_time_contractD(15) [OF assms(1)] ot_same_def [of _ _ _ _ w w])

lemma one_time_dtor:
  assumes contract: "one_time_contract p opened received sent L"
    and dtor: "sock_dtor (ot_net p) sk (s, w) = Inr (s', w')" and holds: "holds old (xs @ sk_fd sk # ys) (opened w)"
  shows "holds old (xs @ ys) (opened w')" "received w' = received w" "sent w' = sent w"
    "nodes_of s' = nodes_of s" "time_nodes s' = time_nodes s"
proof -
  from holds have "0 < sk_fd sk" by (simp add: holds_def)
  with holds_close [OF holds] sock_dtor_opened [OF one_time_contractD(1) [OF contract] dtor]
  show "holds old (xs @ ys) (opened w')" by simp
  have "received w' = received w \<and> sent w' = sent w"
    by (rule sock_dtor_frame(3) [OF dtor, of "\<lambda>w1. received w1 = received w \<and> sent w1 = sent w"])
      (use one_time_contractD(15,18,19) [OF contract] in \<open>auto simp: ot_same_def\<close>)
  then show "received w' = received w" "sent w' = sent w" by simp_all
qed (use sock_dtor_frame(1,2) [OF dtor] in simp_all)

text \<open>A suspension, or the return of the coroutine.\<close>

lemma one_time_await_inv:
  assumes contract: "one_time_contract p opened received sent L"
    and holds: "holds old [sk_fd L, sk_fd client] (opened w)" and echo: "echo_inv False (ot_net p) client received sent ses w"
    and empty: "nodes_of s = (\<lambda>_. [])" "time_nodes s = []"
    and run: "run_co (ot_sys p) (one_time_await p L client ses) (s, w) = Inr (b, s', w')"
  shows "one_time_inv p opened received sent L old w' \<and> time_nodes s' = [] \<and> nodes_of s' = lone_nodes (one_time_waits p w')"
proof -
  let ?w = "ot_set p (Serving L client ses) w"
  have posted: ?thesis
    if post: "post_descriptor (ot_sys p) (sk_fd client) ev 0 (Handle 0) (s, ?w) = Inr (s', w')"
      and ses: "session_nodes 0 ses = [\<lparr>nd_ev = ev, nd_revent = 0, nd_next = Handle 0\<rparr>]" for ev
  proof -
    note effect = post_descriptor_effect [OF post]
    from ses have "ses \<noteq> Ended" by (auto simp: session_nodes_def)
    with contract holds echo have inv: "one_time_inv p opened received sent L old ?w"
      by (simp add: one_time_inv_def one_time_contractD(5-8) [OF contract] echo_inv_def)
    from one_time_inv_same [OF this one_time_subscribe [OF contract effect(2)]]
    have "one_time_inv p opened received sent L old w'" "one_time_waits p w' = one_time_waits p ?w" by simp_all
    moreover have "one_time_waits p ?w = Some (sk_fd client, \<lparr>nd_ev = ev, nd_revent = 0, nd_next = Handle 0\<rparr>)"
      by (simp add: one_time_waits_def one_time_contractD(5) [OF contract] ses)
    ultimately show ?thesis using effect(1,3) empty by (simp add: fun_eq_iff)
  qed
  show ?thesis
  proof (cases ses)
    case Ended
    with run obtain s1 w1 s2 w2 where first: "sock_dtor (ot_net p) client (s, w) = Inr (s1, w1)"
      and second: "sock_dtor (ot_net p) L (s1, w1) = Inr (s2, w2)"
      and out: "s' = s2" "w' = ot_set p Returned w2"
      by (auto simp: one_time_await_def run_sock_dtor_co)
    note d1 = one_time_dtor [OF contract first, of old "[sk_fd L]" "[]", simplified, OF holds]
    note d2 = one_time_dtor [OF contract second, of old "[]" "[]", simplified, OF d1(1)]
    from echo Ended have "subseq (sent w) (received w)"
      by (simp add: echo_inv_def one_time_contractD(2) [OF contract])
    with d1 d2 contract empty show ?thesis
      by (simp add: one_time_inv_def one_time_waits_def out one_time_contractD(5-8) [OF contract] holds_def)
  qed (use run posted in \<open>auto simp: one_time_await_def read_suspend_def write_suspend_def session_nodes_def\<close>)
qed

text \<open>A resumption with the result of accepting, or of what the session awaited.\<close>

lemma one_time_body_inv:
  assumes contract: "one_time_contract p opened received sent L"
    and frame: "case ot_frame p w of
        Accepting sk \<Rightarrow> sk = L \<and> received w = [] \<and> sent w = [] \<and>
          (case ot_result p w of Value client \<Rightarrow> holds old [sk_fd L, sk_fd client] (opened w) | Error _ \<Rightarrow> holds old [sk_fd L] (opened w))
      | Serving sk client ses \<Rightarrow> sk = L \<and> holds old [sk_fd L, sk_fd client] (opened w) \<and>
          echo_inv False (ot_net p) client received sent ses w
      | Returned \<Rightarrow> True"
    and empty: "nodes_of s = (\<lambda>_. [])" "time_nodes s = []"
    and run: "run_co (ot_sys p) (one_time_body p) (s, w) = Inr (b, s', w')"
  shows "one_time_inv p opened received sent L old w' \<and> time_nodes s' = [] \<and> nodes_of s' = lone_nodes (one_time_waits p w')"
proof (cases "ot_frame p w")
  case (Accepting sk)
  show ?thesis
  proof (cases "ot_result p w")
    case (Value client)
    with run Accepting frame have "run_co (ot_sys p) (one_time_await p L client Reading) (s, w) = Inr (b, s', w')"
      by (simp add: one_time_body_def)
    from one_time_await_inv [OF contract _ _ empty this, of old] frame Accepting Value show ?thesis
      by (simp add: echo_inv_def)
  next
    case (Error ec)
    with run Accepting frame obtain s1 w1 where dtor: "sock_dtor (ot_net p) L (s, w) = Inr (s1, w1)"
      and out: "s' = s1" "w' = ot_set p Returned w1"
      by (auto simp: one_time_body_def run_sock_dtor_co split: sum.splits)
    from frame Accepting Error have "holds old ([] @ sk_fd L # []) (opened w)" by simp
    note d = one_time_dtor [OF contract dtor this]
    with contract empty frame Accepting show ?thesis
      by (simp add: one_time_inv_def one_time_waits_def out one_time_contractD(5-8) [OF contract] holds_def)
  qed
next
  case (Serving sk client ses)
  with run obtain ses1 w1 where step: "one_time_resume (ot_net p) client (ot_event p w) (ses, w) = Inr (ses1, w1)"
    and await: "run_co (ot_sys p) (one_time_await p sk client ses1) (s, w1) = Inr (b, s', w')"
    by (auto simp: one_time_body_def Let_def split: sum.splits)
  have inv1: "echo_inv False (ot_net p) client received sent ses1 w1"
    using one_time.step_keeps [OF _ step, of received sent] frame Serving by simp
  have "opened w1 = opened w"
    using session_resume_keeps [where k = One_time_session and P = "\<lambda>w1. opened w1 = opened w", OF step [folded session_resume.simps]]
      one_time_contractD(24,26) [OF contract] by simp
  with frame Serving one_time_await_inv [OF contract _ inv1 empty, of old b s' w'] await show ?thesis by simp
next
  case Returned
  with run show ?thesis by (simp add: one_time_body_def)
qed

section \<open>It is a program with one coroutine\<close>

lemma one_time_call_inv:
  assumes inv: "one_time_inv p opened received sent L old w" and frame: "ot_frame p w = Accepting sk"
    and empty: "nodes_of s = (\<lambda>_. [])" "time_nodes s = []"
    and run: "run_co (ot_sys p) (accept_proxy (ot_net p) L 0) (s, w) = Inr (ready, s', w')"
  shows "one_time_inv p opened received sent L old w' \<and> time_nodes s' = [] \<and>
    (\<not> ready \<longrightarrow> one_time_waits p w' = one_time_waits p w) \<and>
    nodes_of s' = (if ready then lone_nodes (one_time_waits p w') else (\<lambda>_. []))"
proof -
  from inv have contract: "one_time_contract p opened received sent L" by (simp add: one_time_inv_def)
  from inv frame have now: "sk = L" "holds old [sk_fd L] (opened w)" "received w = []" "sent w = []"
    by (simp_all add: one_time_inv_def)
  obtain r w1 where acc: "net_accept (ot_net p) (sk_fd L) w = (r, w1)" by fastforce
  have w1: "ot_frame p w1 = Accepting L" "received w1 = []" "sent w1 = []"
    using one_time_contractD(20-22) [OF contract, of "sk_fd L" w] acc now frame by simp_all
  have resumed: "one_time_inv p opened received sent L old w' \<and> time_nodes s' = [] \<and> ready \<and>
      nodes_of s' = lone_nodes (one_time_waits p w')"
    if body: "run_co (ot_sys p) (co_then_yes (sys_resume (ot_sys p) 0)) (s, net_res (ot_net p) 0 res w1) = Inr (ready, s', w')"
      and res: "case res of Value client \<Rightarrow> holds old [sk_fd L, sk_fd client] (opened w1) | Error _ \<Rightarrow> holds old [sk_fd L] (opened w1)"
    for res
  proof -
    let ?w = "net_res (ot_net p) 0 res w1"
    from body obtain b where b: "run_co (ot_sys p) (one_time_body p) (s, ?w) = Inr (b, s', w')" "ready"
      by (auto simp: run_co_then_yes one_time_contractD(3) [OF contract])
    have "ot_frame p ?w = Accepting L" "received ?w = []" "sent ?w = []" "opened ?w = opened w1" "ot_result p ?w = res"
      using one_time_contractD(9,10) [OF contract] w1 by (simp_all add: ot_same_def)
    with one_time_body_inv [OF contract _ empty b(1), of old] res b(2) show ?thesis by (cases res) simp_all
  qed
  show ?thesis
  proof (cases r)
    case (Inr fd)
    from descriptor_contractD(3) [OF one_time_contractD(1) [OF contract] acc [unfolded Inr]] holds_open [OF now(2), of fd]
    have "holds old [sk_fd L, fd] (opened w1)" by simp
    moreover from run acc Inr have "run_co (ot_sys p) (co_then_yes (sys_resume (ot_sys p) 0))
        (s, net_res (ot_net p) 0 (Value (sock_wrap fd (sk_domain L) PEER)) w1) = Inr (ready, s', w')"
      by (simp add: accept_proxy_def)
    ultimately have "one_time_inv p opened received sent L old w' \<and> time_nodes s' = [] \<and> ready \<and>
        nodes_of s' = lone_nodes (one_time_waits p w')"
      using resumed [of "Value (sock_wrap fd (sk_domain L) PEER)"] by (simp add: sock_wrap_def)
    then show ?thesis by simp
  next
    case (Inl errno)
    with descriptor_contractD(4) [OF one_time_contractD(1) [OF contract]] acc have same: "opened w1 = opened w" by blast
    show ?thesis
    proof (cases "negligible errno")
      case True
      with run acc Inl have "\<not> ready" "s' = s" "w' = w1" by (simp_all add: accept_proxy_def)
      with same w1 now frame empty contract show ?thesis by (simp add: one_time_inv_def one_time_waits_def)
    next
      case False
      with run acc Inl have "run_co (ot_sys p) (co_then_yes (sys_resume (ot_sys p) 0))
          (s, net_res (ot_net p) 0 (Error (trans_error_code errno)) w1) = Inr (ready, s', w')"
        by (simp add: accept_proxy_def)
      from resumed [OF this] same now show ?thesis by simp
    qed
  qed
qed

interpretation one_time_server: lone_coroutine "ot_sys p" "one_time_waits p" "one_time_inv p opened received sent L old"
  for p :: "'w one_time" and opened received sent L old
proof (unfold_locales, goal_cases)
  case (1 w)
  then have "one_time_contract p opened received sent L" by (simp add: one_time_inv_def)
  from one_time_inv_same [OF 1 one_time_contractD(12) [OF this]] show ?case .
next
  case (2 w ns)
  then have "one_time_contract p opened received sent L" by (simp add: one_time_inv_def)
  from one_time_inv_same [OF 2 one_time_contractD(13) [OF this]] show ?case .
next
  case (3 w ep n t)
  then have "one_time_contract p opened received sent L" by (simp add: one_time_inv_def)
  from one_time_inv_same [OF 3 one_time_contractD(14) [OF this]] show ?case .
next
  case (4 w ep op fd e)
  then have "one_time_contract p opened received sent L" by (simp add: one_time_inv_def)
  from one_time_inv_same [OF 4 one_time_contractD(15) [OF this]] show ?case .
next
  case (5 w fd nd s e ready s' w')
  from 5(1) have contract: "one_time_contract p opened received sent L" by (simp add: one_time_inv_def)
  let ?w = "sys_store (ot_sys p) (nd_revent nd) e w"
  from one_time_inv_same [OF 5(1) one_time_contractD(11) [OF contract]]
  have inv: "one_time_inv p opened received sent L old ?w" and waits: "one_time_waits p ?w = Some (fd, nd)"
    using 5(2) by simp_all
  show ?case
  proof (cases "ot_frame p ?w")
    case (Accepting sk)
    with waits have "nd_next nd = Proxy 0" by (auto simp: one_time_waits_def)
    with 5(5) have "run_co (ot_sys p) (accept_proxy (ot_net p) L 0) (s, ?w) = Inr (ready, s', w')"
      by (simp add: run_next_def one_time_contractD(4) [OF contract])
    from one_time_call_inv [OF inv Accepting 5(3,4) this] waits 5(2) show ?thesis by simp
  next
    case (Serving sk client ses)
    with waits have "nd_next nd = Handle 0"
      by (auto simp: one_time_waits_def session_nodes_def split: session.splits)
    with 5(5) obtain b where "run_co (ot_sys p) (one_time_body p) (s, ?w) = Inr (b, s', w')" and ready
      by (auto simp: run_next_def resume_def one_time_contractD(3) [OF contract])
    from one_time_body_inv [OF contract _ 5(3,4) this(1), of old] inv Serving \<open>ready\<close> show ?thesis
      by (simp add: one_time_inv_def)
  next
    case Returned
    with waits show ?thesis by (simp add: one_time_waits_def)
  qed
qed

lemma one_time_main_settled:
  assumes contract: "one_time_contract p opened received sent L"
    and start: "one_time_main p en dm w0 = Inr (s, w)" "ot_frame p w = Accepting L" "received w = []" "sent w = []"
  defines "old \<equiv> insert (epfd (the_poller s)) (opened w0)"
  shows "one_time_server.settled p opened received sent L old s w" "counted 0 None s w" "epfd (the_poller s) \<notin> opened w0"
proof -
  from start(1) obtain sk w1 where listening: "accept_start (ot_net p) en 10 dm w0 = Inr (sk, s, w1)"
    and w: "w = ot_set p (Accepting sk) w1" by (auto simp: one_time_main_def)
  with start(2) have sk: "sk = L" by (simp add: one_time_contractD(5) [OF contract])
  note effect = accept_start_effect [OF one_time_contractD(1,16) [OF contract] listening [unfolded sk]]
  show "epfd (the_poller s) \<notin> opened w0" by (rule effect(4))
  show "counted 0 None s w" using effect(3) by (simp add: counted_def)
  have "one_time_waits p w = Some (sk_fd L, \<lparr>nd_ev = ev_READ, nd_revent = 0, nd_next = Proxy 0\<rparr>)"
    by (simp add: one_time_waits_def start(2))
  moreover have "one_time_inv p opened received sent L old w"
    using effect(5) start contract by (simp add: one_time_inv_def old_def w one_time_contractD(6) [OF contract])
  ultimately show "one_time_server.settled p opened received sent L old s w"
    using effect(1,2) by (simp add: one_time_server.settled_def)
qed

section \<open>A world for one connection\<close>

text \<open>
  A script of what accepting (0 is a connection, another number an error) or connecting returns, of what
  is read and of the events; standard input and output; and the frame, the event and the result.
\<close>

record 'f lone_world =
  lw_frame :: 'f
  lw_event :: event
  lw_result :: "(sock, error_code) expected"
  lw_open :: "int list"
  lw_calls :: "int list"
  lw_input :: "string list"
  lw_received :: string
  lw_sent :: string
  lw_batches :: "epoll_event list list"
  lw_lines :: "string list"
  lw_asked :: "string list"
  lw_printed :: "string list"

definition lw_fresh :: "'f lone_world \<Rightarrow> int" where
  "lw_fresh w = 1 + foldr max (lw_open w) 0"

definition lw_take :: "'f lone_world \<Rightarrow> (int + int) \<times> 'f lone_world" where
  "lw_take w = (Inr (lw_fresh w), w\<lparr>lw_open := lw_fresh w # lw_open w\<rparr>)"

definition lw_call :: "'f lone_world \<Rightarrow> int \<times> 'f lone_world" where
  "lw_call w = (case lw_calls w of [] \<Rightarrow> (11, w) | e # rest \<Rightarrow> (e, w\<lparr>lw_calls := rest\<rparr>))"

definition lw_accept :: "'f lone_world \<Rightarrow> (int + int) \<times> 'f lone_world" where
  "lw_accept w = (case lw_call w of (errno, w1) \<Rightarrow> if errno = 0 then lw_take w1 else (Inl errno, w1))"

definition lw_read :: "nat \<Rightarrow> 'f lone_world \<Rightarrow> (int + string) \<times> 'f lone_world" where
  "lw_read len w =
     (case lw_input w of
        [] \<Rightarrow> (Inl 11, w)
      | data # rest \<Rightarrow> (Inr (take len data), w\<lparr>lw_input := rest, lw_received := lw_received w @ take len data\<rparr>))"

definition lw_wait :: "'f lone_world \<Rightarrow> (int + epoll_event list) \<times> 'f lone_world" where
  "lw_wait w = (case lw_batches w of [] \<Rightarrow> (Inr [], w) | b # bs \<Rightarrow> (Inr b, w\<lparr>lw_batches := bs\<rparr>))"

definition lone_net :: "(nat \<Rightarrow> 'f lone_world co) \<Rightarrow> (nat \<Rightarrow> 'f lone_world co) \<Rightarrow> 'f lone_world net" where
  "lone_net bodies calls = \<lparr>net_sys =
        \<lparr>sys_epoll_create = lw_take, sys_close = (\<lambda>fd w. (0, w\<lparr>lw_open := filter (\<lambda>x. x \<noteq> fd) (lw_open w)\<rparr>)),
         sys_epoll_ctl = (\<lambda>ep op fd e w. (0, w)), sys_epoll_wait = (\<lambda>ep n t. lw_wait), sys_now = (\<lambda>w. (0, w)),
         sys_sleep = (\<lambda>ns w. w), sys_store = (\<lambda>r e w. w\<lparr>lw_event := e\<rparr>), sys_resume = bodies, sys_call = calls,
         sys_done = (\<lambda>h w. False)\<rparr>,
      net_socket = (\<lambda>d p. lw_take), net_reuse = (\<lambda>fd w. (0, w)), net_bind = (\<lambda>fd a n w. (0, w)),
      net_listen = (\<lambda>fd n w. (0, w)), net_connect = (\<lambda>fd a n. lw_call), net_accept = (\<lambda>fd. lw_accept),
      net_read = (\<lambda>fd. lw_read),
      net_write = (\<lambda>fd data w. (Inr (length data), w\<lparr>lw_sent := lw_sent w @ data\<rparr>)),
      net_res = (\<lambda>h r w. w\<lparr>lw_result := r\<rparr>)\<rparr>"

lemma lone_net_fields:
  "net_socket (lone_net b c) d p = lw_take" "net_reuse (lone_net b c) fd w = (0, w)"
  "net_bind (lone_net b c) fd a n w = (0, w)" "net_listen (lone_net b c) fd n w = (0, w)"
  "net_connect (lone_net b c) fd a n = lw_call" "net_accept (lone_net b c) fd = lw_accept" "net_read (lone_net b c) fd = lw_read"
  "net_write (lone_net b c) fd data w = (Inr (length data), w\<lparr>lw_sent := lw_sent w @ data\<rparr>)"
  "net_res (lone_net b c) h r w = w\<lparr>lw_result := r\<rparr>"
  "sys_epoll_create (net_sys (lone_net b c)) = lw_take"
  "sys_close (net_sys (lone_net b c)) fd w = (0, w\<lparr>lw_open := filter (\<lambda>x. x \<noteq> fd) (lw_open w)\<rparr>)"
  "sys_epoll_ctl (net_sys (lone_net b c)) ep op fd e w = (0, w)" "sys_epoll_wait (net_sys (lone_net b c)) ep n t = lw_wait"
  "sys_now (net_sys (lone_net b c)) w = (0, w)" "sys_sleep (net_sys (lone_net b c)) ns w = w"
  "sys_store (net_sys (lone_net b c)) place e w = w\<lparr>lw_event := e\<rparr>"
  "sys_resume (net_sys (lone_net b c)) = b" "sys_call (net_sys (lone_net b c)) = c"
  by (simp_all add: lone_net_def)

lemma lw_fresh_new: "lw_fresh w \<notin> set (lw_open w)" "0 < lw_fresh w"
  using foldr_max_ge(1) [of "lw_open w"] foldr_max_ge(2) [of "lw_fresh w" "lw_open w"]
  by (auto simp: lw_fresh_def)

lemma lw_call_frame:
  "lw_call w = (e, w') \<Longrightarrow> lw_open w' = lw_open w \<and> lw_frame w' = lw_frame w \<and> lw_received w' = lw_received w \<and>
     lw_sent w' = lw_sent w \<and> lw_asked w' = lw_asked w \<and> lw_printed w' = lw_printed w"
  by (auto simp: lw_call_def split: list.splits)

lemma lw_accept_frame:
  "lw_accept w = (r, w') \<Longrightarrow> lw_frame w' = lw_frame w \<and> lw_received w' = lw_received w \<and> lw_sent w' = lw_sent w \<and>
     (case r of Inl errno \<Rightarrow> lw_open w' = lw_open w | Inr fd \<Rightarrow> fd = lw_fresh w \<and> lw_open w' = fd # lw_open w)"
  using lw_call_frame [of w]
  by (auto simp: lw_accept_def lw_take_def lw_fresh_def split: prod.splits if_splits)

lemma lone_descriptors: "descriptor_contract (lone_net b c) (set \<circ> lw_open)"
  unfolding descriptor_contract_def
  by (intro conjI allI impI) (auto simp: lone_net_fields lw_take_def lw_fresh_new dest!: lw_accept_frame)

lemma lone_stream: "stream_contract (lone_net b c) fd lw_received lw_sent"
  by (auto simp: stream_contract_def lone_net_fields lw_read_def split: list.splits)

text \<open>The bodies behind handles and callables need the system calls only.\<close>

definition one_time_of :: "(nat \<Rightarrow> one_time_frame lone_world co) \<Rightarrow> (nat \<Rightarrow> one_time_frame lone_world co) \<Rightarrow>
    one_time_frame lone_world one_time" where
  "one_time_of bodies calls = \<lparr>ot_net = lone_net bodies calls, ot_frame = lw_frame, ot_set = (\<lambda>f w. w\<lparr>lw_frame := f\<rparr>),
     ot_event = lw_event, ot_result = lw_result\<rparr>"

definition one_time_sock :: sock where
  "one_time_sock = \<lparr>sk_fd = 3, sk_domain = IPv4, sk_role = SERVER\<rparr>"

definition one_time_bodies :: "nat \<Rightarrow> one_time_frame lone_world co" where
  "one_time_bodies h = one_time_body (one_time_of (\<lambda>_. Stop True) (\<lambda>_. Stop True))"

definition one_time_calls :: "nat \<Rightarrow> one_time_frame lone_world co" where
  "one_time_calls q = accept_proxy (lone_net one_time_bodies (\<lambda>_. Stop True)) one_time_sock q"

definition one_time_example :: "one_time_frame lone_world one_time" where
  "one_time_example = one_time_of one_time_bodies one_time_calls"

definition lone_begins :: "'f \<Rightarrow> 'f lone_world" where
  "lone_begins f = \<lparr>lw_frame = f, lw_event = 0, lw_result = Error (trans_error_code 0), lw_open = [2, 1], lw_calls = [0],
     lw_input = [''ab''], lw_received = [], lw_sent = [],
     lw_batches = [[\<lparr>ee_events = 1, ee_fd = 3\<rparr>], [\<lparr>ee_events = 1, ee_fd = 5\<rparr>], [\<lparr>ee_events = 4, ee_fd = 5\<rparr>],
       [\<lparr>ee_events = 0x10, ee_fd = 5\<rparr>]],
     lw_lines = [], lw_asked = [], lw_printed = []\<rparr>"

lemma one_time_body_of: "one_time_body (one_time_of b c) = one_time_body (one_time_of b' c')"
proof -
  have step: "one_time_resume (lone_net b c) = one_time_resume (lone_net b' c')"
    using session_resume_net [of "lone_net b c" "lone_net b' c'" One_time_session] by (simp add: lone_net_def)
  have dtor: "sock_dtor_co (lone_net b c) = sock_dtor_co (lone_net b' c')"
    by (rule ext)+ (simp add: sock_dtor_co_def lone_net_fields)
  have fields: "ot_net (one_time_of b c) = lone_net b c" "ot_net (one_time_of b' c') = lone_net b' c'"
    "ot_frame (one_time_of b c) = ot_frame (one_time_of b' c')" "ot_set (one_time_of b c) = ot_set (one_time_of b' c')"
    "ot_event (one_time_of b c) = ot_event (one_time_of b' c')" "ot_result (one_time_of b c) = ot_result (one_time_of b' c')"
    by (simp_all add: one_time_of_def)
  show ?thesis unfolding one_time_body_def one_time_await_def fields step dtor ..
qed

lemma accept_proxy_calls: "accept_proxy (lone_net b c) sk q = accept_proxy (lone_net b c') sk q"
proof -
  have "net_res (lone_net b c) = net_res (lone_net b c')" "net_accept (lone_net b c) = net_accept (lone_net b c')"
    "sys_resume (net_sys (lone_net b c)) = sys_resume (net_sys (lone_net b c'))"
    by (simp_all add: lone_net_def)
  then show ?thesis unfolding accept_proxy_def by (simp only:)
qed

lemma one_time_example_contract:
  "one_time_contract one_time_example (set \<circ> lw_open) lw_received lw_sent one_time_sock"
proof -
  have net: "ot_net one_time_example = lone_net one_time_bodies one_time_calls"
    by (simp add: one_time_example_def one_time_of_def)
  have "one_time_bodies 0 = one_time_body one_time_example"
    unfolding one_time_bodies_def one_time_example_def by (rule one_time_body_of)
  then have bodies: "sys_resume (ot_sys one_time_example) 0 = one_time_body one_time_example"
    by (simp add: net lone_net_fields)
  have "one_time_calls 0 = accept_proxy (ot_net one_time_example) one_time_sock 0"
    unfolding one_time_calls_def net by (rule accept_proxy_calls)
  then have calls: "sys_call (ot_sys one_time_example) 0 = accept_proxy (ot_net one_time_example) one_time_sock 0"
    by (simp add: net lone_net_fields)
  have fields: "ot_frame one_time_example = lw_frame" "ot_set one_time_example f w = w\<lparr>lw_frame := f\<rparr>"
    "ot_result one_time_example = lw_result" for f w
    by (simp_all add: one_time_example_def one_time_of_def)
  have accept: "lw_frame (snd (lw_accept w)) = lw_frame w" "lw_received (snd (lw_accept w)) = lw_received w"
    "lw_sent (snd (lw_accept w)) = lw_sent w" for w :: "one_time_frame lone_world"
    using lw_accept_frame [of w] by (metis prod.collapse)+
  show ?thesis
    unfolding one_time_contract_def Let_def
    by (intro conjI allI impI)
      (rule bodies calls | simp add: net fields lone_descriptors lone_stream lone_net_fields ot_same_def accept lw_take_def
        lw_fresh_new lw_read_def lw_wait_def split: list.split | auto simp: net lone_net_fields lw_take_def lw_fresh_new)+
qed

text \<open>How the program starts there: the socket gets the descriptor 3, the \<open>epoll\<close> instance 4.\<close>

lemma lone_accept_start:
  assumes "lw_open w = [2, 1]"
  shows "accept_start (lone_net b c) Little backlog IPv6 w =
    res_bind (await_accept (lone_net b c) 0 0 one_time_sock
      (new_sched \<lparr>epfd = 4, focus = [], evs = []\<rparr>, w\<lparr>lw_open := [4, 3, 2, 1]\<rparr>)) (\<lambda>st. Inr (one_time_sock, st))"
proof -
  obtain sa where addr: "address_ctor Little ''127.0.0.1'' 12345 = Inr (V4 sa)" using loopback_address by blast
  have open3: "lw_take w = (Inr 3, w\<lparr>lw_open := [3, 2, 1]\<rparr>)"
    by (simp add: lw_take_def lw_fresh_def assms)
  have open4: "lw_take (w\<lparr>lw_open := [3, 2, 1]\<rparr>) = (Inr 4, w\<lparr>lw_open := [4, 3, 2, 1]\<rparr>)"
    by (simp add: lw_take_def lw_fresh_def)
  have "sock_bind_listen (lone_net b c) TCP (V4 sa) backlog (sock_default IPv6, w) =
      (None, one_time_sock, w\<lparr>lw_open := [3, 2, 1]\<rparr>)"
    by (simp add: sock_bind_listen_def sock_bind_def use_domain_def sock_listen_def sock_default_def lone_net_fields open3
        one_time_sock_def)
  then show ?thesis
    by (simp add: accept_start_def default_scheduler_def addr poller_ctor_def lone_net_fields open4)
qed

definition one_time_started :: "(sched \<times> one_time_frame lone_world) result" where
  "one_time_started =
     res_bind (await_accept (ot_net one_time_example) 0 0 one_time_sock
         (new_sched \<lparr>epfd = 4, focus = [], evs = []\<rparr>, (lone_begins Returned)\<lparr>lw_open := [4, 3, 2, 1]\<rparr>))
       (\<lambda>(s, w). Inr (s, w\<lparr>lw_frame := Accepting one_time_sock\<rparr>))"

lemma one_time_started_main: "one_time_main one_time_example Little IPv6 (lone_begins Returned) = one_time_started"
  by (simp add: one_time_main_def one_time_started_def one_time_example_def one_time_of_def lone_accept_start lone_begins_def
      res_bind_assoc)

lemma one_time_started_frame:
  "one_time_started = Inr (s, w) \<Longrightarrow> lw_frame w = Accepting one_time_sock \<and> lw_received w = [] \<and> lw_sent w = []"
proof -
  assume "one_time_started = Inr (s, w)"
  then obtain w1 where wait: "post_descriptor (ot_sys one_time_example) (sk_fd one_time_sock) ev_READ 0 (Proxy 0)
      (new_sched \<lparr>epfd = 4, focus = [], evs = []\<rparr>, (lone_begins Returned)\<lparr>lw_open := [4, 3, 2, 1]\<rparr>) = Inr (s, w1)"
    and w: "w = w1\<lparr>lw_frame := Accepting one_time_sock\<rparr>"
    by (auto simp: one_time_started_def await_accept_def accept_suspend_def)
  from poller_subscribe_Inr(4) [OF post_descriptor_effect(2) [OF wait]]
  have "w1 = (lone_begins Returned)\<lparr>lw_open := [4, 3, 2, 1]\<rparr>"
    by (auto simp: one_time_example_def one_time_of_def lone_net_fields split: option.splits)
  then show ?thesis by (simp add: w lone_begins_def)
qed

text \<open>When \<open>run\<close> returns the coroutine has; then the scheduler is destroyed.\<close>

lemma one_time_run_ends:
  assumes settled: "one_time_server.settled p opened received sent L (insert (epfd (the_poller s)) old) s w" "counted 0 None s w"
    and run: "run n (ot_sys p) (s, w) = Inr (s', w')" and fresh: "epfd (the_poller s) \<notin> old"
  shows "ot_frame p w' = Returned \<and> opened (poller_dtor (ot_sys p) (the_poller s') w') = old"
proof -
  let ?old = "insert (epfd (the_poller s)) old"
  from settled(1) have contract: "one_time_contract p opened received sent L"
    by (simp add: one_time_server.settled_def one_time_inv_def)
  from one_time_server.run_settled [OF settled run] have inv': "one_time_inv p opened received sent L ?old w'"
    and none: "one_time_waits p w' = None" by (simp_all add: one_time_server.settled_def)
  from none inv' have frame: "ot_frame p w' = Returned"
    by (auto simp: one_time_waits_def one_time_inv_def session_nodes_def split: one_time_frame.splits session.splits)
  with inv' have "opened w' = ?old" by (simp add: one_time_inv_def)
  moreover have "epfd (the_poller s') = epfd (the_poller s)"
    using instance_kept.run_R [OF behaved_UNIV _ run] by blast
  ultimately have "opened (poller_dtor (ot_sys p) (the_poller s') w') = old"
    using descriptor_contractD(5) [OF one_time_contractD(1) [OF contract]] fresh
    by (simp add: poller_dtor_def) (metis Diff_insert_absorb prod.collapse)
  with frame show ?thesis by simp
qed

section \<open>Properties\<close>

text \<open>
  C9. The program \<open>one-time-server.cxx\<close>. In every state under its loop exactly one thing waits: the callable
  on the listening descriptor, later the coroutine on the connection's descriptor, for reading or for
  writing as its \<open>co_await\<close> says, and in the end nothing; the descriptors open are those from before, the
  \<open>epoll\<close> instance, the listening socket and, once accepted, the connection, until the coroutine returns
  and closes both; what is sent is part of what was received, in order. \<open>run\<close> returns only when the
  coroutine has, and after the exit every descriptor the program has opened is closed.
\<close>

theorem one_time_server_serves:
  assumes contract: "one_time_contract p opened received sent L"
    and start: "one_time_main p en dm w0 = Inr (s0, w1)" "ot_frame p w1 = Accepting L" "received w1 = []" "sent w1 = []"
    and state: "loop_state (ot_sys p) (s0, w1) (s, w)"
  shows "(case ot_frame p w of
       Accepting sk \<Rightarrow> sk = L \<and> opened w = opened w0 \<union> {epfd (the_poller s), sk_fd L} \<and>
         (\<forall>fd. map nd_next (nodes_of s fd) = (if fd = sk_fd L then [Proxy 0] else []))
     | Serving sk client ses \<Rightarrow> sk = L \<and> opened w = opened w0 \<union> {epfd (the_poller s), sk_fd L, sk_fd client} \<and>
         sk_fd client \<notin> opened w0 \<union> {sk_fd L} \<and>
         (\<forall>fd. map nd_next (nodes_of s fd) = (if fd = sk_fd client then [Handle 0] else [])) \<and>
         (\<forall>nd \<in> set (nodes_of s (sk_fd client)). nd_ev nd AND ev_READ \<noteq> 0 \<longleftrightarrow> ses = Reading)
     | Returned \<Rightarrow> opened w = opened w0 \<union> {epfd (the_poller s)} \<and> (\<forall>fd. nodes_of s fd = [])) \<and>
    subseq (sent w) (received w) \<and>
    (run n (ot_sys p) (s, w) = Inr (s', w') \<longrightarrow>
       ot_frame p w' = Returned \<and> opened (poller_dtor (ot_sys p) (the_poller s') w') = opened w0)"
proof -
  let ?old = "insert (epfd (the_poller s0)) (opened w0)"
  note begun = one_time_main_settled [OF contract start]
  from one_time_server.loop_state_settled [OF state begun(1,2)]
  have settled: "one_time_server.settled p opened received sent L ?old s w" and count: "counted 0 None s w" by simp_all
  note ep = instance_looped [OF state]
  from settled have inv: "one_time_inv p opened received sent L ?old w" and nodes: "nodes_of s = lone_nodes (one_time_waits p w)"
    by (simp_all add: one_time_server.settled_def)
  have streams: "subseq (sent w) (received w)"
  proof (cases "ot_frame p w")
    case (Serving sk client ses)
    with inv have "echo_inv False (ot_net p) client received sent ses w" by (simp add: one_time_inv_def)
    from echo_inv_streams(1) [OF this one_time_contractD(2) [OF contract]] show ?thesis .
  qed (use inv in \<open>simp_all add: one_time_inv_def\<close>)
  from settled begun(3) have "one_time_server.settled p opened received sent L (insert (epfd (the_poller s)) (opened w0)) s w"
    and "epfd (the_poller s) \<notin> opened w0" by (simp_all add: ep)
  note ended = one_time_run_ends [OF this(1) count _ this(2)]
  show ?thesis
  proof (cases "ot_frame p w")
    case (Serving sk client ses)
    with inv nodes ep streams ended show ?thesis
      by (cases ses) (auto simp: one_time_inv_def one_time_waits_def session_nodes_def holds_def event_defs)
  qed (use inv nodes ep streams ended in \<open>auto simp: one_time_inv_def one_time_waits_def holds_def\<close>)
qed

theorem one_time_server_serves_witness:
  "\<exists>w'. one_time_program 5 one_time_example Little IPv6 (lone_begins Returned) = Inr w' \<and>
    lw_sent w' = ''ab'' \<and> set (lw_open w') = {1, 2}"
proof -
  have "case res_bind one_time_started (run 5 (ot_sys one_time_example)) of
      Inr (s', w') \<Rightarrow> lw_sent w' = ''ab'' | Inl f \<Rightarrow> False" by code_simp
  then obtain s w s' w' where start: "one_time_started = Inr (s, w)"
    and run: "run 5 (ot_sys one_time_example) (s, w) = Inr (s', w')" and sent: "lw_sent w' = ''ab''"
    by (auto split: sum.splits)
  note begins = one_time_started_frame [OF start]
  have frame: "ot_frame one_time_example = lw_frame" by (simp add: one_time_example_def one_time_of_def)
  let ?w = "poller_dtor (ot_sys one_time_example) (the_poller s') w'"
  have "(set \<circ> lw_open) ?w = (set \<circ> lw_open) (lone_begins Returned)"
    using one_time_server_serves [OF one_time_example_contract, of Little IPv6 "lone_begins Returned" s w s w 5 s' w']
      one_time_started_main start begins frame run loop_state.entered by metis
  then have "set (lw_open ?w) = {1, 2}" by (auto simp: lone_begins_def)
  moreover have "lw_sent ?w = ''ab''"
    using sent by (simp add: poller_dtor_def one_time_example_def one_time_of_def lone_net_fields)
  moreover have "one_time_program 5 one_time_example Little IPv6 (lone_begins Returned) = Inr ?w"
    by (simp add: one_time_program_def one_time_started_main start run)
  ultimately show ?thesis by blast
qed

end
