(* ===== verification/BC_Client.thy ===== *)
theory BC_Client
  imports BC_One_Time
begin

text \<open>
  The program \<open>client.cxx\<close> from its start to its end: the coroutine of \<open>client::async_connect\<close>, which connects and
  calls the handler, the handler's coroutine, whose steps are those of \<open>BC_Programs\<close>, and the loop that
  resumes the one and then the other. They never wait at the same time: an instance of \<open>lone_coroutine\<close>.
\<close>

section \<open>The coroutines\<close>

text \<open>
  The socket is the member of the client object; the coroutines and their events have the numbers 0
  (\<open>async_connect\<close>) and 1 (the handler). \<open>sp_junk\<close> is what the buffer on the stack holds.
\<close>

datatype client_frame = Connecting sock address | Talking sock shell

record 'w shell_program =
  sp_net :: "'w net"
  sp_tty :: "'w tty"
  sp_junk :: "'w \<Rightarrow> string"
  sp_frame :: "'w \<Rightarrow> client_frame"
  sp_set :: "client_frame \<Rightarrow> 'w \<Rightarrow> 'w"
  sp_event :: "nat \<Rightarrow> 'w \<Rightarrow> event"

abbreviation sp_sys :: "'w shell_program \<Rightarrow> 'w sys" where
  "sp_sys p \<equiv> net_sys (sp_net p)"

text \<open>The handler up to its next suspension, or to its end.\<close>

definition client_talk :: "'w shell_program \<Rightarrow> sock \<Rightarrow> shell \<Rightarrow> 'w co" where
  "client_talk p sk sh = Effect (sp_set p (Talking sk sh)) (\<lambda>_.
     case sh of
       Sending l \<Rightarrow> write_suspend sk 1 1
     | Receiving \<Rightarrow> read_suspend sk 1 1
     | Closed \<Rightarrow> Stop True)"

text \<open>\<open>async_connect\<close> after its \<open>co_await\<close>, whose result is not used: the handler is called.\<close>

definition connected :: "'w shell_program \<Rightarrow> sock \<Rightarrow> address \<Rightarrow> event \<Rightarrow> 'w \<Rightarrow> shell \<times> 'w" where
  "connected p sk addr e w = shell_next (sp_tty p) (snd (connect_resume (sp_net p) (sk_fd sk) addr e w))"

definition connect_body :: "'w shell_program \<Rightarrow> 'w co" where
  "connect_body p = Effect (\<lambda>w. w) (\<lambda>w.
     case sp_frame p w of
       Connecting sk addr \<Rightarrow>
         Effect (\<lambda>w. snd (connected p sk addr (sp_event p 0 w) w)) (\<lambda>w.
           client_talk p sk (fst (connected p sk addr (sp_event p 0 w) w)))
     | Talking sk sh \<Rightarrow> Die By_terminate)"

definition shell_body :: "'w shell_program \<Rightarrow> 'w co" where
  "shell_body p = Effect (\<lambda>w. w) (\<lambda>w.
     case sp_frame p w of
       Connecting sk addr \<Rightarrow> Die By_terminate
     | Talking sk sh \<Rightarrow>
         (let resumed = (\<lambda>w. shell_resume (sp_net p) (sp_tty p) (sp_junk p w) sk (sp_event p 1 w) (sh, w)) in
          Effect (\<lambda>w. case resumed w of Inl f \<Rightarrow> w | Inr (sh1, w1) \<Rightarrow> w1) (\<lambda>w.
            case resumed w of Inl f \<Rightarrow> Die (ending_of f) | Inr (sh1, w1) \<Rightarrow> client_talk p sk sh1)))"

text \<open>
  \<open>main\<close> up to \<open>run\<close>: \<open>async_connect\<close> up to its suspension, or the handler up to its own when the connection is
  made at once; the scheduler is made by the suspension, or by \<open>run\<close> if there is none. An exception terminates.
\<close>

definition client_main :: "nat \<Rightarrow> 'w shell_program \<Rightarrow> endian \<Rightarrow> ip_domain \<Rightarrow> 'w \<Rightarrow> (sched \<times> 'w) result" where
  "client_main k p en dm w0 =
     res_bind (contain (address_ctor en ''127.0.0.1'' 12345)) (\<lambda>addr.
       case sock_async_connect (sp_net p) TCP addr (sock_default dm, w0) of
         (Some fault, sk, w1) \<Rightarrow> contain (Inl fault)
       | (None, sk, w1) \<Rightarrow>
           res_bind (connect_ready k (sp_net p) (sk_fd sk) addr w1) (\<lambda>(ready, w2).
           let (c, w3) =
             (if ready then (case connected p sk addr ev_NONE w2 of (sh, w3) \<Rightarrow> (client_talk p sk sh, w3))
              else (Effect (sp_set p (Connecting sk addr)) (\<lambda>_. connect_suspend (sk_fd sk) 0 0), w2))
           in res_bind (default_scheduler (sp_sys p) w3) (\<lambda>st.
              res_bind (run_co (sp_sys p) c st) (\<lambda>(_, st1). Inr st1))))"

text \<open>The end of \<open>main\<close>: the client object with its socket, and at the exit the scheduler.\<close>

definition client_end :: "'w shell_program \<Rightarrow> sched \<times> 'w \<Rightarrow> 'w result" where
  "client_end p st =
     res_bind (sock_dtor (sp_net p) (case sp_frame p (snd st) of Connecting sk _ \<Rightarrow> sk | Talking sk _ \<Rightarrow> sk) st)
       (\<lambda>(s, w). Inr (poller_dtor (sp_sys p) (the_poller s) w))"

definition client_program :: "nat \<Rightarrow> nat \<Rightarrow> 'w shell_program \<Rightarrow> endian \<Rightarrow> ip_domain \<Rightarrow> 'w \<Rightarrow> 'w result" where
  "client_program k n p en dm w0 =
     res_bind (client_main k p en dm w0) (\<lambda>st. res_bind (run n (sp_sys p) st) (client_end p))"

text \<open>What it waits for.\<close>

definition client_waits :: "'w shell_program \<Rightarrow> 'w \<Rightarrow> (int \<times> node) option" where
  "client_waits p w =
     (case sp_frame p w of
        Connecting sk addr \<Rightarrow>
          Some (sk_fd sk, \<lparr>nd_ev = ev_WRITE OR ev_ERROR OR ev_HANGUP, nd_revent = 0, nd_next = Handle 0\<rparr>)
      | Talking sk sh \<Rightarrow>
          (case sh of
             Sending l \<Rightarrow> Some (sk_fd sk, \<lparr>nd_ev = ev_WRITE OR ev_ERROR OR ev_HANGUP, nd_revent = 1, nd_next = Handle 1\<rparr>)
           | Receiving \<Rightarrow>
               Some (sk_fd sk, \<lparr>nd_ev = ev_READ OR ev_ERROR OR ev_HANGUP OR ev_RDHANGUP, nd_revent = 1, nd_next = Handle 1\<rparr>)
           | Closed \<Rightarrow> None))"

section \<open>The conversation\<close>

text \<open>\<open>asked\<close>: the lines read from the standard input so far; \<open>printed\<close>: the lines written.\<close>

definition tty_contract :: "'w tty \<Rightarrow> ('w \<Rightarrow> string list) \<Rightarrow> ('w \<Rightarrow> string list) \<Rightarrow> bool" where
  "tty_contract tty asked printed \<longleftrightarrow>
     (\<forall>w r w'. in_line tty w = (r, w') \<longrightarrow>
        printed w' = printed w \<and> asked w' = asked w @ (case r of None \<Rightarrow> [] | Some l \<Rightarrow> [l])) \<and>
     (\<forall>l w. asked (out_line tty l w) = asked w \<and> printed (out_line tty l w) = printed w @ [l])"

text \<open>
  Line by line: one reply is printed for each line before the next is asked for; the lines are sent in
  order, with whole writes completely; what is printed comes from what was received, in order.
\<close>

definition conversing :: "bool \<Rightarrow> shell \<Rightarrow> string list \<Rightarrow> string list \<Rightarrow> string \<Rightarrow> string \<Rightarrow> bool" where
  "conversing whole sh asked printed received sent \<longleftrightarrow>
     subseq (concat printed) received \<and>
     (case sh of
        Sending l \<Rightarrow> (\<exists>ls. asked = ls @ [l] \<and> length printed = length ls \<and> subseq sent (concat ls) \<and> (whole \<longrightarrow> sent = concat ls))
      | Receiving \<Rightarrow> length asked = Suc (length printed) \<and> subseq sent (concat asked) \<and> (whole \<longrightarrow> sent = concat asked)
      | Closed \<Rightarrow> length printed \<le> length asked \<and> length asked \<le> Suc (length printed) \<and> subseq sent (concat asked) \<and>
          (whole \<longrightarrow> prefix sent (concat asked)))"

lemma print_buffer_effect:
  "print_buffer tty junk data w = Inr w' \<Longrightarrow> w' = out_line tty (takeWhile (\<lambda>c. c \<noteq> CHR 0x00) data) w"
proof -
  assume "print_buffer tty junk data w = Inr w'"
  then have less: "length data < length (data @ drop (length data) junk)"
    and w': "w' = out_line tty (takeWhile (\<lambda>c. c \<noteq> CHR 0x00) ((data @ drop (length data) junk)[length data := CHR 0x00])) w"
    by (auto simp: print_buffer_def vec_set_def split: if_splits)
  from less obtain c rest where "drop (length data) junk = c # rest" by (cases "drop (length data) junk") auto
  then show ?thesis by (simp add: w' list_update_append takeWhile_tail)
qed

text \<open>After a line, or the end of the input.\<close>

lemma conversing_next:
  assumes tty: "tty_contract tty asked printed" and "shell_next tty w = (sh, w')"
    and "subseq (concat (printed w)) inp" "length (asked w) = length (printed w)"
    and "subseq out (concat (asked w))" "whole \<longrightarrow> out = concat (asked w)"
  shows "conversing whole sh (asked w') (printed w') inp out"
proof -
  obtain r w1 where line: "in_line tty w = (r, w1)" by fastforce
  with tty have io: "printed w1 = printed w" "asked w1 = asked w @ (case r of None \<Rightarrow> [] | Some l \<Rightarrow> [l])"
    by (auto simp: tty_contract_def)
  from assms(2) line have out: "sh = (case r of None \<Rightarrow> Closed | Some l \<Rightarrow> Sending l)" "w' = w1"
    by (auto simp: shell_next_def split: option.splits)
  show ?thesis using assms(3-) by (cases r) (auto simp: conversing_def out io)
qed

lemma conversing_step:
  assumes stream: "stream_contract net (sk_fd sk) received sent" and tty: "tty_contract tty asked printed"
    and apart: "\<And>r. received (snd (in_line tty r)) = received r \<and> sent (snd (in_line tty r)) = sent r"
      "\<And>l r. received (out_line tty l r) = received r \<and> sent (out_line tty l r) = sent r"
      "\<And>r. asked (snd (net_read net (sk_fd sk) buffer_size r)) = asked r \<and> printed (snd (net_read net (sk_fd sk) buffer_size r)) = printed r"
      "\<And>data r. asked (snd (net_write net (sk_fd sk) data r)) = asked r \<and> printed (snd (net_write net (sk_fd sk) data r)) = printed r"
    and step: "shell_resume net tty junk sk e (sh, w) = Inr (sh', w')"
    and now: "conversing (writes_whole net (sk_fd sk)) sh (asked w) (printed w) (received w) (sent w)"
  shows "conversing (writes_whole net (sk_fd sk)) sh' (asked w') (printed w') (received w') (sent w')"
proof (cases sh)
  case (Sending l)
  obtain r w1 where wr: "write_resume net sk l e w = (r, w1)" by fastforce
  with step Sending have out: "w' = w1" "sh' = (case r of Value n \<Rightarrow> Receiving | Error _ \<Rightarrow> Closed)"
    by (cases r; auto simp: shell_resume_def split: sum.splits)+
  from now Sending obtain ls where ls: "asked w = ls @ [l]" "length (printed w) = length ls" "subseq (sent w) (concat ls)"
    "writes_whole net (sk_fd sk) \<longrightarrow> sent w = concat ls" "subseq (concat (printed w)) (received w)"
    by (auto simp: conversing_def)
  have io: "net_write net (sk_fd sk) l w = (x, w1) \<Longrightarrow> received w1 = received w \<and> asked w1 = asked w \<and> printed w1 = printed w \<and>
      sent w1 = sent w @ (case x of Inl errno \<Rightarrow> [] | Inr n \<Rightarrow> take n l)" for x
    using stream apart(4) [of l w] unfolding stream_contract_def by fastforce
  have part: "subseq (sent w @ take n l) (concat ls @ l)" for n
    using ls(3) by (intro list_emb_append_mono) (auto simp: take_is_prefix prefix_imp_subseq)
  have whole: "writes_whole net (sk_fd sk) \<Longrightarrow>
      case fst (net_write net (sk_fd sk) l w) of Inl errno \<Rightarrow> \<not> negligible errno | Inr n \<Rightarrow> length l \<le> n"
    unfolding writes_whole_def by blast
  show ?thesis
  proof (cases rule: write_resume_cases [OF wr])
    case (1 n)
    with io [OF 1(2)] whole part [of n] ls out show ?thesis by (auto simp: conversing_def)
  next
    case (2 errno)
    with io [OF 2(2)] whole part [of 0] ls out show ?thesis by (auto simp: conversing_def)
  next
    case (3 errno)
    with io [OF 3(2)] part [of 0] ls out show ?thesis by (auto simp: conversing_def)
  next
    case (4 code)
    with part [of 0] ls out show ?thesis by (auto simp: conversing_def)
  qed
next
  case Receiving
  with now have before: "length (asked w) = Suc (length (printed w))" "subseq (sent w) (concat (asked w))"
    "writes_whole net (sk_fd sk) \<longrightarrow> sent w = concat (asked w)" "subseq (concat (printed w)) (received w)"
    by (simp_all add: conversing_def)
  from step Receiving obtain r w1 where read: "read_resume net sk buffer_size e w = Inr (r, w1)"
    by (auto simp: shell_resume_def)
  have io: "net_read net (sk_fd sk) buffer_size w = (x, w1) \<Longrightarrow> sent w1 = sent w \<and> asked w1 = asked w \<and> printed w1 = printed w \<and>
      received w1 = received w @ (case x of Inl errno \<Rightarrow> [] | Inr data \<Rightarrow> data)" for x
    using stream apart(3) [of w] unfolding stream_contract_def by fastforce
  have replied: ?thesis if r: "r = Value data" and same: "sent w1 = sent w" "asked w1 = asked w" "printed w1 = printed w"
      "received w1 = received w @ data" for data
  proof -
    let ?line = "takeWhile (\<lambda>c. c \<noteq> CHR 0x00) data"
    from step Receiving read r obtain w2 where "print_buffer tty junk data w1 = Inr w2"
      and next_line: "shell_next tty w2 = (sh', w')" by (auto simp: shell_resume_def)
    from print_buffer_effect [OF this(1)] have w2: "w2 = out_line tty ?line w1" .
    have io2: "printed w2 = printed w @ [?line]" "asked w2 = asked w" "received w2 = received w @ data" "sent w2 = sent w"
      using tty apart(2) [of ?line w1] same by (simp_all add: w2 tty_contract_def)
    have "received w' = received w2 \<and> sent w' = sent w2"
      using apart(1) [of w2] next_line by (auto simp: shell_next_def split: prod.splits option.splits)
    moreover have "subseq (concat (printed w2)) (received w2)"
      using before(4) io2(1,3) by (simp add: list_emb_append_mono prefix_imp_subseq takeWhile_is_prefix)
    ultimately show ?thesis
      using conversing_next [OF tty next_line, of "received w2" "sent w2" "writes_whole net (sk_fd sk)"] before io2 by simp
  qed
  have failed: ?thesis if r: "r = Error code" and same: "sent w1 = sent w" "asked w1 = asked w" "printed w1 = printed w"
      "received w1 = received w" for code
  proof -
    from step Receiving read r have "sh' = Closed" "w' = w1" by (auto simp: shell_resume_def split: sum.splits)
    with before same show ?thesis by (simp add: conversing_def)
  qed
  show ?thesis
  proof (cases rule: read_resume_cases [OF read])
    case (1 data)
    with io [OF 1(2)] replied show ?thesis by simp
  next
    case (2 errno)
    with io [OF 2(2)] replied show ?thesis by simp
  next
    case (3 errno)
    with io [OF 3(2)] failed show ?thesis by simp
  next
    case (4 code)
    with failed show ?thesis by simp
  qed
next
  case Closed
  with step show ?thesis by (simp add: shell_resume_def)
qed

text \<open>Outside, a step of the handler reads or writes once, prints a line or asks for one.\<close>

lemma shell_resume_keeps:
  assumes step: "shell_resume net tty junk sk e (sh, w) = Inr (sh', w')" and start: "P w"
    and io: "\<And>w. P w \<Longrightarrow> P (snd (net_read net (sk_fd sk) buffer_size w))"
      "\<And>data w. P w \<Longrightarrow> P (snd (net_write net (sk_fd sk) data w))"
      "\<And>w. P w \<Longrightarrow> P (snd (in_line tty w))" "\<And>l w. P w \<Longrightarrow> P (out_line tty l w)"
  shows "P w'"
proof (cases sh)
  case (Sending l)
  obtain r w1 where wr: "write_resume net sk l e w = (r, w1)" by fastforce
  with step Sending have "w' = w1" by (cases r) (auto simp: shell_resume_def split: sum.splits)
  with io(2) [OF start, of l] start show ?thesis by (cases rule: write_resume_cases [OF wr]) auto
next
  case Receiving
  with step obtain r w1 where read: "read_resume net sk buffer_size e w = Inr (r, w1)" by (auto simp: shell_resume_def)
  from io(1) [OF start] start have w1: "P w1" by (cases rule: read_resume_cases [OF read]) auto
  show ?thesis
  proof (cases r)
    case (Value data)
    with step Receiving read obtain w2 where "print_buffer tty junk data w1 = Inr w2"
      and line: "shell_next tty w2 = (sh', w')" by (auto simp: shell_resume_def)
    from print_buffer_effect [OF this(1)] io(4) [OF w1] have "P w2" by simp
    from io(3) [OF this] line show ?thesis by (auto simp: shell_next_def split: prod.splits option.splits)
  next
    case (Error code)
    with step Receiving read w1 show ?thesis by (auto simp: shell_resume_def split: sum.splits)
  qed
next
  case Closed
  with step show ?thesis by (simp add: shell_resume_def)
qed

section \<open>Its contract and invariant\<close>

text \<open>Steps that change neither the frame, nor the open descriptors, nor the streams, nor the console.\<close>

definition sp_same ::
    "'w shell_program \<Rightarrow> ('w \<Rightarrow> int set) \<Rightarrow> ('w \<Rightarrow> string) \<Rightarrow> ('w \<Rightarrow> string) \<Rightarrow> ('w \<Rightarrow> string list) \<Rightarrow>
     ('w \<Rightarrow> string list) \<Rightarrow> 'w \<Rightarrow> 'w \<Rightarrow> bool" where
  "sp_same p opened received sent asked printed w w' \<longleftrightarrow>
     sp_frame p w' = sp_frame p w \<and> opened w' = opened w \<and> received w' = received w \<and> sent w' = sent w \<and>
     asked w' = asked w \<and> printed w' = printed w"

text \<open>
  The descriptors' contract, the stream's and the console's, and that the variables are separate: \<open>ends\<close> is what
  the steps that open or close descriptors keep.
\<close>

definition client_contract ::
    "'w shell_program \<Rightarrow> ('w \<Rightarrow> int set) \<Rightarrow> ('w \<Rightarrow> string) \<Rightarrow> ('w \<Rightarrow> string) \<Rightarrow> ('w \<Rightarrow> string list) \<Rightarrow>
     ('w \<Rightarrow> string list) \<Rightarrow> bool" where
  "client_contract p opened received sent asked printed \<longleftrightarrow>
     (let net = sp_net p; sys = sp_sys p; same = sp_same p opened received sent asked printed;
          ends = (\<lambda>w. (sp_frame p w, received w, sent w, asked w, printed w)) in
      descriptor_contract net opened \<and> (\<forall>fd. stream_contract net fd received sent) \<and>
      tty_contract (sp_tty p) asked printed \<and>
      sys_resume sys 0 = connect_body p \<and> sys_resume sys 1 = shell_body p \<and>
      (\<forall>f w. sp_frame p (sp_set p f w) = f \<and>
         (opened (sp_set p f w), received (sp_set p f w), sent (sp_set p f w), asked (sp_set p f w), printed (sp_set p f w)) =
         (opened w, received w, sent w, asked w, printed w)) \<and>
      (\<forall>h e w. same w (sys_store sys h e w)) \<and>
      (\<forall>w. same w (snd (sys_now sys w))) \<and>
      (\<forall>ns w. same w (sys_sleep sys ns w)) \<and>
      (\<forall>ep n t w. same w (snd (sys_epoll_wait sys ep n t w))) \<and>
      (\<forall>ep op fd e w. same w (snd (sys_epoll_ctl sys ep op fd e w))) \<and>
      (\<forall>fd a n w. same w (snd (net_connect net fd a n w))) \<and>
      (\<forall>w ep w1. sys_epoll_create sys w = (Inr ep, w1) \<longrightarrow> ep \<notin> opened w \<and> opened w1 = insert ep (opened w)) \<and>
      (\<forall>w. ends (snd (sys_epoll_create sys w)) = ends w) \<and>
      (\<forall>d pr w. ends (snd (net_socket net d pr w)) = ends w) \<and>
      (\<forall>fd w. ends (snd (sys_close sys fd w)) = ends w) \<and>
      (\<forall>fd len w. let w' = snd (net_read net fd len w) in
         sp_frame p w' = sp_frame p w \<and> opened w' = opened w \<and> asked w' = asked w \<and> printed w' = printed w) \<and>
      (\<forall>fd data w. let w' = snd (net_write net fd data w) in
         sp_frame p w' = sp_frame p w \<and> opened w' = opened w \<and> asked w' = asked w \<and> printed w' = printed w) \<and>
      (\<forall>w. let w' = snd (in_line (sp_tty p) w) in
         sp_frame p w' = sp_frame p w \<and> opened w' = opened w \<and> received w' = received w \<and> sent w' = sent w) \<and>
      (\<forall>l w. let w' = out_line (sp_tty p) l w in
         sp_frame p w' = sp_frame p w \<and> opened w' = opened w \<and> received w' = received w \<and> sent w' = sent w))"

lemma client_contractD:
  assumes "client_contract p opened received sent asked printed"
  shows "descriptor_contract (sp_net p) opened" "stream_contract (sp_net p) fd received sent"
    "tty_contract (sp_tty p) asked printed"
    "sys_resume (sp_sys p) 0 = connect_body p" "sys_resume (sp_sys p) 1 = shell_body p"
    "sp_frame p (sp_set p f w) = f" "opened (sp_set p f w) = opened w" "received (sp_set p f w) = received w"
    "sent (sp_set p f w) = sent w" "asked (sp_set p f w) = asked w" "printed (sp_set p f w) = printed w"
    "sp_same p opened received sent asked printed w (sys_store (sp_sys p) h e w)"
    "sp_same p opened received sent asked printed w (snd (sys_now (sp_sys p) w))"
    "sp_same p opened received sent asked printed w (sys_sleep (sp_sys p) ns w)"
    "sp_same p opened received sent asked printed w (snd (sys_epoll_wait (sp_sys p) ep n t w))"
    "sp_same p opened received sent asked printed w (snd (sys_epoll_ctl (sp_sys p) ep op fd ev w))"
    "sp_same p opened received sent asked printed w (snd (net_connect (sp_net p) fd a n w))"
    "sys_epoll_create (sp_sys p) w = (Inr ep, w1) \<Longrightarrow> ep \<notin> opened w \<and> opened w1 = insert ep (opened w)"
  using assms unfolding client_contract_def Let_def by simp_all

text \<open>What of the state the calls keep that read, write, open and close.\<close>

lemma client_contract_io:
  assumes "client_contract p opened received sent asked printed"
  shows
    "sp_frame p (snd (sys_epoll_create (sp_sys p) w)) = sp_frame p w \<and>
      received (snd (sys_epoll_create (sp_sys p) w)) = received w \<and> sent (snd (sys_epoll_create (sp_sys p) w)) = sent w \<and>
      asked (snd (sys_epoll_create (sp_sys p) w)) = asked w \<and> printed (snd (sys_epoll_create (sp_sys p) w)) = printed w"
    "sp_frame p (snd (net_socket (sp_net p) d pr w)) = sp_frame p w \<and>
      received (snd (net_socket (sp_net p) d pr w)) = received w \<and> sent (snd (net_socket (sp_net p) d pr w)) = sent w \<and>
      asked (snd (net_socket (sp_net p) d pr w)) = asked w \<and> printed (snd (net_socket (sp_net p) d pr w)) = printed w"
    "sp_frame p (snd (sys_close (sp_sys p) fd w)) = sp_frame p w \<and>
      received (snd (sys_close (sp_sys p) fd w)) = received w \<and> sent (snd (sys_close (sp_sys p) fd w)) = sent w \<and>
      asked (snd (sys_close (sp_sys p) fd w)) = asked w \<and> printed (snd (sys_close (sp_sys p) fd w)) = printed w"
    "sp_frame p (snd (net_read (sp_net p) fd len w)) = sp_frame p w \<and>
      opened (snd (net_read (sp_net p) fd len w)) = opened w \<and> asked (snd (net_read (sp_net p) fd len w)) = asked w \<and>
      printed (snd (net_read (sp_net p) fd len w)) = printed w"
    "sp_frame p (snd (net_write (sp_net p) fd data w)) = sp_frame p w \<and>
      opened (snd (net_write (sp_net p) fd data w)) = opened w \<and> asked (snd (net_write (sp_net p) fd data w)) = asked w \<and>
      printed (snd (net_write (sp_net p) fd data w)) = printed w"
    "sp_frame p (snd (in_line (sp_tty p) w)) = sp_frame p w \<and> opened (snd (in_line (sp_tty p) w)) = opened w \<and>
      received (snd (in_line (sp_tty p) w)) = received w \<and> sent (snd (in_line (sp_tty p) w)) = sent w"
    "sp_frame p (out_line (sp_tty p) l w) = sp_frame p w \<and> opened (out_line (sp_tty p) l w) = opened w \<and>
      received (out_line (sp_tty p) l w) = received w \<and> sent (out_line (sp_tty p) l w) = sent w"
  using assms unfolding client_contract_def Let_def by simp_all

definition client_inv ::
    "'w shell_program \<Rightarrow> ('w \<Rightarrow> int set) \<Rightarrow> ('w \<Rightarrow> string) \<Rightarrow> ('w \<Rightarrow> string) \<Rightarrow> ('w \<Rightarrow> string list) \<Rightarrow>
     ('w \<Rightarrow> string list) \<Rightarrow> int set \<Rightarrow> 'w \<Rightarrow> bool" where
  "client_inv p opened received sent asked printed old w \<longleftrightarrow>
     client_contract p opened received sent asked printed \<and>
     (case sp_frame p w of
        Connecting sk addr \<Rightarrow> holds old [sk_fd sk] (opened w) \<and> received w = [] \<and> sent w = [] \<and> asked w = [] \<and> printed w = []
      | Talking sk sh \<Rightarrow> holds old [sk_fd sk] (opened w) \<and>
          conversing (writes_whole (sp_net p) (sk_fd sk)) sh (asked w) (printed w) (received w) (sent w))"

lemma client_inv_same:
  "client_inv p opened received sent asked printed old w \<Longrightarrow> sp_same p opened received sent asked printed w w' \<Longrightarrow>
   client_inv p opened received sent asked printed old w' \<and> client_waits p w' = client_waits p w"
  by (auto simp: client_inv_def client_waits_def sp_same_def split: client_frame.splits)

lemma client_subscribe:
  assumes "client_contract p opened received sent asked printed" "poller_subscribe (sp_sys p) fd e (q, w) = Inr (q', w')"
  shows "sp_same p opened received sent asked printed w w'"
  by (rule subscribe_outside [where Q = "sp_same p opened received sent asked printed w", OF _ _ assms(2)])
    (simp_all add: client_contractD(16) [OF assms(1)] sp_same_def [of _ _ _ _ _ _ w w])

section \<open>It is a program with one coroutine at a time\<close>

text \<open>A coroutine that puts itself into the frame and suspends.\<close>

lemma client_posts:
  assumes inv: "client_inv p opened received sent asked printed old w"
    and waits: "client_waits p w = Some (fd, \<lparr>nd_ev = ev, nd_revent = re, nd_next = nx\<rparr>)"
    and empty: "nodes_of s = (\<lambda>_. [])" "time_nodes s = []"
    and post: "post_descriptor (sp_sys p) fd ev re nx (s, w) = Inr (s', w')"
  shows "client_inv p opened received sent asked printed old w' \<and> time_nodes s' = [] \<and>
    nodes_of s' = lone_nodes (client_waits p w')"
proof -
  note effect = post_descriptor_effect [OF post]
  from inv have "client_contract p opened received sent asked printed" by (simp add: client_inv_def)
  from client_inv_same [OF inv client_subscribe [OF this effect(2)]] waits effect(1,3) empty
  show ?thesis by (simp add: fun_eq_iff)
qed

lemma client_talk_inv:
  assumes contract: "client_contract p opened received sent asked printed" and holds: "holds old [sk_fd sk] (opened w)"
    and conv: "conversing (writes_whole (sp_net p) (sk_fd sk)) sh (asked w) (printed w) (received w) (sent w)"
    and empty: "nodes_of s = (\<lambda>_. [])" "time_nodes s = []"
    and run: "run_co (sp_sys p) (client_talk p sk sh) (s, w) = Inr (b, s', w')"
  shows "client_inv p opened received sent asked printed old w' \<and> time_nodes s' = [] \<and>
    nodes_of s' = lone_nodes (client_waits p w')"
proof -
  let ?w = "sp_set p (Talking sk sh) w"
  note set = client_contractD(6-11) [OF contract]
  from contract holds conv have inv: "client_inv p opened received sent asked printed old ?w"
    by (simp add: client_inv_def set)
  show ?thesis
  proof (cases sh)
    case Closed
    with run inv empty show ?thesis by (auto simp: client_talk_def client_waits_def set)
  next
    case (Sending l)
    with run have "post_descriptor (sp_sys p) (sk_fd sk) (ev_WRITE OR ev_ERROR OR ev_HANGUP) 1 (Handle 1) (s, ?w) = Inr (s', w')"
      by (auto simp: client_talk_def write_suspend_def)
    from client_posts [OF inv _ empty this] show ?thesis by (simp add: client_waits_def set Sending)
  next
    case Receiving
    with run have "post_descriptor (sp_sys p) (sk_fd sk) (ev_READ OR ev_ERROR OR ev_HANGUP OR ev_RDHANGUP) 1 (Handle 1) (s, ?w) =
        Inr (s', w')"
      by (auto simp: client_talk_def read_suspend_def)
    from client_posts [OF inv _ empty this] show ?thesis by (simp add: client_waits_def set Receiving)
  qed
qed

text \<open>What connecting and the first line do outside.\<close>

lemma connect_resume_same:
  assumes "client_contract p opened received sent asked printed"
  shows "sp_same p opened received sent asked printed w (snd (connect_resume (sp_net p) fd addr e w))"
proof -
  have refl: "sp_same p opened received sent asked printed w w" by (simp add: sp_same_def)
  obtain r w1 where "net_connect (sp_net p) fd addr (socklen addr) w = (r, w1)" by fastforce
  with client_contractD(17) [OF assms, of w fd addr "socklen addr"] refl show ?thesis
    by (simp add: connect_resume_def)
qed

lemma connected_conversing:
  assumes contract: "client_contract p opened received sent asked printed" and run: "connected p sk addr e w = (sh, w')"
    and fresh: "received w = []" "sent w = []" "asked w = []" "printed w = []"
  shows "sp_frame p w' = sp_frame p w" "opened w' = opened w"
    "conversing whole sh (asked w') (printed w') (received w') (sent w')"
proof -
  let ?w = "snd (connect_resume (sp_net p) (sk_fd sk) addr e w)"
  from connect_resume_same [OF contract, of w "sk_fd sk" addr e] fresh
  have same: "sp_frame p ?w = sp_frame p w" "opened ?w = opened w" "received ?w = []" "sent ?w = []" "asked ?w = []" "printed ?w = []"
    by (simp_all add: sp_same_def)
  from run have line: "shell_next (sp_tty p) ?w = (sh, w')" by (simp add: connected_def)
  then have "w' = snd (in_line (sp_tty p) ?w)" by (auto simp: shell_next_def split: prod.splits option.splits)
  with client_contract_io(6) [OF contract, of ?w] same
  have kept: "sp_frame p w' = sp_frame p w" "opened w' = opened w" "received w' = []" "sent w' = []" by simp_all
  then show "sp_frame p w' = sp_frame p w" "opened w' = opened w" by simp_all
  show "conversing whole sh (asked w') (printed w') (received w') (sent w')"
    using conversing_next [OF client_contractD(3) [OF contract] line, of "received w'" "sent w'"] same kept by simp
qed

text \<open>The two bodies.\<close>

lemma client_bodies_inv:
  assumes inv: "client_inv p opened received sent asked printed old w"
    and empty: "nodes_of s = (\<lambda>_. [])" "time_nodes s = []"
  shows "run_co (sp_sys p) (connect_body p) (s, w) = Inr (b, s', w') \<Longrightarrow>
      client_inv p opened received sent asked printed old w' \<and> time_nodes s' = [] \<and> nodes_of s' = lone_nodes (client_waits p w')"
    "run_co (sp_sys p) (shell_body p) (s, w) = Inr (b, s', w') \<Longrightarrow>
      client_inv p opened received sent asked printed old w' \<and> time_nodes s' = [] \<and> nodes_of s' = lone_nodes (client_waits p w')"
proof -
  from inv have contract: "client_contract p opened received sent asked printed" by (simp add: client_inv_def)
  assume run: "run_co (sp_sys p) (connect_body p) (s, w) = Inr (b, s', w')"
  then obtain sk addr where frame: "sp_frame p w = Connecting sk addr"
    by (cases "sp_frame p w") (auto simp: connect_body_def)
  obtain sh w1 where line: "connected p sk addr (sp_event p 0 w) w = (sh, w1)" by fastforce
  with run frame have talk: "run_co (sp_sys p) (client_talk p sk sh) (s, w1) = Inr (b, s', w')"
    by (simp add: connect_body_def)
  from inv frame have fresh: "received w = []" "sent w = []" "asked w = []" "printed w = []"
    and holds: "holds old [sk_fd sk] (opened w)" by (simp_all add: client_inv_def)
  note after = connected_conversing [OF contract line fresh]
  from client_talk_inv [OF contract _ after(3) empty talk, of old] holds after(2)
  show "client_inv p opened received sent asked printed old w' \<and> time_nodes s' = [] \<and>
    nodes_of s' = lone_nodes (client_waits p w')" by simp
next
  from inv have contract: "client_contract p opened received sent asked printed" by (simp add: client_inv_def)
  assume run: "run_co (sp_sys p) (shell_body p) (s, w) = Inr (b, s', w')"
  then obtain sk sh where frame: "sp_frame p w = Talking sk sh"
    by (cases "sp_frame p w") (auto simp: shell_body_def)
  with run obtain sh1 w1 where
    step: "shell_resume (sp_net p) (sp_tty p) (sp_junk p w) sk (sp_event p 1 w) (sh, w) = Inr (sh1, w1)"
    and talk: "run_co (sp_sys p) (client_talk p sk sh1) (s, w1) = Inr (b, s', w')"
    by (auto simp: shell_body_def Let_def split: sum.splits)
  note io = client_contract_io(4-7) [OF contract]
  from inv frame have now: "holds old [sk_fd sk] (opened w)"
    "conversing (writes_whole (sp_net p) (sk_fd sk)) sh (asked w) (printed w) (received w) (sent w)"
    by (simp_all add: client_inv_def)
  have "conversing (writes_whole (sp_net p) (sk_fd sk)) sh1 (asked w1) (printed w1) (received w1) (sent w1)"
    by (rule conversing_step [OF client_contractD(2,3) [OF contract] _ _ _ _ step now(2)]) (simp_all add: io)
  moreover have "opened w1 = opened w"
    by (rule shell_resume_keeps [OF step, where P = "\<lambda>w1. opened w1 = opened w"]) (simp_all add: io)
  ultimately show "client_inv p opened received sent asked printed old w' \<and> time_nodes s' = [] \<and>
    nodes_of s' = lone_nodes (client_waits p w')"
    using client_talk_inv [OF contract _ _ empty talk, of old] now(1) by simp
qed

interpretation client_loop: lone_coroutine "sp_sys p" "client_waits p" "client_inv p opened received sent asked printed old"
  for p :: "'w shell_program" and opened received sent asked printed old
proof (unfold_locales, goal_cases)
  case (1 w)
  then have "client_contract p opened received sent asked printed" by (simp add: client_inv_def)
  from client_inv_same [OF 1 client_contractD(13) [OF this]] show ?case .
next
  case (2 w ns)
  then have "client_contract p opened received sent asked printed" by (simp add: client_inv_def)
  from client_inv_same [OF 2 client_contractD(14) [OF this]] show ?case .
next
  case (3 w ep n t)
  then have "client_contract p opened received sent asked printed" by (simp add: client_inv_def)
  from client_inv_same [OF 3 client_contractD(15) [OF this]] show ?case .
next
  case (4 w ep op fd e)
  then have "client_contract p opened received sent asked printed" by (simp add: client_inv_def)
  from client_inv_same [OF 4 client_contractD(16) [OF this]] show ?case .
next
  case (5 w fd nd s e ready s' w')
  from 5(1) have contract: "client_contract p opened received sent asked printed" by (simp add: client_inv_def)
  let ?w = "sys_store (sp_sys p) (nd_revent nd) e w"
  from client_inv_same [OF 5(1) client_contractD(12) [OF contract]]
  have inv: "client_inv p opened received sent asked printed old ?w" and "client_waits p ?w = Some (fd, nd)"
    using 5(2) by simp_all
  then have "nd_next nd = Handle 0 \<or> nd_next nd = Handle 1"
    by (auto simp: client_waits_def split: client_frame.splits shell.splits)
  then consider (first) "nd_next nd = Handle 0" | (second) "nd_next nd = Handle 1" by blast
  then show ?case
  proof cases
    case first
    with 5(5) obtain b where "run_co (sp_sys p) (connect_body p) (s, ?w) = Inr (b, s', w')" and ready
      by (auto simp: run_next_def resume_def client_contractD(4) [OF contract])
    with client_bodies_inv(1) [OF inv 5(3,4)] show ?thesis by simp
  next
    case second
    with 5(5) obtain b where "run_co (sp_sys p) (shell_body p) (s, ?w) = Inr (b, s', w')" and ready
      by (auto simp: run_next_def resume_def client_contractD(5) [OF contract, simplified])
    with client_bodies_inv(2) [OF inv 5(3,4)] show ?thesis by simp
  qed
qed

section \<open>How it starts\<close>

lemma connect_opens:
  assumes "sock_async_connect net proto addr (sock_default dm, w) = (None, sk, w')"
  shows "net_socket net (domain_value (address_domain addr)) (protocol_value proto + socket_flags) w = (Inr (sk_fd sk), w')"
  using assms by (auto simp: sock_async_connect_def use_domain_def sock_default_def split: prod.splits sum.splits)

lemma connect_ready_same:
  assumes "client_contract p opened received sent asked printed"
  shows "connect_ready k (sp_net p) fd addr w = Inr (r, w') \<Longrightarrow> sp_same p opened received sent asked printed w w'"
proof (induction k arbitrary: w)
  case (Suc k)
  obtain errno w1 where call: "net_connect (sp_net p) fd addr (socklen addr) w = (errno, w1)" by fastforce
  with client_contractD(17) [OF assms, of w fd addr "socklen addr"]
  have same: "sp_same p opened received sent asked printed w w1" by simp
  show ?case
  proof (cases "errno = 4")
    case True
    with Suc.prems call have "connect_ready k (sp_net p) fd addr w1 = Inr (r, w')" by simp
    from Suc.IH [OF this] same show ?thesis by (simp add: sp_same_def)
  next
    case False
    with Suc.prems call same show ?thesis by (simp split: if_splits)
  qed
qed simp

lemma behaved_code: "co_within UNIV UNIV UNIV c"
  by (induction c) simp_all

text \<open>From the making of the scheduler on.\<close>

lemma client_begins:
  assumes contract: "client_contract p opened received sent asked printed"
    and ctor: "poller_ctor (sp_sys p) w3 = Inr (q, w4)" and run: "run_co (sp_sys p) c (new_sched q, w4) = Inr (b, s, w)"
    and fd: "0 < sk_fd sk" "sk_fd sk \<notin> opened w0" "opened w3 = insert (sk_fd sk) (opened w0)"
    and c: "c = client_talk p sk sh \<and>
        conversing (writes_whole (sp_net p) (sk_fd sk)) sh (asked w3) (printed w3) (received w3) (sent w3) \<or>
      c = Effect (sp_set p (Connecting sk addr)) (\<lambda>_. connect_suspend (sk_fd sk) 0 0) \<and>
        received w3 = [] \<and> sent w3 = [] \<and> asked w3 = [] \<and> printed w3 = []"
  defines "old \<equiv> insert (epfd (the_poller s)) (opened w0)"
  shows "client_loop.settled p opened received sent asked printed old s w" "counted 0 None s w"
    "epfd (the_poller s) \<notin> opened w0"
proof -
  note set = client_contractD(6-11) [OF contract]
  from ctor have create: "sys_epoll_create (sp_sys p) w3 = (Inr (epfd q), w4)"
    by (auto simp: poller_ctor_def split: prod.splits sum.splits)
  from client_contract_io(1) [OF contract, of w3] create
  have kept: "received w4 = received w3" "sent w4 = sent w3" "asked w4 = asked w3" "printed w4 = printed w3" by simp_all
  have none: "nodes_of (new_sched q) = (\<lambda>_. [])" "time_nodes (new_sched q) = []"
    by (simp_all add: nodes_of_def new_sched_def fun_eq_iff)
  have ep: "epfd (the_poller s) = epfd q"
    using instance_kept.run_co_R [OF behaved_code _ run, of "epfd q"] by (simp add: new_sched_def)
  note new = client_contractD(18) [OF contract create]
  with fd ep show "epfd (the_poller s) \<notin> opened w0" by simp
  from new fd ep have holds: "holds old [sk_fd sk] (opened w4)" by (auto simp: holds_def old_def)
  have "counted 0 None (new_sched q) w4"
    by (simp add: counted_def new_sched_def pending_def waiting_nodes_def)
  from count.run_co_R [OF behaved_code this run] show "counted 0 None s w" .
  from c show "client_loop.settled p opened received sent asked printed old s w"
  proof (elim disjE conjE)
    assume "c = client_talk p sk sh"
      and "conversing (writes_whole (sp_net p) (sk_fd sk)) sh (asked w3) (printed w3) (received w3) (sent w3)"
    with client_talk_inv [OF contract holds _ none] run kept show ?thesis by (simp add: client_loop.settled_def)
  next
    let ?w = "sp_set p (Connecting sk addr) w4"
    assume c: "c = Effect (sp_set p (Connecting sk addr)) (\<lambda>_. connect_suspend (sk_fd sk) 0 0)"
      and fresh: "received w3 = []" "sent w3 = []" "asked w3 = []" "printed w3 = []"
    from run have post: "post_descriptor (sp_sys p) (sk_fd sk) (ev_WRITE OR ev_ERROR OR ev_HANGUP) 0 (Handle 0)
        (new_sched q, ?w) = Inr (s, w)" by (auto simp: c connect_suspend_def)
    have inv: "client_inv p opened received sent asked printed old ?w"
      using contract holds fresh by (simp add: client_inv_def set kept)
    from client_posts [OF inv _ none post] show ?thesis by (simp add: client_waits_def set client_loop.settled_def)
  qed
qed

lemma client_main_settled:
  assumes contract: "client_contract p opened received sent asked printed"
    and start: "client_main k p en dm w0 = Inr (s, w)"
    and fresh: "received w0 = []" "sent w0 = []" "asked w0 = []" "printed w0 = []"
  defines "old \<equiv> insert (epfd (the_poller s)) (opened w0)"
  shows "client_loop.settled p opened received sent asked printed old s w \<and> counted 0 None s w \<and>
    epfd (the_poller s) \<notin> opened w0"
proof -
  obtain addr where addr: "address_ctor en ''127.0.0.1'' 12345 = Inr addr"
    by (cases "contain (address_ctor en ''127.0.0.1'' 12345)") (use start in \<open>auto simp: client_main_def\<close>)
  obtain r sk w1 where socket: "sock_async_connect (sp_net p) TCP addr (sock_default dm, w0) = (r, sk, w1)"
    by (cases "sock_async_connect (sp_net p) TCP addr (sock_default dm, w0)")
  have none: "r = None"
    by (cases r) (use start addr socket in \<open>auto simp: client_main_def\<close>)
  note call = connect_opens [OF socket [unfolded none]]
  note first = descriptor_contractD(1) [OF client_contractD(1) [OF contract] call]
  obtain ready w2 where conn: "connect_ready k (sp_net p) (sk_fd sk) addr w1 = Inr (ready, w2)"
    by (cases "connect_ready k (sp_net p) (sk_fd sk) addr w1") (use start addr socket none in \<open>auto simp: client_main_def\<close>)
  from connect_ready_same [OF contract conn] first
    client_contract_io(2) [OF contract, of "domain_value (address_domain addr)" "protocol_value TCP + socket_flags" w0] call fresh
  have w2: "opened w2 = insert (sk_fd sk) (opened w0)" "received w2 = []" "sent w2 = []" "asked w2 = []" "printed w2 = []"
    by (simp_all add: sp_same_def)
  show ?thesis
  proof (cases ready)
    case True
    obtain sh w3 where line: "connected p sk addr ev_NONE w2 = (sh, w3)" by fastforce
    note after = connected_conversing [OF contract line w2(2-5)]
    from start addr socket none conn True line obtain q w4 b where ctor: "poller_ctor (sp_sys p) w3 = Inr (q, w4)"
      and run: "run_co (sp_sys p) (client_talk p sk sh) (new_sched q, w4) = Inr (b, s, w)"
      by (auto simp: client_main_def default_scheduler_def)
    from client_begins [OF contract ctor run, of sk w0 sh addr] first after w2(1) show ?thesis by (simp add: old_def)
  next
    case False
    with start addr socket none conn obtain q w4 b where ctor: "poller_ctor (sp_sys p) w2 = Inr (q, w4)"
      and run: "run_co (sp_sys p) (Effect (sp_set p (Connecting sk addr)) (\<lambda>_. connect_suspend (sk_fd sk) 0 0))
        (new_sched q, w4) = Inr (b, s, w)"
      by (auto simp: client_main_def default_scheduler_def)
    from client_begins [OF contract ctor run, of sk w0 Closed addr] first w2 show ?thesis by (simp add: old_def)
  qed
qed

section \<open>An example\<close>

definition lone_tty :: "'f lone_world tty" where
  "lone_tty = \<lparr>in_line = (\<lambda>w. case lw_lines w of [] \<Rightarrow> (None, w)
        | l # ls \<Rightarrow> (Some l, w\<lparr>lw_lines := ls, lw_asked := lw_asked w @ [l]\<rparr>)),
     out_line = (\<lambda>l w. w\<lparr>lw_printed := lw_printed w @ [l]\<rparr>)\<rparr>"

definition client_of :: "(nat \<Rightarrow> client_frame lone_world co) \<Rightarrow> client_frame lone_world shell_program" where
  "client_of bodies = \<lparr>sp_net = lone_net bodies (\<lambda>_. Stop True), sp_tty = lone_tty,
     sp_junk = (\<lambda>w. replicate buffer_size (CHR ''?'')), sp_frame = lw_frame, sp_set = (\<lambda>f w. w\<lparr>lw_frame := f\<rparr>),
     sp_event = (\<lambda>r. lw_event)\<rparr>"

definition client_bodies :: "nat \<Rightarrow> client_frame lone_world co" where
  "client_bodies h = (let p = client_of (\<lambda>_. Stop True) in if h = 0 then connect_body p else shell_body p)"

definition client_example :: "client_frame lone_world shell_program" where
  "client_example = client_of client_bodies"

text \<open>
  Two lines at the terminal and one reply, a connection that takes a while, and in the end a peer that
  hangs up.
\<close>

definition client_starts :: "client_frame lone_world" where
  "client_starts = (lone_begins (Talking (sock_default IPv6) Closed))\<lparr>lw_calls := [4, 115, 0], lw_input := [''AB''],
     lw_lines := [''ab'', ''c''],
     lw_batches := [[\<lparr>ee_events = 4, ee_fd = 3\<rparr>], [\<lparr>ee_events = 4, ee_fd = 3\<rparr>], [\<lparr>ee_events = 1, ee_fd = 3\<rparr>],
       [\<lparr>ee_events = 4, ee_fd = 3\<rparr>], [\<lparr>ee_events = 0x10, ee_fd = 3\<rparr>]]\<rparr>"

lemma client_bodies_of: "connect_body (client_of b) = connect_body (client_of b')" "shell_body (client_of b) = shell_body (client_of b')"
proof -
  let ?net = "\<lambda>b. lone_net b (\<lambda>_. Stop True)"
  have calls: "connect_resume (?net b) = connect_resume (?net b')" "read_resume (?net b) = read_resume (?net b')"
    "write_resume (?net b) = write_resume (?net b')"
    by ((rule ext)+, simp add: connect_resume_def read_resume_def write_resume_def lone_net_fields)+
  have talk: "client_talk (client_of b) = client_talk (client_of b')"
    by (rule ext)+ (simp add: client_talk_def client_of_def)
  have shell: "shell_resume (?net b) = shell_resume (?net b')"
    by ((rule ext)+, unfold shell_resume_def calls, rule refl)
  have fields: "sp_net (client_of b) = ?net b" "sp_tty (client_of b) = lone_tty" "sp_frame (client_of b) = lw_frame"
    "sp_junk (client_of b) = (\<lambda>w. replicate buffer_size (CHR ''?''))" "sp_event (client_of b) = (\<lambda>r. lw_event)" for b
    by (simp_all add: client_of_def)
  show "connect_body (client_of b) = connect_body (client_of b')"
    unfolding connect_body_def connected_def fields talk calls ..
  show "shell_body (client_of b) = shell_body (client_of b')"
    unfolding shell_body_def fields talk shell ..
qed

lemma client_example_contract:
  "client_contract client_example (set \<circ> lw_open) lw_received lw_sent lw_asked lw_printed"
proof -
  have bodies: "sys_resume (sp_sys client_example) 0 = connect_body client_example"
    "sys_resume (sp_sys client_example) 1 = shell_body client_example"
    using client_bodies_of [of client_bodies "\<lambda>_. Stop True"]
    by (simp_all add: client_example_def client_of_def [of client_bodies] lone_net_fields client_bodies_def)
  have fields: "sp_net client_example = lone_net client_bodies (\<lambda>_. Stop True)" "sp_tty client_example = lone_tty"
    "sp_frame client_example = lw_frame" "sp_set client_example f w = w\<lparr>lw_frame := f\<rparr>" for f w
    by (simp_all add: client_example_def client_of_def)
  have console: "in_line lone_tty w = (case lw_lines w of [] \<Rightarrow> (None, w)
        | l # ls \<Rightarrow> (Some l, w\<lparr>lw_lines := ls, lw_asked := lw_asked w @ [l]\<rparr>))"
    "out_line lone_tty l w = w\<lparr>lw_printed := lw_printed w @ [l]\<rparr>" for w :: "client_frame lone_world" and l
    by (simp_all add: lone_tty_def)
  have tty: "tty_contract lone_tty lw_asked (lw_printed :: client_frame lone_world \<Rightarrow> string list)"
    by (auto simp: tty_contract_def console split: list.splits)
  show ?thesis
    unfolding client_contract_def Let_def
    by (intro conjI allI impI)
      (rule bodies tty | simp add: fields lone_descriptors lone_stream tty lone_net_fields sp_same_def lw_take_def
        lw_fresh_new lw_read_def lw_wait_def lw_call_def console split: list.split | auto simp: fields lone_net_fields lw_take_def lw_fresh_new)+
qed

text \<open>How it starts there: after an interruption the connection is under way.\<close>

definition client_begun :: "sockaddr_in \<Rightarrow> (sched \<times> client_frame lone_world) result" where
  "client_begun sa =
     (let sk = \<lparr>sk_fd = 3, sk_domain = IPv4, sk_role = PEER\<rparr> in
      res_bind (run_co (sp_sys client_example) (Effect (sp_set client_example (Connecting sk (V4 sa))) (\<lambda>_. connect_suspend 3 0 0))
          (new_sched \<lparr>epfd = 4, focus = [], evs = []\<rparr>, client_starts\<lparr>lw_open := [4, 3, 2, 1], lw_calls := [0]\<rparr>))
        (\<lambda>(b, st). Inr st))"

lemma client_begun_main: "\<exists>sa. client_main 2 client_example Little IPv6 client_starts = client_begun sa"
proof -
  obtain sa where addr: "address_ctor Little ''127.0.0.1'' 12345 = Inr (V4 sa)" using loopback_address by blast
  have open3: "lw_take client_starts = (Inr 3, client_starts\<lparr>lw_open := [3, 2, 1]\<rparr>)"
    by (simp add: lw_take_def lw_fresh_def client_starts_def lone_begins_def)
  have open4: "lw_take (client_starts\<lparr>lw_open := [3, 2, 1], lw_calls := [0]\<rparr>) =
      (Inr 4, client_starts\<lparr>lw_open := [4, 3, 2, 1], lw_calls := [0]\<rparr>)"
    by (simp add: lw_take_def lw_fresh_def)
  have net: "sp_net client_example = lone_net client_bodies (\<lambda>_. Stop True)"
    by (simp add: client_example_def client_of_def)
  have calls: "lw_calls client_starts = [4, 115, 0]" by (simp add: client_starts_def)
  have "connect_ready 2 (sp_net client_example) 3 (V4 sa) (client_starts\<lparr>lw_open := [3, 2, 1]\<rparr>) =
      Inr (False, client_starts\<lparr>lw_open := [3, 2, 1], lw_calls := [0]\<rparr>)"
    by (simp add: numeral_2_eq_2 net lone_net_fields lw_call_def calls)
  then have "client_main 2 client_example Little IPv6 client_starts = client_begun sa"
    by (simp add: client_main_def addr sock_async_connect_def use_domain_def sock_default_def net lone_net_fields open3
        default_scheduler_def poller_ctor_def open4 client_begun_def Let_def split_beta)
  then show ?thesis by blast
qed

text \<open>When \<open>run\<close> returns the handler has; then \<open>main\<close> ends.\<close>

lemma client_run_ends:
  assumes settled: "client_loop.settled p opened received sent asked printed (insert (epfd (the_poller s)) old) s w" "counted 0 None s w"
    and run: "run n (sp_sys p) (s, w) = Inr (s', w')" and fresh: "epfd (the_poller s) \<notin> old"
  shows "(\<exists>sk. sp_frame p w' = Talking sk Closed) \<and> (client_end p (s', w') = Inr w'' \<longrightarrow> opened w'' = old)"
proof -
  let ?old = "insert (epfd (the_poller s)) old"
  from settled(1) have contract: "client_contract p opened received sent asked printed"
    by (simp add: client_loop.settled_def client_inv_def)
  from client_loop.run_settled [OF settled run]
  have inv': "client_inv p opened received sent asked printed ?old w'" and none: "client_waits p w' = None"
    by (simp_all add: client_loop.settled_def)
  from none obtain sk where frame: "sp_frame p w' = Talking sk Closed"
    by (auto simp: client_waits_def split: client_frame.splits shell.splits)
  with inv' have holds: "holds ?old ([] @ sk_fd sk # []) (opened w')" by (simp add: client_inv_def)
  have same_ep: "epfd (the_poller s') = epfd (the_poller s)"
    using instance_kept.run_R [OF behaved_UNIV _ run] by blast
  have "opened w'' = old" if close: "client_end p (s', w') = Inr w''"
  proof -
    from close frame obtain s2 w2 where dtor: "sock_dtor (sp_net p) sk (s', w') = Inr (s2, w2)"
      and w'': "w'' = poller_dtor (sp_sys p) (the_poller s2) w2" by (auto simp: client_end_def)
    from holds have "0 < sk_fd sk" by (simp add: holds_def)
    with sock_dtor_opened [OF client_contractD(1) [OF contract] dtor] holds_close [OF holds]
    have "opened w2 = ?old" by (simp add: holds_def)
    moreover have "epfd (the_poller s2) = epfd (the_poller s)"
      using sock_dtor_instance [OF dtor] same_ep by simp
    ultimately show ?thesis
      using descriptor_contractD(5) [OF client_contractD(1) [OF contract]] fresh
      by (simp add: w'' poller_dtor_def) (metis Diff_insert_absorb prod.collapse)
  qed
  with frame show ?thesis by simp
qed

section \<open>Properties\<close>

text \<open>
  C8. The program \<open>client.cxx\<close>. In every state under its loop exactly one coroutine waits, on the one
  descriptor the program has beside the \<open>epoll\<close> instance: \<open>async_connect\<close> until the connection is made, or has failed, and
  then the handler until it has returned. The lines of the standard input are sent in order, with whole
  writes completely, and one reply is printed for each before the next is asked for; what is printed
  comes in order from what was received. \<open>run\<close> returns only when the handler has, and after the end of \<open>main\<close>
  every descriptor the program has opened is closed.
\<close>

theorem client_converses:
  assumes contract: "client_contract p opened received sent asked printed"
    and start: "client_main k p en dm w0 = Inr (s0, w1)" "received w0 = []" "sent w0 = []" "asked w0 = []" "printed w0 = []"
    and state: "loop_state (sp_sys p) (s0, w1) (s, w)"
  shows "(case sp_frame p w of
       Connecting sk addr \<Rightarrow> opened w = opened w0 \<union> {epfd (the_poller s), sk_fd sk} \<and> asked w = [] \<and>
         (\<forall>fd. map nd_next (nodes_of s fd) = (if fd = sk_fd sk then [Handle 0] else []))
     | Talking sk sh \<Rightarrow> opened w = opened w0 \<union> {epfd (the_poller s), sk_fd sk} \<and>
         (\<forall>fd. map nd_next (nodes_of s fd) = (if fd = sk_fd sk \<and> sh \<noteq> Closed then [Handle 1] else [])) \<and>
         (case sh of
            Sending l \<Rightarrow> length (asked w) = Suc (length (printed w)) \<and> last (asked w) = l \<and>
              (writes_whole (sp_net p) (sk_fd sk) \<longrightarrow> sent w = concat (butlast (asked w)))
          | Receiving \<Rightarrow> length (asked w) = Suc (length (printed w)) \<and>
              (writes_whole (sp_net p) (sk_fd sk) \<longrightarrow> sent w = concat (asked w))
          | Closed \<Rightarrow> length (printed w) \<le> length (asked w) \<and> length (asked w) \<le> Suc (length (printed w)))) \<and>
    subseq (concat (printed w)) (received w) \<and> subseq (sent w) (concat (asked w)) \<and>
    (run n (sp_sys p) (s, w) = Inr (s', w') \<longrightarrow>
       (\<exists>sk. sp_frame p w' = Talking sk Closed) \<and> (\<forall>w''. client_end p (s', w') = Inr w'' \<longrightarrow> opened w'' = opened w0))"
proof -
  let ?old = "insert (epfd (the_poller s0)) (opened w0)"
  from client_main_settled [OF contract start] have begun:
    "client_loop.settled p opened received sent asked printed ?old s0 w1" "counted 0 None s0 w1"
    "epfd (the_poller s0) \<notin> opened w0" by simp_all
  from client_loop.loop_state_settled [OF state begun(1,2)]
  have settled: "client_loop.settled p opened received sent asked printed ?old s w" and count: "counted 0 None s w" by simp_all
  note ep = instance_looped [OF state]
  from settled have inv: "client_inv p opened received sent asked printed ?old w" and nodes: "nodes_of s = lone_nodes (client_waits p w)"
    by (simp_all add: client_loop.settled_def)
  from settled begun(3) have "client_loop.settled p opened received sent asked printed (insert (epfd (the_poller s)) (opened w0)) s w"
    and "epfd (the_poller s) \<notin> opened w0" by (simp_all add: ep)
  note ended = client_run_ends [OF this(1) count _ this(2)]
  show ?thesis
  proof (cases "sp_frame p w")
    case (Connecting sk addr)
    with inv nodes ep ended show ?thesis by (auto simp: client_inv_def client_waits_def holds_def)
  next
    case (Talking sk sh)
    with inv have conv: "conversing (writes_whole (sp_net p) (sk_fd sk)) sh (asked w) (printed w) (received w) (sent w)"
      and holds: "holds ?old [sk_fd sk] (opened w)" by (simp_all add: client_inv_def)
    from conv have sent: "subseq (sent w) (concat (asked w))"
      by (cases sh) (auto simp: conversing_def intro: list_emb_append2)
    from Talking nodes ep conv holds sent ended show ?thesis
      by (cases sh) (auto simp: client_waits_def holds_def conversing_def)
  qed
qed

theorem client_converses_witness:
  "\<exists>w'. client_program 2 6 client_example Little IPv6 client_starts = Inr w' \<and> lw_printed w' = [''AB''] \<and>
    lw_asked w' = [''ab'', ''c''] \<and> lw_sent w' = ''abc'' \<and> set (lw_open w') = {1, 2}"
proof -
  obtain sa where main: "client_main 2 client_example Little IPv6 client_starts = client_begun sa" using client_begun_main by blast
  have "case res_bind (client_begun sa) (run 6 (sp_sys client_example)) of Inl f \<Rightarrow> False
      | Inr st \<Rightarrow> (case client_end client_example st of Inl f \<Rightarrow> False
          | Inr w' \<Rightarrow> lw_printed w' = [''AB''] \<and> lw_asked w' = [''ab'', ''c''] \<and> lw_sent w' = ''abc'')"
    by code_simp
  then obtain s w s' w1 w' where start: "client_begun sa = Inr (s, w)"
    and run: "run 6 (sp_sys client_example) (s, w) = Inr (s', w1)"
    and finish: "client_end client_example (s', w1) = Inr w'"
    and talk: "lw_printed w' = [''AB'']" "lw_asked w' = [''ab'', ''c'']" "lw_sent w' = ''abc''"
    by (auto split: sum.splits)
  have fresh: "lw_received client_starts = []" "lw_sent client_starts = []" "lw_asked client_starts = []"
    "lw_printed client_starts = []" "set (lw_open client_starts) = {1, 2}"
    by (auto simp: client_starts_def lone_begins_def)
  have "(set \<circ> lw_open) w' = (set \<circ> lw_open) client_starts"
    using client_converses [OF client_example_contract, of 2 Little IPv6 client_starts s w s w 6 s' w1]
      main start fresh run finish loop_state.entered by metis
  with fresh(5) have "set (lw_open w') = {1, 2}" by simp
  moreover have "client_program 2 6 client_example Little IPv6 client_starts = Inr w'"
    by (simp add: client_program_def main start run finish)
  ultimately show ?thesis using talk by blast
qed

end
