(* ===== verification/BC_Async_Server.thy ===== *)
theory BC_Async_Server
  imports BC_Echo_Server
begin

text \<open>
  The program \<open>examples/async-server.cxx\<close>: the loop of \<open>main.cpp\<close>'s server with its own session and backlog, in
  one coroutine that owns the list of clients. What happens to it when accepting fails: the clients are
  destroyed with the coroutine, the nodes of their sessions are not.
\<close>

section \<open>The program\<close>

text \<open>The list of clients is destroyed from the front.\<close>

fun destroy_clients_co :: "'w net \<Rightarrow> 'w app \<Rightarrow> client list \<Rightarrow> 'w co \<Rightarrow> 'w co" where
  "destroy_clients_co net app [] k = k"
| "destroy_clients_co net app (c # cs) k = client_dtor_co net app c (destroy_clients_co net app cs k)"

text \<open>
  \<open>async_server\<close> from its resumption on. With a connection it does what \<open>run_\<close> does; after an error it
  leaves its loop and its variables are destroyed, the socket before the list.
\<close>

definition async_body :: "'w echo_main \<Rightarrow> 'w co" where
  "async_body m = Effect (\<lambda>w. w) (\<lambda>w.
     let srv = em_server m w in
     case srv_sock srv of
       None \<Rightarrow> Die By_terminate
     | Some sk \<Rightarrow>
         (case em_result m w of
            Value client_sock \<Rightarrow> serve_client m srv sk client_sock w
          | Error ec \<Rightarrow>
              (case error_code_message ec of
                 Inl f \<Rightarrow> Die (ending_of f)
               | Inr _ \<Rightarrow>
                   sock_dtor_co (em_net m) sk
                     (destroy_clients_co (em_net m) (em_app m) (srv_clients srv)
                       (Effect (em_set m \<lparr>srv_sock = None, srv_clients = []\<rparr>) (\<lambda>_. Stop True))))))"

text \<open>\<open>main\<close>: the coroutine up to its first suspension, the loop, the end.\<close>

definition async_main :: "'w echo_main \<Rightarrow> endian \<Rightarrow> ip_domain \<Rightarrow> 'w \<Rightarrow> (sched \<times> 'w) result" where
  "async_main m en dm w0 =
     res_bind (accept_start (em_net m) en 10 dm w0) (\<lambda>(sk, s, w).
       Inr (s, em_set m \<lparr>srv_sock = Some sk, srv_clients = []\<rparr> w))"

definition async_program :: "nat \<Rightarrow> 'w echo_main \<Rightarrow> endian \<Rightarrow> ip_domain \<Rightarrow> 'w \<Rightarrow> 'w result" where
  "async_program n m en dm w0 =
     res_bind (async_main m en dm w0) (\<lambda>st.
     res_bind (run n (em_sys m) st) (\<lambda>(s, w). Inr (poller_dtor (em_sys m) (the_poller s) w)))"

lemma run_destroy_clients_co:
  "run_co (net_sys net) (destroy_clients_co net app cs k) st =
     res_bind (destroy_clients net app cs st) (run_co (net_sys net) k)"
proof (induction cs arbitrary: st)
  case (Cons c cs)
  have "run_co (net_sys net) (destroy_clients_co net app cs k) =
      (\<lambda>st. res_bind (destroy_clients net app cs st) (run_co (net_sys net) k))"
    by (rule ext) (rule Cons.IH)
  then show ?case by (simp add: run_client_dtor_co res_bind_assoc)
qed simp

text \<open>It does what \<open>async_server_resume\<close> does and stores the server.\<close>

lemma run_async_body:
  assumes "run_co (em_sys m) (async_body m) (s, w) = Inr (b, s', w')"
  obtains srv w1 where
    "async_server_resume (em_net m) (em_app m) 0 0 (em_result m w) (em_server m w, s, w) = Inr (srv, s', w1)"
    "w' = em_set m srv w1"
proof -
  let ?srv = "em_server m w"
  from assms obtain sk where sk: "srv_sock ?srv = Some sk"
    by (auto simp: async_body_def Let_def split: option.splits)
  show ?thesis
  proof (cases "em_result m w")
    case (Value client_sock)
    with sk assms have "run_co (em_sys m) (server_body m) (s, w) = Inr (b, s', w')"
      by (simp add: async_body_def server_body_def)
    then show ?thesis
      by (rule run_server_body) (use that Value in \<open>simp add: async_server_as_server\<close>)
  next
    case (Error ec)
    with assms sk obtain t s1 w1 s2 w2 where "error_code_message ec = Inr t" "sock_dtor (em_net m) sk (s, w) = Inr (s1, w1)"
      and "destroy_clients (em_net m) (em_app m) (srv_clients ?srv) (s1, w1) = Inr (s', w2)"
      and "w' = em_set m \<lparr>srv_sock = None, srv_clients = []\<rparr> w2"
      by (auto simp: async_body_def Let_def run_sock_dtor_co run_destroy_clients_co split: sum.splits)
    with sk Error that show ?thesis by (simp add: async_server_resume_def)
  qed
qed

section \<open>What it runs on\<close>

text \<open>
  The descriptors' contract, and that the variables are separate. The kernel reports events only for
  descriptors that are open and that the program has registered: none of those open before (\<open>old\<close>, with the
  \<open>epoll\<close> instance) is.
\<close>

definition async_contract :: "'w echo_main \<Rightarrow> ('w \<Rightarrow> int set) \<Rightarrow> sock \<Rightarrow> int set \<Rightarrow> bool" where
  "async_contract m opened L old \<longleftrightarrow>
     (let net = em_net m; sys = em_sys m; kept = (\<lambda>w w'. em_server m w' = em_server m w \<and> opened w' = opened w) in
      descriptor_contract net opened \<and> app_contract (em_app m) opened \<and>
      sys_resume sys 0 = async_body m \<and> sys_call sys 0 = accept_proxy net L 0 \<and>
      (\<forall>srv w. em_server m (em_set m srv w) = srv \<and> opened (em_set m srv w) = opened w) \<and>
      (\<forall>r w. em_result m (net_res net 0 r w) = r \<and> kept w (net_res net 0 r w)) \<and>
      (\<forall>r e w. kept w (sys_store sys r e w)) \<and>
      (\<forall>w. kept w (snd (sys_now sys w))) \<and>
      (\<forall>ep n t w. kept w (snd (sys_epoll_wait sys ep n t w))) \<and>
      (\<forall>ep op fd e w. kept w (snd (sys_epoll_ctl sys ep op fd e w))) \<and>
      (\<forall>fd w errno w1. net_accept net fd w = (Inl errno, w1) \<longrightarrow> kept w w1) \<and>
      (\<forall>ep n t w ready. fst (sys_epoll_wait sys ep n t w) = Inr ready \<longrightarrow> ee_fd ` set ready \<subseteq> opened w - old))"

lemma async_contractD:
  assumes "async_contract m opened L old"
  shows "descriptor_contract (em_net m) opened" "app_contract (em_app m) opened"
    "sys_resume (em_sys m) 0 = async_body m" "sys_call (em_sys m) 0 = accept_proxy (em_net m) L 0"
    "em_server m (em_set m srv w) = srv" "opened (em_set m srv w) = opened w"
    "em_result m (net_res (em_net m) 0 r w) = r" "em_server m (net_res (em_net m) 0 r w) = em_server m w"
    "opened (net_res (em_net m) 0 r w) = opened w"
    "em_server m (sys_store (em_sys m) place e w) = em_server m w" "opened (sys_store (em_sys m) place e w) = opened w"
    "opened (snd (sys_now (em_sys m) w)) = opened w" "opened (snd (sys_epoll_wait (em_sys m) ep k t w)) = opened w"
    "em_server m (snd (sys_epoll_ctl (em_sys m) ep op fd ev w)) = em_server m w"
    "net_accept (em_net m) fd w = (Inl errno, w1) \<Longrightarrow> em_server m w1 = em_server m w \<and> opened w1 = opened w"
    "fst (sys_epoll_wait (em_sys m) ep k t w) = Inr ready \<Longrightarrow> ee_fd ` set ready \<subseteq> opened w - old"
  using assms unfolding async_contract_def Let_def by simp_all

lemma destroy_clients_nodes:
  "destroy_clients net app cs (s, w) = Inr (s', w') \<Longrightarrow> nodes_of s' = nodes_of s \<and> time_nodes s' = time_nodes s"
proof (induction cs arbitrary: s w)
  case (Cons c cs)
  from Cons.prems obtain s1 w1 where "client_dtor net app c (s, w) = Inr (s1, w1)"
    and rest: "destroy_clients net app cs (s1, w1) = Inr (s', w')" by auto
  then obtain w2 where "sock_dtor net (cl_sock c) (s, w2) = Inr (s1, w1)" by (auto simp: client_dtor_def)
  from sock_dtor_frame(1,2) [OF this] Cons.IH [OF rest] show ?case by simp
qed simp

text \<open>What is left after the resumption with an error: everything closed, every node where it was.\<close>

lemma async_failed:
  assumes contract: "async_contract m opened L old" and srv: "server_holds opened old (em_server m w) w"
    and res: "em_result m w = Error ec" and run: "run_co (em_sys m) (async_body m) (s, w) = Inr (b, s', w')"
  shows "opened w' = old" "em_server m w' = \<lparr>srv_sock = None, srv_clients = []\<rparr>" "nodes_of s' = nodes_of s"
    "time_nodes s' = time_nodes s"
proof -
  obtain srv1 w1 where step: "async_server_resume (em_net m) (em_app m) 0 0 (Error ec) (em_server m w, s, w) = Inr (srv1, s', w1)"
    and w': "w' = em_set m srv1 w1"
    using run by (rule run_async_body) (use res in auto)
  from async_server_closes_all [OF async_contractD(1,2) [OF contract] srv step]
  show "opened w' = old" by (simp add: w' async_contractD(6) [OF contract])
  from step obtain sk s2 w2 where dtor: "sock_dtor (em_net m) sk (s, w) = Inr (s2, w2)"
    and rest: "destroy_clients (em_net m) (em_app m) (srv_clients (em_server m w)) (s2, w2) = Inr (s', w1)"
    and srv1: "srv1 = \<lparr>srv_sock = None, srv_clients = []\<rparr>"
    by (auto simp: async_server_resume_def split: option.splits)
  from destroy_clients_nodes [OF rest] sock_dtor_frame(1,2) [OF dtor]
  show "nodes_of s' = nodes_of s" "time_nodes s' = time_nodes s" by simp_all
  show "em_server m w' = \<lparr>srv_sock = None, srv_clients = []\<rparr>" by (simp add: w' srv1 async_contractD(5) [OF contract])
qed

text \<open>The handler of the listening descriptor, when accepting fails.\<close>

lemma async_accept_failed:
  assumes contract: "async_contract m opened L old" and srv: "server_holds opened old (em_server m w) w"
    and node: "nodes_of s (sk_fd L) = [\<lparr>nd_ev = ev_READ, nd_revent = 0, nd_next = Proxy 0\<rparr>]"
    and failing: "ev_READ AND e \<noteq> 0" "net_accept (em_net m) (sk_fd L) (sys_store (em_sys m) 0 e w) = (Inl errno, w2)"
      "\<not> negligible errno"
    and run: "handle_event n (em_sys m) (sk_fd L) e (s, w) = Inr (s', w')"
  shows "opened w' = old" "em_server m w' = \<lparr>srv_sock = None, srv_clients = []\<rparr>" "nodes_of s' = (nodes_of s)(sk_fd L := [])"
    "time_nodes s' = time_nodes s"
proof -
  let ?left = "opened w' = old \<and> em_server m w' = \<lparr>srv_sock = None, srv_clients = []\<rparr> \<and>
    nodes_of s' = (nodes_of s)(sk_fd L := []) \<and> time_nodes s' = time_nodes s"
  have ?left
    using run
  proof (rule handle_event_parts)
    fix kept s1 w1
    let ?s = "s\<lparr>descriptor_nodes := (descriptor_nodes s)[nat (sk_fd L) := []]\<rparr>"
    let ?w = "net_res (em_net m) 0 (Error (trans_error_code errno)) w2"
    assume out: "nodes_of ?s = (nodes_of s)(sk_fd L := [])"
      and nodes: "handle_nodes n (em_sys m) e [] (nodes_of s (sk_fd L)) (?s, w) = Inr (kept, s1, w1)"
      and after: "nodes_of s' = (nodes_of s1)(sk_fd L := kept @ nodes_of s1 (sk_fd L))" "time_nodes s' = time_nodes s1"
        "poller_subscribe (em_sys m) (sk_fd L) (node_events (kept @ nodes_of s1 (sk_fd L))) (the_poller s1, w1) =
          Inr (the_poller s', w')"
    from nodes node failing obtain b s2 where body: "run_co (em_sys m) (async_body m) (?s, ?w) = Inr (b, s2, w1)"
      and s1: "kept = []" "nodes_of s1 = nodes_of s2" "time_nodes s1 = time_nodes s2"
      by (cases n) (auto simp: run_next_def async_contractD(3,4) [OF contract] accept_proxy_def run_co_then_yes)
    have now: "em_server m ?w = em_server m w" "opened ?w = opened w" "em_result m ?w = Error (trans_error_code errno)"
      using async_contractD(7-11) [OF contract] async_contractD(15) [OF contract failing(2)] by simp_all
    with srv have "server_holds opened old (em_server m ?w) ?w" by (simp add: server_holds_def)
    note left = async_failed [OF contract this now(3) body]
    have "em_server m w' = em_server m w1 \<and> opened w' = opened w1"
      by (rule subscribe_outside [where Q = "\<lambda>w'. em_server m w' = em_server m w1 \<and> opened w' = opened w1", OF _ _ after(3)])
        (simp_all add: async_contractD(14) [OF contract] descriptor_keeps [OF async_contractD(1) [OF contract]])
    with left s1 after(1,2) out show ?left by (auto simp: fun_eq_iff)
  qed
  then show "opened w' = old" "em_server m w' = \<lparr>srv_sock = None, srv_clients = []\<rparr>"
    "nodes_of s' = (nodes_of s)(sk_fd L := [])" "time_nodes s' = time_nodes s" by simp_all
qed

section \<open>An example\<close>

text \<open>The world of \<open>BC_Echo_Server\<close>, whose kernel reports events for open sockets only.\<close>

definition ea_wait :: "echo_world \<Rightarrow> (int + epoll_event list) \<times> echo_world" where
  "ea_wait w = (case sw_wait w of
     (Inl errno, w1) \<Rightarrow> (Inl errno, w1)
   | (Inr ready, w1) \<Rightarrow> (Inr (filter (\<lambda>r. ee_fd r \<in> set (ew_open w) \<and> ee_fd r \<notin> {1, 2, 4}) ready), w1))"

definition ea_main :: "(nat \<Rightarrow> echo_world co) \<Rightarrow> (nat \<Rightarrow> echo_world co) \<Rightarrow> echo_world echo_main" where
  "ea_main bodies calls =
     (let m = ew_main bodies calls in
      m\<lparr>em_host := (em_host m)\<lparr>ho_kind := Example_session,
        ho_net := (em_net m)\<lparr>net_sys := (em_sys m)\<lparr>sys_epoll_wait := (\<lambda>ep n t. ea_wait)\<rparr>\<rparr>\<rparr>\<rparr>)"

definition ea_bodies :: "nat \<Rightarrow> echo_world co" where
  "ea_bodies h =
     (let m = ea_main (\<lambda>_. Stop True) (\<lambda>_. Stop True) in if h = 0 then async_body m else session_body (em_host m) h)"

definition ea_calls :: "nat \<Rightarrow> echo_world co" where
  "ea_calls p = accept_proxy (em_net (ea_main ea_bodies (\<lambda>_. Stop True))) ew_sock p"

definition async_example :: "echo_world echo_main" where
  "async_example = ea_main ea_bodies ea_calls"

lemma ea_main_fields:
  "ho_kind (em_host (ea_main b c)) = Example_session" "net_accept (em_net (ea_main b c)) fd = ew_accept"
  "net_socket (em_net (ea_main b c)) d p = ew_take" "net_reuse (em_net (ea_main b c)) fd w = (0, w)"
  "net_bind (em_net (ea_main b c)) fd a n w = (0, w)" "net_listen (em_net (ea_main b c)) fd n w = (0, w)"
  "net_res (em_net (ea_main b c)) h r w = w\<lparr>ew_result := r\<rparr>"
  "sys_epoll_create (em_sys (ea_main b c)) = ew_take"
  "sys_close (em_sys (ea_main b c)) fd w = (0, w\<lparr>ew_open := filter (\<lambda>x. x \<noteq> fd) (ew_open w)\<rparr>)"
  "sys_epoll_ctl (em_sys (ea_main b c)) ep op fd e w = (0, w)"
  "sys_epoll_wait (em_sys (ea_main b c)) ep n t = ea_wait"
  "sys_now (em_sys (ea_main b c)) w = (0, w)"
  "sys_store (em_sys (ea_main b c)) h e w = w\<lparr>sw_event := (sw_event w)(h := e)\<rparr>"
  "sys_resume (em_sys (ea_main b c)) = b" "sys_call (em_sys (ea_main b c)) = c"
  "ho_set (em_host (ea_main b c)) h ses w = w\<lparr>sw_ses := (sw_ses w)(h := ses)\<rparr>"
  "em_server (ea_main b c) = ew_server" "em_set (ea_main b c) srv w = w\<lparr>ew_server := srv\<rparr>"
  "em_result (ea_main b c) = ew_result" "em_forget (ea_main b c) h w = w"
  by (simp_all add: ea_main_def ew_main_fields Let_def)

lemma ea_main_bodies:
  "async_body (ea_main b c) = async_body (ea_main b' c')"
  "accept_proxy (em_net (ea_main b c)) sk p = accept_proxy (em_net (ea_main b c')) sk p"
proof -
  let ?m = "ea_main b c" and ?m' = "ea_main b' c'"
  have app: "em_app ?m = em_app ?m'"
    unfolding em_app_def session_begin_def await_session_def by (simp add: ea_main_def ew_main_def sw_hosting_def Let_def)
  have sys: "sys_done (em_sys ?m) = sys_done (em_sys ?m')" "sys_close (em_sys ?m) = sys_close (em_sys ?m')"
    by (simp_all add: ea_main_def Let_def fun_eq_iff ew_main_fields)
  have main: "em_server ?m = em_server ?m'" "em_set ?m = em_set ?m'" "em_result ?m = em_result ?m'"
    by (simp_all add: fun_eq_iff ea_main_fields)
  have sweep: "sweep_co (em_net ?m) = sweep_co (em_net ?m')"
    by (rule ext)+ (rule sweep_co_net [OF sys])
  have dtor: "sock_dtor_co (em_net ?m) = sock_dtor_co (em_net ?m')"
    by (rule ext)+ (simp only: sock_dtor_co_def sys(2))
  have client: "client_dtor_co (em_net ?m) = client_dtor_co (em_net ?m')"
    by (rule ext)+ (simp only: client_dtor_co_def dtor)
  have clients: "destroy_clients_co (em_net ?m) app cs k = destroy_clients_co (em_net ?m') app cs k" for app cs k
    by (induction cs) (simp_all add: client)
  show "async_body ?m = async_body ?m'"
    unfolding async_body_def serve_client_def app main sweep dtor clients ..
  have net: "net_res (em_net ?m) = net_res (em_net (ea_main b c'))"
    "net_accept (em_net ?m) = net_accept (em_net (ea_main b c'))" "sys_resume (em_sys ?m) = sys_resume (em_sys (ea_main b c'))"
    by (simp_all add: fun_eq_iff ea_main_fields)
  show "accept_proxy (em_net ?m) sk p = accept_proxy (em_net (ea_main b c')) sk p"
    unfolding accept_proxy_def net ..
qed

lemma async_example_contract: "async_contract async_example (set \<circ> ew_open) ew_sock {1, 2, 4}"
proof -
  let ?m = async_example
  note fields = ea_main_fields [of ea_bodies ea_calls, folded async_example_def]
  have "ea_calls 0 = accept_proxy (em_net ?m) ew_sock 0" "ea_bodies 0 = async_body ?m"
    unfolding ea_calls_def async_example_def ea_bodies_def using ea_main_bodies by simp_all
  then have bodies: "sys_call (em_sys ?m) 0 = accept_proxy (em_net ?m) ew_sock 0" "sys_resume (em_sys ?m) 0 = async_body ?m"
    by (simp_all add: fields)
  have descriptors: "descriptor_contract (em_net ?m) (set \<circ> ew_open)"
    unfolding descriptor_contract_def
    by (intro conjI allI impI) (auto simp: fields ew_take_def ew_fresh_new dest: ew_accept_cases)
  have app: "app_contract (em_app ?m) (set \<circ> ew_open)"
    by (simp add: app_contract_def em_app_def session_begin_def await_session_def read_suspend_def fields opens_nothing_def)
  have wait: "ea_wait w = (r, w1) \<Longrightarrow> ew_server w1 = ew_server w \<and> ew_open w1 = ew_open w \<and>
      (case r of Inl errno \<Rightarrow> True | Inr ready \<Rightarrow> ee_fd ` set ready \<subseteq> set (ew_open w) - {1, 2, 4})" for w r w1
    by (auto simp: ea_wait_def sw_wait_def split: list.splits)
  have waits: "ew_server (snd (ea_wait w)) = ew_server w" "ew_open (snd (ea_wait w)) = ew_open w" for w
    using wait [of w] by (metis prod.collapse)+
  show ?thesis
    unfolding async_contract_def Let_def
  proof (intro conjI)
    show "\<forall>ep n t w ready. fst (sys_epoll_wait (em_sys ?m) ep n t w) = Inr ready \<longrightarrow> ee_fd ` set ready \<subseteq> (set \<circ> ew_open) w - {1, 2, 4}"
    proof (intro allI impI)
      fix ep n t w ready
      assume "fst (sys_epoll_wait (em_sys ?m) ep n t w) = Inr ready"
      then have "ea_wait w = (Inr ready, snd (ea_wait w))" by (simp add: fields prod_eq_iff)
      from wait [OF this] show "ee_fd ` set ready \<subseteq> (set \<circ> ew_open) w - {1, 2, 4}" by simp
    qed
  qed (use bodies descriptors app in \<open>auto simp: fields waits dest: ew_accept_cases(2)\<close>)
qed

text \<open>The program until it has accepted one connection, which gets the descriptor 5.\<close>

definition async_started :: "(sched \<times> echo_world) result" where
  "async_started =
     res_bind (await_accept (em_net async_example) 0 0 ew_sock
         (new_sched \<lparr>epfd = 4, focus = [], evs = []\<rparr>, echo_begins\<lparr>ew_open := [4, 3, 2, 1]\<rparr>))
       (\<lambda>(s, w). Inr (s, em_set async_example \<lparr>srv_sock = Some ew_sock, srv_clients = []\<rparr> w))"

lemma async_started_main: "async_main async_example Little IPv6 echo_begins = async_started"
proof -
  note fields = ea_main_fields [of ea_bodies ea_calls, folded async_example_def]
  obtain sa where addr: "address_ctor Little ''127.0.0.1'' 12345 = Inr (V4 sa)" using loopback_address by blast
  have open3: "ew_take echo_begins = (Inr 3, echo_begins\<lparr>ew_open := [3, 2, 1]\<rparr>)"
    by (simp add: ew_take_def ew_fresh_def echo_begins_def)
  have open4: "ew_take (echo_begins\<lparr>ew_open := [3, 2, 1]\<rparr>) = (Inr 4, echo_begins\<lparr>ew_open := [4, 3, 2, 1]\<rparr>)"
    by (simp add: ew_take_def ew_fresh_def)
  have "sock_bind_listen (em_net async_example) TCP (V4 sa) 10 (sock_default IPv6, echo_begins) =
      (None, ew_sock, echo_begins\<lparr>ew_open := [3, 2, 1]\<rparr>)"
    by (simp add: sock_bind_listen_def sock_bind_def use_domain_def sock_listen_def sock_default_def fields open3 ew_sock_def)
  then show ?thesis
    by (simp add: async_main_def accept_start_def default_scheduler_def addr poller_ctor_def fields open4 async_started_def
      res_bind_assoc)
qed

section \<open>Properties\<close>

text \<open>
  C10. The program \<open>async-server.cxx\<close> when accepting fails. Its coroutine then closes the listening socket and
  destroys its clients: every descriptor the program has opened is closed. But the sessions that had not
  ended still have their nodes with the scheduler, each with the handle of a frame that is gone, and
  \<open>coro_count_\<close> counts them. No event can come for a descriptor that is closed, so \<open>run\<close> never returns.
\<close>

theorem async_server_hangs:
  assumes contract: "async_contract m opened L old"
    and state: "server_holds opened old (em_server m w) w" "time_nodes s = []" "counted 0 None s w"
      "nodes_of s (sk_fd L) = [\<lparr>nd_ev = ev_READ, nd_revent = 0, nd_next = Proxy 0\<rparr>]"
    and unfinished: "c \<in> set (srv_clients (em_server m w))" "cl_fd c \<noteq> sk_fd L" "nodes_of s (cl_fd c) \<noteq> []"
    and failing: "ev_READ AND e \<noteq> 0" "net_accept (em_net m) (sk_fd L) (sys_store (em_sys m) 0 e w) = (Inl errno, w2)"
      "\<not> negligible errno" "handle_event n (em_sys m) (sk_fd L) e (s, w) = Inr (s', w')"
  shows "opened w' = old \<and> em_server m w' = \<lparr>srv_sock = None, srv_clients = []\<rparr> \<and>
    nodes_of s' (cl_fd c) = nodes_of s (cl_fd c) \<and> 0 < coro_count s' \<and> run k (em_sys m) (s', w') \<noteq> Inr st"
proof -
  note left = async_accept_failed [OF contract state(1,4) failing]
  have "counted 0 None s' w'" by (rule count.handle_event_R [OF behaved_UNIV state(3) failing(4)])
  moreover have "nodes_of s' (cl_fd c) \<noteq> []" using left(3) unfinished by simp
  then have "waiting_nodes s' \<noteq> 0" by (auto simp: waiting_nodes_zero)
  ultimately have counts: "0 < coro_count s'" by (simp add: counted_def pending_def)
  have "run k (em_sys m) (s', w') \<noteq> Inr st"
  proof (rule silent_run_never_returns [where Q = "\<lambda>w. opened w = old"])
    fix ep n t w
    assume old: "opened w = old"
    have "ready = []" if "fst (sys_epoll_wait (em_sys m) ep n t w) = Inr ready" for ready
      using async_contractD(16) [OF contract that] old by simp
    with old show "opened (snd (sys_epoll_wait (em_sys m) ep n t w)) = old \<and>
        (\<forall>ready. fst (sys_epoll_wait (em_sys m) ep n t w) = Inr ready \<longrightarrow> ready = [])"
      by (simp add: async_contractD(13) [OF contract])
  qed (use left state(2) counts async_contractD(12) [OF contract] in simp_all)
  with left unfinished counts show ?thesis by simp
qed

theorem async_server_hangs_witness:
  "\<exists>s w s' w'. res_bind (async_main async_example Little IPv6 echo_begins) (iteration 5 (em_sys async_example)) = Inr (s, w) \<and>
    handle_event 5 (em_sys async_example) 3 ev_READ (s, w) = Inr (s', w') \<and> set (ew_open w') = {1, 2, 4} \<and>
    (\<forall>k st. run k (em_sys async_example) (s', w') \<noteq> Inr st)"
proof -
  let ?first = "res_bind async_started (iteration 5 (em_sys async_example))"
  let ?nodes = "[\<lparr>nd_ev = ev_READ, nd_revent = 0, nd_next = Proxy 0\<rparr>]"
  have begun: "case ?first of Inl f \<Rightarrow> False
      | Inr (s, w) \<Rightarrow> time_nodes s = [] \<and> coro_count s = pending s \<and> nodes_of s 3 = ?nodes \<and> nodes_of s 5 \<noteq> [] \<and>
          srv_sock (ew_server w) = Some ew_sock \<and> map cl_fd (srv_clients (ew_server w)) = [5] \<and> ew_open w = [5, 4, 3, 2, 1] \<and>
          ew_accepts w = [24] \<and>
          (case handle_event 5 (em_sys async_example) 3 ev_READ (s, w) of Inl f \<Rightarrow> False | Inr st \<Rightarrow> True)"
    by code_simp
  then obtain s w where first: "?first = Inr (s, w)" by (cases ?first) auto
  with begun obtain s' w' where s: "time_nodes s = []" "counted 0 None s w" "nodes_of s 3 = ?nodes"
      "nodes_of s 5 \<noteq> []"
    and w: "srv_sock (ew_server w) = Some ew_sock" "map cl_fd (srv_clients (ew_server w)) = [5]" "ew_open w = [5, 4, 3, 2, 1]"
      "ew_accepts w = [24]"
    and run: "handle_event 5 (em_sys async_example) 3 ev_READ (s, w) = Inr (s', w')"
    by (cases "handle_event 5 (em_sys async_example) 3 ev_READ (s, w)") (auto simp: counted_def)
  note fields = ea_main_fields [of ea_bodies ea_calls, folded async_example_def]
  from w(2) obtain c where c: "c \<in> set (srv_clients (em_server async_example w))" "cl_fd c = 5"
    by (auto simp: fields)
  have sock: "sk_fd ew_sock = 3" by (simp add: ew_sock_def)
  have holds: "server_holds (set \<circ> ew_open) {1, 2, 4} (em_server async_example w) w"
    using w by (auto simp: server_holds_def fields holds_def sock)
  have "\<exists>w2. net_accept (em_net async_example) (sk_fd ew_sock) (sys_store (em_sys async_example) 0 ev_READ w) = (Inl 24, w2)"
    using w(4) by (simp add: fields ew_accept_def)
  then obtain w2 where failing: "net_accept (em_net async_example) (sk_fd ew_sock) (sys_store (em_sys async_example) 0 ev_READ w) =
      (Inl 24, w2)" by blast
  have event: "ev_READ AND ev_READ \<noteq> 0" "\<not> negligible 24" by (simp_all add: event_defs negligible_def)
  have "(set \<circ> ew_open) w' = {1, 2, 4} \<and> run k (em_sys async_example) (s', w') \<noteq> Inr st" for k st
    using async_server_hangs [OF async_example_contract holds s(1,2) _ c(1) _ _ event(1) failing event(2), of 5 s' w' k st]
      s(3,4) c(2) run sock by simp
  then have "set (ew_open w') = {1, 2, 4}" "\<forall>k st. run k (em_sys async_example) (s', w') \<noteq> Inr st" by simp_all
  with first run show ?thesis unfolding async_started_main by blast
qed

end
