(* ===== verification/BC_Sleeper.thy ===== *)
theory BC_Sleeper
  imports BC_Timers
begin

text \<open>
  The program \<open>examples/sleep.cxx\<close>: a coroutine that sleeps ten times, one that awaits it, and the loop
  of the scheduler that runs them. A resumed coroutine posts itself again here, so this is about
  timers that are made while others expire.
\<close>

section \<open>The program\<close>

text \<open>
  What the program runs on: the outside of the scheduler, the standard output by lines, and the
  variable in the frame of \<open>async_sleep_loop\<close> that says how many sleeps are left (the counters
  of the two loops, \<open>left\<close> being 10 to 6 in the first and 5 to 1 in the second).
\<close>

record 'w sleeper =
  sl_sys :: "'w sys"
  sl_print :: "string \<Rightarrow> 'w \<Rightarrow> 'w"
  sl_left :: "'w \<Rightarrow> nat"
  sl_set_left :: "nat \<Rightarrow> 'w \<Rightarrow> 'w"

definition one_second :: int where
  "one_second = 1000000000"

text \<open>
  What is printed from one sleep to the next, with \<open>r\<close> sleeps left; the end of the loop continues
  \<open>async_run\<close>, which awaits it.
\<close>

definition woken_text :: "nat \<Rightarrow> string list" where
  "woken_text r =
     (if 5 \<le> r then [''waked loop''] else [''waked loop 2'']) @
     (if r = 5 then [''loop finished''] else []) @
     (if r = 0 then [''async run finished''] else [])"

definition print_lines :: "'w sleeper \<Rightarrow> string list \<Rightarrow> 'w \<Rightarrow> 'w" where
  "print_lines p ls w = foldl (\<lambda>w l. sl_print p l w) w ls"

text \<open>\<open>async_sleep_loop\<close> from the test of a loop on, and where it goes on when it is resumed.\<close>

primrec sleep_loop :: "'w sleeper \<Rightarrow> nat \<Rightarrow> nat \<Rightarrow> 'w co" where
  "sleep_loop p h 0 = Stop True"
| "sleep_loop p h (Suc r) =
     Effect (sl_set_left p (Suc r)) (\<lambda>_.
       async_sleep (sl_sys p) one_second h
         (Effect (print_lines p (woken_text r)) (\<lambda>_. sleep_loop p h r)))"

definition sleep_body :: "'w sleeper \<Rightarrow> nat \<Rightarrow> 'w co" where
  "sleep_body p h =
     Effect (\<lambda>w. w) (\<lambda>w.
       case sl_left p w of
         0 \<Rightarrow> Stop True
       | Suc r \<Rightarrow> Effect (print_lines p (woken_text r)) (\<lambda>_. sleep_loop p h r))"

definition sleep_main :: "'w sleeper \<Rightarrow> nat \<Rightarrow> 'w co" where
  "sleep_main p h = Effect (sl_print p ''async run'') (\<lambda>_. sleep_loop p h 10)"

section \<open>What it runs on\<close>

definition sleeper_contract :: "'w sleeper \<Rightarrow> nat \<Rightarrow> ('w \<Rightarrow> int) \<Rightarrow> ('w \<Rightarrow> string list) \<Rightarrow> bool" where
  "sleeper_contract p h clock out \<longleftrightarrow>
     (\<forall>w. fst (sys_now (sl_sys p) w) = clock w \<and> clock w \<le> clock (snd (sys_now (sl_sys p) w)) \<and>
        out (snd (sys_now (sl_sys p) w)) = out w \<and> sl_left p (snd (sys_now (sl_sys p) w)) = sl_left p w) \<and>
     (\<forall>ns w. clock w + max 0 ns \<le> clock (sys_sleep (sl_sys p) ns w) \<and>
        out (sys_sleep (sl_sys p) ns w) = out w \<and> sl_left p (sys_sleep (sl_sys p) ns w) = sl_left p w) \<and>
     (\<forall>l w. clock w \<le> clock (sl_print p l w) \<and> out (sl_print p l w) = out w @ [l] \<and>
        sl_left p (sl_print p l w) = sl_left p w) \<and>
     (\<forall>r w. clock w \<le> clock (sl_set_left p r w) \<and> out (sl_set_left p r w) = out w \<and>
        sl_left p (sl_set_left p r w) = r) \<and>
     sys_resume (sl_sys p) h = sleep_body p h \<and> (\<forall>w. \<not> sys_done (sl_sys p) h w)"

lemma sleeper_contractD:
  assumes "sleeper_contract p h clock out"
  shows "fst (sys_now (sl_sys p) w) = clock w" "clock w \<le> clock (snd (sys_now (sl_sys p) w))"
    "out (snd (sys_now (sl_sys p) w)) = out w" "sl_left p (snd (sys_now (sl_sys p) w)) = sl_left p w"
    "clock w + max 0 ns \<le> clock (sys_sleep (sl_sys p) ns w)" "out (sys_sleep (sl_sys p) ns w) = out w"
    "sl_left p (sys_sleep (sl_sys p) ns w) = sl_left p w"
    "clock w \<le> clock (sl_print p l w)" "out (sl_print p l w) = out w @ [l]" "sl_left p (sl_print p l w) = sl_left p w"
    "clock w \<le> clock (sl_set_left p r w)" "out (sl_set_left p r w) = out w" "sl_left p (sl_set_left p r w) = r"
    "sys_resume (sl_sys p) h = sleep_body p h" "\<not> sys_done (sl_sys p) h w"
  using assms unfolding sleeper_contract_def by blast+

lemma print_lines_effect:
  assumes "sleeper_contract p h clock out"
  shows "clock w \<le> clock (print_lines p ls w) \<and> out (print_lines p ls w) = out w @ ls \<and>
    sl_left p (print_lines p ls w) = sl_left p w"
proof (induction ls arbitrary: w)
  case (Cons l ls)
  from Cons.IH [of "sl_print p l w"] sleeper_contractD(8-10) [OF assms, where l = l and w = w] show ?case
    by (auto simp: print_lines_def)
qed (simp add: print_lines_def)

text \<open>All that is printed with \<open>r\<close> sleeps left.\<close>

primrec texts :: "nat \<Rightarrow> string list" where
  "texts 0 = []"
| "texts (Suc r) = woken_text r @ texts r"

text \<open>
  Running the loop ends the coroutine, or posts one timer; then what was printed and what is left to
  print make up the whole, and each sleep over took a second at least.
\<close>

lemma run_sleep_loop:
  assumes "sleeper_contract p h clock out"
  shows "\<exists>w'. clock w \<le> clock w' \<and>
    (run_co (sl_sys p) (sleep_loop p h r) (s, w) = Inr (True, s, w') \<and> out w' = out w @ texts r \<and>
       clock w + int r * one_second \<le> clock w' \<or>
     (\<exists>i tp. i < r \<and> run_co (sl_sys p) (sleep_loop p h r) (s, w) = Inr (True, post_timer tp h s, w') \<and>
        out w' @ texts (Suc i) = out w @ texts r \<and> sl_left p w' = Suc i \<and>
        clock w + int r * one_second \<le> tp + int i * one_second))"
proof (induction r arbitrary: w)
  case (Suc r)
  let ?now = "\<lambda>w. snd (sys_now (sl_sys p) w)"
  note c = sleeper_contractD [OF assms]
  define w1 where "w1 = sl_set_left p (Suc r) w"
  define w2 where "w2 = ?now (?now w1)"
  have w1: "clock w \<le> clock w1" "out w1 = out w" "sl_left p w1 = Suc r" by (simp_all add: w1_def c)
  have w2: "clock w1 \<le> clock (?now w1)" "clock (?now w1) \<le> clock w2" "out w2 = out w1" "sl_left p w2 = sl_left p w1"
    using c(2) [of w1] c(2) [of "?now w1"] by (simp_all add: w2_def c(3,4))
  show ?case
  proof (cases "clock w1 + one_second \<le> clock (?now w1)")
    case False
    then have "run_co (sl_sys p) (sleep_loop p h (Suc r)) (s, w) = Inr (True, post_timer (clock w1 + one_second) h s, w2)"
      by (simp add: async_sleep_def Let_def c(1) w1_def w2_def)
    with w1 w2 show ?thesis
      by (intro exI [of _ w2] conjI disjI2 exI [of _ r] exI [of _ "clock w1 + one_second"]) (auto simp: algebra_simps)
  next
    case True
    let ?w3 = "print_lines p (woken_text r) w2"
    have w3: "clock w2 \<le> clock ?w3" "out ?w3 = out w2 @ woken_text r"
      using print_lines_effect [OF assms] by auto
    have run: "run_co (sl_sys p) (sleep_loop p h (Suc r)) (s, w) = run_co (sl_sys p) (sleep_loop p h r) (s, ?w3)"
      using True by (simp add: async_sleep_def Let_def c(1) w1_def w2_def)
    have late: "clock w + one_second \<le> clock ?w3" using True w1 w2 w3 by linarith
    have os: "0 < one_second" by (simp add: one_second_def)
    from Suc.IH [of ?w3] obtain w' where "clock ?w3 \<le> clock w'" and ih:
      "run_co (sl_sys p) (sleep_loop p h r) (s, ?w3) = Inr (True, s, w') \<and> out w' = out ?w3 @ texts r \<and>
         clock ?w3 + int r * one_second \<le> clock w' \<or>
       (\<exists>i tp. i < r \<and> run_co (sl_sys p) (sleep_loop p h r) (s, ?w3) = Inr (True, post_timer tp h s, w') \<and>
          out w' @ texts (Suc i) = out ?w3 @ texts r \<and> sl_left p w' = Suc i \<and>
          clock ?w3 + int r * one_second \<le> tp + int i * one_second)" by blast
    have sum: "clock w + int (Suc r) * one_second \<le> clock ?w3 + int r * one_second"
      using late by (simp add: algebra_simps)
    have all: "out ?w3 @ texts r = out w @ texts (Suc r)" using w1 w2 w3 by simp
    from ih show ?thesis
    proof (elim disjE exE conjE)
      assume a: "run_co (sl_sys p) (sleep_loop p h r) (s, ?w3) = Inr (True, s, w')" "out w' = out ?w3 @ texts r"
        "clock ?w3 + int r * one_second \<le> clock w'"
      then have "clock w + int (Suc r) * one_second \<le> clock w'" using sum by linarith
      moreover have "clock w \<le> clock w'" using late os \<open>clock ?w3 \<le> clock w'\<close> by linarith
      ultimately show ?thesis using a run all by (intro exI [of _ w'] conjI disjI1) simp_all
    next
      fix i tp
      assume a: "i < r" "run_co (sl_sys p) (sleep_loop p h r) (s, ?w3) = Inr (True, post_timer tp h s, w')"
        "out w' @ texts (Suc i) = out ?w3 @ texts r" "sl_left p w' = Suc i"
        "clock ?w3 + int r * one_second \<le> tp + int i * one_second"
      then have "clock w + int (Suc r) * one_second \<le> tp + int i * one_second" using sum by linarith
      moreover have "clock w \<le> clock w'" using late os \<open>clock ?w3 \<le> clock w'\<close> by linarith
      ultimately show ?thesis using a run all
        by (intro exI [of _ w'] conjI disjI2 exI [of _ i] exI [of _ tp]) (simp_all del: texts.simps)
    qed
  qed
qed (auto simp: exI [of _ w])

text \<open>Resuming the coroutine when its time has come, with \<open>Suc r\<close> sleeps left.\<close>

lemma resume_sleep_body:
  assumes "sleeper_contract p h clock out" "sl_left p w = Suc r"
  shows "\<exists>w'. clock w \<le> clock w' \<and>
    (resume (sl_sys p) h (s, w) = Inr (s, w') \<and> out w' = out w @ texts (Suc r) \<and>
       clock w + int r * one_second \<le> clock w' \<or>
     (\<exists>i tp. i < r \<and> resume (sl_sys p) h (s, w) = Inr (post_timer tp h s, w') \<and>
        out w' @ texts (Suc i) = out w @ texts (Suc r) \<and> sl_left p w' = Suc i \<and>
        clock w + int r * one_second \<le> tp + int i * one_second))"
proof -
  let ?w1 = "print_lines p (woken_text r) w"
  have w1: "clock w \<le> clock ?w1" "out ?w1 = out w @ woken_text r"
    using print_lines_effect [OF assms(1)] by auto
  have run: "run_co (sl_sys p) (sys_resume (sl_sys p) h) (s, w) = run_co (sl_sys p) (sleep_loop p h r) (s, ?w1)"
    using assms(2) by (simp add: sleeper_contractD(14) [OF assms(1)] sleep_body_def)
  have out: "out ?w1 @ texts r = out w @ texts (Suc r)" using w1(2) by simp
  from run_sleep_loop [OF assms(1), of ?w1 r s] obtain w' where mono: "clock ?w1 \<le> clock w'" and
    "run_co (sl_sys p) (sleep_loop p h r) (s, ?w1) = Inr (True, s, w') \<and> out w' = out ?w1 @ texts r \<and>
       clock ?w1 + int r * one_second \<le> clock w' \<or>
     (\<exists>i tp. i < r \<and> run_co (sl_sys p) (sleep_loop p h r) (s, ?w1) = Inr (True, post_timer tp h s, w') \<and>
        out w' @ texts (Suc i) = out ?w1 @ texts r \<and> sl_left p w' = Suc i \<and>
        clock ?w1 + int r * one_second \<le> tp + int i * one_second)" by blast
  then show ?thesis
  proof (elim disjE exE conjE)
    assume "run_co (sl_sys p) (sleep_loop p h r) (s, ?w1) = Inr (True, s, w')" "out w' = out ?w1 @ texts r"
      "clock ?w1 + int r * one_second \<le> clock w'"
    then show ?thesis using run out w1(1) mono
      by (intro exI [of _ w'] conjI disjI1) (simp_all add: resume_def)
  next
    fix i tp
    assume "i < r" "run_co (sl_sys p) (sleep_loop p h r) (s, ?w1) = Inr (True, post_timer tp h s, w')"
      "out w' @ texts (Suc i) = out ?w1 @ texts r" "sl_left p w' = Suc i"
      "clock ?w1 + int r * one_second \<le> tp + int i * one_second"
    then show ?thesis using run out w1(1) mono
      by (intro exI [of _ w'] conjI disjI2 exI [of _ i] exI [of _ tp]) (simp_all add: resume_def del: texts.simps)
  qed
qed

text \<open>
  Where the loop is with the one sleeper: ended, with all printed; or asleep until \<open>tp\<close> with \<open>Suc i\<close>
  sleeps left. \<open>whole\<close> is the whole text, \<open>due\<close> the time before which it cannot end.
\<close>

definition sleeper_ended ::
    "'w sleeper \<Rightarrow> ('w \<Rightarrow> int) \<Rightarrow> ('w \<Rightarrow> string list) \<Rightarrow> string list \<Rightarrow> int \<Rightarrow> sched \<Rightarrow> sched \<times> 'w \<Rightarrow> bool" where
  "sleeper_ended p clock out whole due s st \<longleftrightarrow>
     fst st = with_timers s [] \<and> out (snd st) = whole \<and> due \<le> clock (snd st)"

definition sleeper_asleep ::
    "'w sleeper \<Rightarrow> nat \<Rightarrow> ('w \<Rightarrow> string list) \<Rightarrow> string list \<Rightarrow> int \<Rightarrow> sched \<Rightarrow> int \<Rightarrow> nat \<Rightarrow> sched \<times> 'w \<Rightarrow> bool" where
  "sleeper_asleep p h out whole due s tp i st \<longleftrightarrow>
     fst st = with_timers s [(tp, h)] \<and> sl_left p (snd st) = Suc i \<and>
     out (snd st) @ texts (Suc i) = whole \<and> due \<le> tp + int i * one_second"

lemma handle_expired_sleeper:
  assumes "sleeper_contract p h clock out"
  shows "sleeper_asleep p h out whole due s tp r (s1, w) \<Longrightarrow>
    \<exists>st'. (\<exists>any. (\<forall>n > Suc r. handle_expired n (sl_sys p) k (s1, w) = Inr (any, st')) \<and>
      (any \<and> sleeper_ended p clock out whole due s st' \<or>
       (\<exists>tp' i. any \<and> i < r \<and> sleeper_asleep p h out whole due s tp' i st') \<or>
       any = (k > 0) \<and> sleeper_asleep p h out whole due s tp r st' \<and> clock w < tp \<and> clock w \<le> clock (snd st')))"
proof (induction r arbitrary: tp s1 w k rule: less_induct)
  case (less r)
  note asleep = less.prems [unfolded sleeper_asleep_def fst_conv snd_conv]
  obtain now w1 where now: "sys_now (sl_sys p) w = (now, w1)" by fastforce
  then have w1: "now = clock w" "clock w \<le> clock w1" "out w1 = out w" "sl_left p w1 = sl_left p w"
    using sleeper_contractD(1-4) [OF assms, of w] by simp_all
  show ?case
  proof (cases "tp \<le> now")
    case False
    then have "handle_expired n (sl_sys p) k (s1, w) = Inr (k > 0, s1, w1)" if "n > Suc r" for n
      using that now asleep by (cases n) (auto simp: pq_top_def)
    moreover have "sleeper_asleep p h out whole due s tp r (s1, w1)"
      using asleep w1 by (simp add: sleeper_asleep_def)
    ultimately show ?thesis using False w1
      by (intro exI [of _ "(s1, w1)"] exI [of _ "k > 0"]) (simp add: not_le)
  next
    case True
    let ?s = "s1\<lparr>time_nodes := []\<rparr>"
    have step: "handle_expired (Suc n) (sl_sys p) k (s1, w) =
        res_bind (resume (sl_sys p) h (?s, w1)) (\<lambda>(s2, w2). handle_expired n (sl_sys p) (k + 1)
          (s2\<lparr>coro_count := size_dec (coro_count s2)\<rparr>, w2))" for n
      using True now asleep sleeper_contractD(15) [OF assms, of w1] by (simp add: pq_top_def pq_pop_def)
    have ended: "?s\<lparr>coro_count := size_dec (coro_count ?s)\<rparr> = with_timers s []"
      using asleep by (simp add: with_timers_def)
    have again: "(post_timer tp' h ?s)\<lparr>coro_count := size_dec (coro_count (post_timer tp' h ?s))\<rparr> =
        with_timers s [(tp', h)]" for tp'
      using asleep by (simp add: with_timers_def post_timer_def pq_push_def size_dec_def)
    from resume_sleep_body [OF assms, of w1 r ?s] asleep w1 obtain w2 where w2: "clock w1 \<le> clock w2" and
      "resume (sl_sys p) h (?s, w1) = Inr (?s, w2) \<and> out w2 = out w1 @ texts (Suc r) \<and>
         clock w1 + int r * one_second \<le> clock w2 \<or>
       (\<exists>i tp'. i < r \<and> resume (sl_sys p) h (?s, w1) = Inr (post_timer tp' h ?s, w2) \<and>
          out w2 @ texts (Suc i) = out w1 @ texts (Suc r) \<and> sl_left p w2 = Suc i \<and>
          clock w1 + int r * one_second \<le> tp' + int i * one_second)" by auto
    then show ?thesis
    proof (elim disjE exE conjE)
      assume a: "resume (sl_sys p) h (?s, w1) = Inr (?s, w2)" "out w2 = out w1 @ texts (Suc r)"
        "clock w1 + int r * one_second \<le> clock w2"
      have "handle_expired n (sl_sys p) k (s1, w) = Inr (True, with_timers s [], w2)" if n: "n > Suc r" for n
      proof -
        from n obtain m where "n = Suc (Suc m)" by (cases n; cases "n - 1") auto
        then show ?thesis using step [of "Suc m"] a(1) ended by simp
      qed
      moreover have "sleeper_ended p clock out whole due s (with_timers s [], w2)"
        using a asleep True w1 by (simp add: sleeper_ended_def del: texts.simps)
      ultimately show ?thesis by (intro exI [of _ "(with_timers s [], w2)"] exI [of _ True]) simp
    next
      fix i tp'
      assume a: "i < r" "resume (sl_sys p) h (?s, w1) = Inr (post_timer tp' h ?s, w2)"
        "out w2 @ texts (Suc i) = out w1 @ texts (Suc r)" "sl_left p w2 = Suc i"
        "clock w1 + int r * one_second \<le> tp' + int i * one_second"
      have "sleeper_asleep p h out whole due s tp' i (with_timers s [(tp', h)], w2)"
        using a asleep True w1 by (simp add: sleeper_asleep_def del: texts.simps)
      from less.IH [OF a(1) this, of "k + 1"] obtain st' any where
        all: "\<And>n. n > Suc i \<Longrightarrow> handle_expired n (sl_sys p) (k + 1) (with_timers s [(tp', h)], w2) = Inr (any, st')"
        and res: "any \<and> sleeper_ended p clock out whole due s st' \<or>
          (\<exists>tp' j. any \<and> j < i \<and> sleeper_asleep p h out whole due s tp' j st') \<or>
          any = (k + 1 > 0) \<and> sleeper_asleep p h out whole due s tp' i st' \<and> clock w2 < tp' \<and> clock w2 \<le> clock (snd st')"
        by blast
      have "handle_expired n (sl_sys p) k (s1, w) = Inr (any, st')" if n: "n > Suc r" for n
      proof -
        from n obtain m where "n = Suc m" "m > Suc i" using a(1) by (cases n) auto
        then show ?thesis using step [of m] a(2) again all [of m] by simp
      qed
      moreover have "any \<and> sleeper_ended p clock out whole due s st' \<or>
          (\<exists>tp' j. any \<and> j < r \<and> sleeper_asleep p h out whole due s tp' j st')"
        using res a(1) less_trans by fastforce
      ultimately show ?thesis by blast
    qed
  qed
qed

lemma run_sleeper_ended:
  "sleeper_ended p clock out whole due s st \<Longrightarrow> 0 < n \<Longrightarrow> run n sys st = Inr st"
  by (cases n) (simp_all add: sleeper_ended_def)

lemma run_sleeper:
  assumes sys: "sleeper_contract p h clock out"
  shows "sleeper_asleep p h out whole due s tp r st \<Longrightarrow>
    \<exists>N st'. (\<forall>n\<ge>N. run n (sl_sys p) st = Inr st') \<and> sleeper_ended p clock out whole due s st'"
proof (induction r arbitrary: tp st rule: less_induct)
  case (less r)
  note fewer = less.IH
  from less.prems show ?case
  proof (induction "nat (tp - clock (snd st))" arbitrary: st rule: less_induct)
    case less
    obtain s1 w where st: "st = (s1, w)" by fastforce
    have busy: "coro_count s1 \<noteq> 0" "coro_count s1 = length (time_nodes s1)"
      using less.prems st by (simp_all add: sleeper_asleep_def)
    have one: "run (Suc n) (sl_sys p) st = res_bind (iteration n (sl_sys p) st) (run n (sl_sys p))" for n
      using busy st by simp
    have later: "\<exists>N st'. (\<forall>n\<ge>N. run n (sl_sys p) st = Inr st') \<and> sleeper_ended p clock out whole due s st'"
      if it: "\<And>n. n > M \<Longrightarrow> iteration n (sl_sys p) st = Inr st1"
        and run: "\<And>n. n \<ge> K \<Longrightarrow> run n (sl_sys p) st1 = Inr st2" and "sleeper_ended p clock out whole due s st2"
      for M K st1 st2
    proof -
      have "run n (sl_sys p) st = Inr st2" if "n \<ge> M + K + 2" for n
        using that one [of "n - 1"] it [of "n - 1"] run [of "n - 1"] by (cases n) auto
      with that(3) show ?thesis by blast
    qed
    from handle_expired_sleeper [OF sys less.prems [unfolded st], of 0] obtain st1 any where
      exp: "\<And>n. n > Suc r \<Longrightarrow> handle_expired n (sl_sys p) 0 (s1, w) = Inr (any, st1)"
      and res: "any \<and> sleeper_ended p clock out whole due s st1 \<or>
        (\<exists>tp' i. any \<and> i < r \<and> sleeper_asleep p h out whole due s tp' i st1) \<or>
        any = (0 < (0 :: nat)) \<and> sleeper_asleep p h out whole due s tp r st1 \<and> clock w < tp \<and> clock w \<le> clock (snd st1)"
      by blast
    have any: "any \<Longrightarrow> n > Suc r \<Longrightarrow> iteration n (sl_sys p) st = Inr st1" for n
      using exp st by (cases st1) (simp add: iteration_def)
    from res consider (ended) "any" "sleeper_ended p clock out whole due s st1"
      | (closer) tp' i where "any" "i < r" "sleeper_asleep p h out whole due s tp' i st1"
      | (waits) "\<not> any" "sleeper_asleep p h out whole due s tp r st1" "clock w < tp" "clock w \<le> clock (snd st1)"
      by auto
    then show ?case
    proof cases
      case ended
      then show ?thesis using later [OF any [OF ended(1)] run_sleeper_ended [OF ended(2)]] by (metis Suc_le_eq)
    next
      case (closer tp' i)
      from fewer [OF closer(2,3)] obtain N st2 where
        end1: "\<And>n. n \<ge> N \<Longrightarrow> run n (sl_sys p) st1 = Inr st2" "sleeper_ended p clock out whole due s st2" by blast
      show ?thesis by (rule later [OF any [OF closer(1)] end1])
    next
      case waits
      obtain s2 w1 where st1: "st1 = (s2, w1)" by fastforce
      obtain now w2 where now: "sys_now (sl_sys p) w1 = (now, w2)" by fastforce
      define w3 where "w3 = sys_sleep (sl_sys p) (next_period (time_nodes s2) now) w2"
      note c = sleeper_contractD [OF sys]
      have s2: "time_nodes s2 = [(tp, h)]" "coro_count s2 = 1" "clock w \<le> clock w1"
        using waits st1 by (simp_all add: sleeper_asleep_def)
      have it: "n > Suc r \<Longrightarrow> iteration n (sl_sys p) st = Inr (s2, w3)" for n
        using exp [of n] waits(1) st st1 now s2 by (simp add: iteration_def w3_def)
      have w2: "now = clock w1" "clock w1 \<le> clock w2" "out w2 = out w1" "sl_left p w2 = sl_left p w1"
        using c(1-4) [of w1] now by simp_all
      have w3: "clock w2 + max 0 (next_period [(tp, h)] now) \<le> clock w3" "out w3 = out w1" "sl_left p w3 = sl_left p w1"
        using w2 by (simp_all add: w3_def s2 c(5-7))
      have "nat (tp - clock (snd (s2, w3))) < nat (tp - clock (snd st))"
        using w2(1,2) w3(1) waits(3) s2(3) st by (auto simp: next_period_def pq_top_def s_period_def split: if_splits)
      moreover have "sleeper_asleep p h out whole due s tp r (s2, w3)"
        using waits(2) w3(2,3) st1 by (simp add: sleeper_asleep_def)
      ultimately obtain N st2 where
        end2: "\<And>n. n \<ge> N \<Longrightarrow> run n (sl_sys p) (s2, w3) = Inr st2" "sleeper_ended p clock out whole due s st2"
        using less.hyps by blast
      show ?thesis by (rule later [OF it end2])
    qed
  qed
qed

section \<open>A concrete outside\<close>

text \<open>A clock that advances by one with each reading, the output, and the frame variable.\<close>

type_synonym sleeper_world = "int \<times> string list \<times> nat"

definition sleeper_sys :: "(nat \<Rightarrow> sleeper_world co) \<Rightarrow> sleeper_world sys" where
  "sleeper_sys bodies =
     \<lparr>sys_epoll_create = (\<lambda>w. (Inr 3, w)), sys_close = (\<lambda>fd w. (0, w)),
      sys_epoll_ctl = (\<lambda>ep op fd e w. (0, w)), sys_epoll_wait = (\<lambda>ep n t w. (Inr [], w)),
      sys_now = (\<lambda>(t, out, left). (t, (t + 1, out, left))),
      sys_sleep = (\<lambda>ns (t, out, left). (t + max 0 ns, out, left)),
      sys_store = (\<lambda>r e w. w), sys_resume = bodies,
      sys_call = (\<lambda>p. Stop True), sys_done = (\<lambda>h w. False)\<rparr>"

definition the_sleeper :: "(nat \<Rightarrow> sleeper_world co) \<Rightarrow> sleeper_world sleeper" where
  "the_sleeper bodies =
     \<lparr>sl_sys = sleeper_sys bodies, sl_print = (\<lambda>l (t, out, left). (t, out @ [l], left)),
      sl_left = (\<lambda>(t, out, left). left), sl_set_left = (\<lambda>r (t, out, left). (t, out, r))\<rparr>"

text \<open>The body of the coroutine reads the clock of the system it runs on, not the bodies.\<close>

definition demo_sleeper :: "sleeper_world sleeper" where
  "demo_sleeper = the_sleeper (sleep_body (the_sleeper (\<lambda>_. Stop True)))"

lemma sleep_loop_bodies: "sleep_loop (the_sleeper b) h r = sleep_loop (the_sleeper b') h r"
proof (induction r)
  case (Suc r)
  have "print_lines (the_sleeper b) = print_lines (the_sleeper b')"
    by (simp add: print_lines_def the_sleeper_def fun_eq_iff)
  with Suc show ?case by (simp add: async_sleep_def the_sleeper_def sleeper_sys_def)
qed simp

lemma demo_sleeper_contract: "sleeper_contract demo_sleeper h fst (\<lambda>w. fst (snd w))"
proof -
  have lines: "print_lines (the_sleeper b) = print_lines (the_sleeper b')" for b b'
    by (simp add: print_lines_def the_sleeper_def fun_eq_iff)
  have left: "sl_left (the_sleeper b) = sl_left (the_sleeper b')" for b b' by (simp add: the_sleeper_def)
  have "sleep_body (the_sleeper b) h = sleep_body (the_sleeper b') h" for b b'
    unfolding sleep_body_def using sleep_loop_bodies [of b h _ b'] lines [of b b'] left [of b b']
    by (simp cong: nat.case_cong)
  then have "sys_resume (sl_sys demo_sleeper) h = sleep_body demo_sleeper h"
    by (simp add: demo_sleeper_def the_sleeper_def sleeper_sys_def)
  then show ?thesis
    by (auto simp: sleeper_contract_def demo_sleeper_def the_sleeper_def sleeper_sys_def)
qed

section \<open>Properties\<close>

text \<open>
  C33. \<open>sleep.cxx\<close> does what it says. On any clock that does not run backwards, with sleeps that last as
  long as asked, \<open>run\<close> returns; the program has then printed its thirteen lines in order, ending
  with that of the coroutine that awaits the sleeping one, ten seconds have passed at least, and nothing is
  left with the scheduler.
\<close>

theorem sleep_program_outcome:
  assumes "sleeper_contract p h clock out"
  shows "\<exists>N s' w'. (\<forall>n\<ge>N. res_bind (run_co (sl_sys p) (sleep_main p h) (new_sched q, w)) (\<lambda>(b, st). run n (sl_sys p) st)
      = Inr (s', w')) \<and>
    coro_count s' = 0 \<and> time_nodes s' = [] \<and> clock w + 10 * one_second \<le> clock w' \<and>
    out w' = out w @ [''async run''] @ replicate 5 ''waked loop'' @ [''loop finished''] @
      replicate 5 ''waked loop 2'' @ [''async run finished'']"
proof -
  let ?w1 = "sl_print p ''async run'' w" and ?s = "new_sched q"
  have new: "?s = with_timers ?s []" by (simp add: new_sched_def with_timers_def)
  have w1: "clock w \<le> clock ?w1" "out ?w1 = out w @ [''async run'']"
    using sleeper_contractD(8,9) [OF assms] by auto
  have texts: "texts 10 = replicate 5 ''waked loop'' @ [''loop finished''] @ replicate 5 ''waked loop 2'' @
      [''async run finished'']"
    by code_simp
  have post: "post_timer tp h ?s = with_timers ?s [(tp, h)]" for tp
    by (simp add: post_timer_def new_sched_def with_timers_def pq_push_def)
  have main: "run_co (sl_sys p) (sleep_main p h) (?s, w) = run_co (sl_sys p) (sleep_loop p h 10) (?s, ?w1)"
    by (simp add: sleep_main_def)
  have "\<exists>N st'. (\<forall>n\<ge>N. res_bind (run_co (sl_sys p) (sleep_main p h) (?s, w)) (\<lambda>(b, st). run n (sl_sys p) st)
      = Inr st') \<and> sleeper_ended p clock out (out ?w1 @ texts 10) (clock ?w1 + 10 * one_second) ?s st'"
    using run_sleep_loop [OF assms, of ?w1 10 ?s]
  proof (elim exE conjE disjE)
    fix w'
    assume "run_co (sl_sys p) (sleep_loop p h 10) (?s, ?w1) = Inr (True, ?s, w')" "out w' = out ?w1 @ texts 10"
      "clock ?w1 + int 10 * one_second \<le> clock w'"
    then have ended: "sleeper_ended p clock out (out ?w1 @ texts 10) (clock ?w1 + 10 * one_second) ?s (?s, w')"
      and "run_co (sl_sys p) (sleep_main p h) (?s, w) = Inr (True, ?s, w')"
      using new main by (simp_all add: sleeper_ended_def)
    then show ?thesis using run_sleeper_ended [OF ended]
      by (intro exI [of _ 1] exI [of _ "(?s, w')"]) simp
  next
    fix w' i tp
    assume "run_co (sl_sys p) (sleep_loop p h 10) (?s, ?w1) = Inr (True, post_timer tp h ?s, w')"
      "out w' @ texts (Suc i) = out ?w1 @ texts 10" "sl_left p w' = Suc i"
      "clock ?w1 + int 10 * one_second \<le> tp + int i * one_second"
    then have asleep: "sleeper_asleep p h out (out ?w1 @ texts 10) (clock ?w1 + 10 * one_second) ?s tp i (with_timers ?s [(tp, h)], w')"
      and "run_co (sl_sys p) (sleep_main p h) (?s, w) = Inr (True, with_timers ?s [(tp, h)], w')"
      using main by (simp_all add: sleeper_asleep_def post)
    then show ?thesis using run_sleeper [OF assms asleep] by simp
  qed
  then obtain N s' w' where run: "\<And>n. n \<ge> N \<Longrightarrow>
      res_bind (run_co (sl_sys p) (sleep_main p h) (?s, w)) (\<lambda>(b, st). run n (sl_sys p) st) = Inr (s', w')"
    and ended: "sleeper_ended p clock out (out ?w1 @ texts 10) (clock ?w1 + 10 * one_second) ?s (s', w')" by auto
  show ?thesis
    by (rule exI [of _ N], rule exI [of _ s'], rule exI [of _ w'])
      (use run ended w1 texts in \<open>simp add: sleeper_ended_def\<close>)
qed

theorem sleep_program_outcome_witness:
  "\<exists>N s' w'. res_bind (run_co (sl_sys demo_sleeper) (sleep_main demo_sleeper 0)
      (new_sched \<lparr>epfd = 3, focus = [], evs = []\<rparr>, (0, [], 0))) (\<lambda>(b, st). run N (sl_sys demo_sleeper) st) = Inr (s', w') \<and>
    length (fst (snd w')) = 13 \<and> 10000000000 \<le> fst w'"
proof -
  from sleep_program_outcome [OF demo_sleeper_contract, of 0 "\<lparr>epfd = 3, focus = [], evs = []\<rparr>" "(0, [], 0)"]
  obtain N s' w' where run: "\<forall>n\<ge>N. res_bind (run_co (sl_sys demo_sleeper) (sleep_main demo_sleeper 0)
      (new_sched \<lparr>epfd = 3, focus = [], evs = []\<rparr>, (0, [], 0))) (\<lambda>(b, st). run n (sl_sys demo_sleeper) st) = Inr (s', w')"
    and "10 * one_second \<le> fst w'" and out: "fst (snd w') = [''async run''] @ replicate 5 ''waked loop'' @ [''loop finished''] @
      replicate 5 ''waked loop 2'' @ [''async run finished'']"
    by auto
  then have "10000000000 \<le> fst w'" by (simp add: one_second_def)
  moreover have "length (fst (snd w')) = 13" using out by simp
  ultimately show ?thesis using run by blast
qed

end
