(* ===== verification/Spec2Isabelle.thy ===== *)
theory Spec2Isabelle
  imports BC_Address BC_Timers BC_Worker_Waits BC_Client BC_Async_Server BC_Sleeper
begin

text \<open>
  A verification development for \<open>bc\<close>, a C++23 library of coroutines over \<open>epoll\<close>, sockets and
  a logger with a background thread.

  \<^bold>\<open>The parts and how they interact.\<close> Utilities (\<open>include/bc/utils\<close>): error codes, the result type
  \<open>expected\<close>, overload sets. Network addresses (\<open>include/bc/network/address.hpp\<close>) parse and print
  host names and return their errors in an \<open>expected\<close>. The scheduler (\<open>include/bc/async\<close>,
  \<open>src/async/scheduler.cpp\<close>) owns a poller, which owns the \<open>epoll\<close> instance; coroutines post
  themselves with the scheduler, for a time or for the events of a descriptor, and its loop resumes
  them. Coroutines await each other through tasks (\<open>async/task.hpp\<close>) and the kernel through the awaiters of
  sockets (\<open>network/socket.hpp\<close>); servers and clients (\<open>server.hpp\<close>, \<open>client.hpp\<close>) are coroutines over
  both, and the programs (\<open>main.cpp\<close>, \<open>examples\<close>) give them their sessions. The logger
  (\<open>include/bc/log\<close>, \<open>src/log\<close>) queues records for a background thread that formats and writes them.

  \<^bold>\<open>The theories.\<close>
  \<^item> \<open>BC_Prelude\<close>: results with the faults of the program (thrown error codes, failed assertions,
    accesses out of range, dangling references, \<open>abort\<close> and \<open>terminate\<close>, a loop that used up its
    bound), vectors with bounds checks, \<open>bit_ceil\<close>, splitting and joining of strings, and the lemma
    collections of the development.
  \<^item> \<open>BC_Errors\<close>: \<open>include/bc/utils/error.hpp\<close>; \<open>errc\<close>, the message switch, \<open>trans_error_code\<close>.
  \<^item> \<open>BC_Expected\<close>: \<open>include/bc/utils/expected.hpp\<close>, \<open>overload.hpp\<close>, \<open>detail/detail.hpp\<close>; the selection of an
    overload, \<open>has_value\<close> through it, the accessors, \<open>value_or\<close> and \<open>and_then\<close>. The contract of a
    fallible value is the locale \<open>fallible\<close>, interpreted on \<open>expected\<close>.
  \<^item> \<open>BC_Address\<close>: \<open>address.hpp\<close>; \<open>parse_ipv4\<close>, \<open>parse_ipv6\<close>, \<open>address::from\<close> and \<open>expr\<close>, with the
    byte order of the host explicit. The number printer of the formatting library is the locale
    \<open>numeral_printer\<close>, interpreted on the decimal and the hexadecimal printer.
  \<^item> \<open>BC_World\<close>: what the asynchronous part runs on. A record of functions stands for the kernel
    calls, a tree for what a resumed coroutine does until it suspends; both are parameters of
    everything below. A concrete kernel serves closed examples.
  \<^item> \<open>BC_Poller\<close>: the class \<open>poller\<close>. The locale \<open>growing_table\<close> is the contract of \<open>adjust_size_\<close>, interpreted
    on \<open>focus_\<close>, \<open>evs_\<close> and, in the next theory, \<open>descriptor_nodes_\<close>.
  \<^item> \<open>BC_Scheduler\<close>: the class \<open>scheduler\<close>, every operation of it, and \<open>async_sleep\<close>. The locale
    \<open>timer_queue\<close> is the contract of the priority queue.
  \<^item> \<open>BC_Sched_Inv\<close>: invariants of the loop. The locale \<open>api_invariant\<close> has the laws under which a
    relation survives a coroutine, \<open>loop_invariant\<close> extends it by those for the loop; it is interpreted
    on the count of coroutines, the shape of the tables, the mirror of the kernel's interest list and the
    registration of events (and in \<open>BC_Handlers\<close> on the size of the buffer, where it stays and where it grows).
  \<^item> \<open>BC_Handlers\<close>: the arguments of \<open>epoll_wait\<close>, the descriptor handler against a reference, callables that
    are not ready, the buffer during delivery (when it stays in place, and when it is reallocated under the loop). \<open>BC_Timers\<close>: total correctness for programs of timers.
  \<^item> \<open>BC_Formatter\<close>: \<open>record.hpp\<close>, \<open>formatter.hpp\<close>, \<open>formatter.cpp\<close>. \<open>BC_Worker\<close>: \<open>logger.hpp\<close>, \<open>backend.hpp\<close>,
    \<open>worker.hpp\<close>, \<open>worker.cpp\<close>, \<open>log.hpp\<close> as a transition system of the application's threads and the worker. Its
    steps are single accesses of atomics, critical sections, notifications, and the parts of a wait (the
    test of the predicate, falling asleep, waking), so that lost notifications are among its runs.
  \<^item> \<open>BC_Worker_Waits\<close>: who wakes whom. A drain of records that can be formatted ends with everything written, and which
    states are the exception; which waits of \<open>flush\<close>, of the
    worker and of the destructors of loggers can miss their notification.
  \<^item> \<open>BC_Task\<close>: \<open>task.hpp\<close>; promises, awaiters, the class, and programs of coroutines as transitions between
    running, posted and awaiting. \<open>BC_Socket\<close>: \<open>socket.hpp\<close>; the class, its four awaiters over system calls
    that are a record of parameters (\<open>net\<close>), and programs over socket objects.
  \<^item> \<open>BC_Server\<close>: \<open>server.hpp\<close>, \<open>client.hpp\<close>; \<open>run_\<close> from one acceptance to the next, the sweep over the clients,
    the handler being a parameter. \<open>BC_Programs\<close>: the sessions of \<open>main.cpp\<close> and of the examples as state
    machines over the awaiters, and the examples' servers; the locale \<open>session_machine\<close> is the contract of a
    session, interpreted on the three servers' sessions. \<open>BC_Sleeper\<close>: \<open>sleep.cxx\<close> run by the scheduler.
  \<^item> \<open>BC_Event_Loop\<close>: invariants of whole programs, as laws their events have to keep. The locale \<open>event_loop\<close> is for
    programs that use no timers, \<open>lone_coroutine\<close> for those of which one coroutine waits at a time, in a state that
    the frame tells; and a loop to which no event can come does not return.
  \<^item> \<open>BC_Sessions\<close>: any number of such sessions as coroutines that the loop resumes, beside whatever else the
    program runs; the frame of a session is part of the outside state. \<open>BC_Echo_Server\<close>: \<open>main.cpp\<close> as a whole, the
    server of \<open>BC_Server\<close> as a coroutine (proved to do what \<open>server_resume\<close> does), its sessions and the loop, from
    the address to the destructors at the end; it is an \<open>event_loop\<close>.
  \<^item> \<open>BC_One_Time\<close>, \<open>BC_Client\<close>: \<open>one-time-server.cxx\<close> and \<open>client.cxx\<close> as wholes, each a \<open>lone_coroutine\<close>; the client's
    terminal is a parameter (\<open>tty\<close>). \<open>BC_Async_Server\<close>: \<open>async-server.cxx\<close>, the loop of \<open>main.cpp\<close>'s server in a coroutine
    that owns the clients, and what is left of it when accepting fails. In all of them the scheduler is made
    when it is first asked for (\<open>default_scheduler\<close>) and destroyed at the exit.

  \<^bold>\<open>Correspondence.\<close> Definitions have the names of the functions they model, with the class in front
  where two classes share a name (\<open>poller_subscribe\<close>, \<open>sched_subscribe\<close>). Members become fields
  without the underscore (\<open>focus_\<close> is \<open>focus\<close>). An operation on a state returns the new one in a
  \<open>result\<close>; a \<open>throw\<close>, an \<open>assert\<close>, an access outside a vector is a value of \<open>fault\<close>. Assertions are
  enabled. Calls of the logger inside other components are left out of their models, since they do not
  touch their state, except for an argument that can end the process (\<open>error().message()\<close>).

  \<^bold>\<open>Bounds.\<close> The loops that need not end (\<open>handle_expired\<close>, \<open>handle_nodes\<close>, \<open>run\<close>) take a number of steps
  and return \<open>Out_of_fuel\<close> when it does not suffice. It does: one more than the number of timers for
  \<open>handle_expired\<close> with coroutines that post none, the number of nodes for \<open>handle_nodes\<close> when
  callables are ready at once (\<open>handle_event_serves\<close>), and for \<open>run\<close> over timers a number exists from
  which on the result is the same (\<open>run_wakes_every_sleeper\<close>, \<open>sleep_program_outcome\<close> for a
  coroutine that posts itself again). For a callable that is never ready no
  number suffices (\<open>callable_not_ready_spins\<close>). Times are integers in nanoseconds, reference counts and
  \<open>coro_count_\<close> are natural numbers that wrap below zero, events are words of 32 bits.

  \<^bold>\<open>What the properties say.\<close> Scheduler: no coroutine is lost, the kernel is asked for
  exactly the events waited for, as long as the coroutines do not unsubscribe or close the descriptor themselves (then
  for these or for nothing), events reach the nodes they match and only those, sleepers wake in
  order and not early, waits are bounded. Tasks: an unfinished coroutine is in exactly one place and a
  result reaches the coroutine that awaits it, as long as no two await one task. Sockets and server:
  every open descriptor has exactly one owner and is closed with it, whatever the order of
  connections; sessions echo in order. The program \<open>main.cpp\<close>, composed of all of these: in every state under
  its loop exactly the right coroutines wait on exactly the right descriptors (\<open>echo_server_serves\<close>); so too for the programs with one
  connection (\<open>client_converses\<close>, \<open>one_time_server_serves\<close>), with the conversation of the client line by
  line; \<open>async-server.cxx\<close> does not end when it should (\<open>async_server_hangs\<close>). Logger: a logger outlives its records, which are written once and
  in order. Addresses: what is accepted, and that printing is inverted by parsing. The places where the
  code does not do what it means to are theorems too: the tables are one element short for
  descriptors that are powers of two, the buffer moves under the delivery loop, \<open>flush\<close> sleeps on the
  wrong variable, \<open>message\<close> aborts on unlisted codes and takes a server with it, \<open>::\<close> is no address, a
  socket that could not be made cannot be destroyed, a second coroutine that awaits a task replaces the
  first, and a destroyed socket leaves its waiting coroutines with the scheduler.

  \<^bold>\<open>Hypotheses.\<close> What is not under \<open>src\<close> is a parameter: the kernel's calls, the clock, formatting, what an
  application's coroutines do. Where a property relies on it, it has a hypothesis with the documented
  behaviour: \<open>epoll_contract\<close>, \<open>keeps_interest\<close> (nothing but \<open>epoll_ctl\<close> and the closing of a descriptor changes the
  interest list), \<open>descriptor_contract\<close> (new descriptors are unused, \<open>close\<close> frees its own),
  \<open>stream_contract\<close> (\<open>read\<close> and \<open>write\<close> account for the bytes they report), \<open>app_contract\<close>, and for whole
  programs \<open>session_contract\<close>, \<open>main_contract\<close>, \<open>one_time_contract\<close>, \<open>client_contract\<close> and \<open>async_contract\<close>, which add that the variables of the frames are separate from each
  other and from the kernel. Each is shown to hold of a concrete instance by the witnesses.

  \<^bold>\<open>Not modelled.\<close> Signals (\<open>SIGPIPE\<close>); \<open>operator ->\<close> of \<open>expected\<close>, which has no well-typed instance; umbrella headers and \<open>noncopyable\<close>, which have no behaviour. The frame of a suspended
  coroutine is not a value of the scheduler's model, in which coroutines are arbitrary trees of steps (a
  leaf \<open>Die\<close> ends the process): \<open>BC_Task\<close> has their handles and promises, \<open>BC_Server\<close>, \<open>BC_Programs\<close> and the
  theories over them have the states of the coroutines of the programs.
\<close>

end
